(* ===== verification/Prelude.thy ===== *)
theory Prelude
  imports Main "HOL-Library.AList" "HOL-Library.Char_ord"
begin

text \<open>
  What the components share: the names of the model's types, Rust's integer operations with
  their bounds written out, and the generic lemmas on lists, sums and association lists that
  the component theories use.

  A Rust \<open>String\<close>, \<open>&str\<close>, \<open>OsString\<close>, \<open>PathBuf\<close> or \<open>Vec<u8>\<close> is a
  \<^typ>\<open>string\<close>: the list of its bytes, one \<^typ>\<open>char\<close> per byte. Where the code relies on
  a \<open>str\<close> being valid UTF-8 the model says so (theory \<open>Utf8\<close>). A \<open>Result<T, E>\<close> is a sum
  with the error on the left. A \<open>Duration\<close> or an \<open>Instant\<close> is a number of nanoseconds.
  A \<open>HashMap\<close> is an association list with one entry per key.
\<close>

section \<open>Names of the model's types\<close>

type_synonym bytes = "string"
type_synonym ('e, 'a) result = "'e + 'a"
type_synonym duration = nat
type_synonym instant = nat

abbreviation Ok :: "'a \<Rightarrow> ('e, 'a) result" where "Ok \<equiv> Inr"
abbreviation Err :: "'e \<Rightarrow> ('e, 'a) result" where "Err \<equiv> Inl"

abbreviation byte_val :: "char \<Rightarrow> nat" where "byte_val c \<equiv> of_char c"

abbreviation SLASH :: char where "SLASH \<equiv> CHR 0x2F"
abbreviation DOT :: char where "DOT \<equiv> CHR 0x2E"
abbreviation NUL :: char where "NUL \<equiv> CHR 0x00"
abbreviation NEWLINE :: char where "NEWLINE \<equiv> CHR 0x0A"

named_theorems result_simps "equations that evaluate the monadic plumbing of a Result"
named_theorems alist_simps "equations of association lists used as hash maps"

section \<open>Results\<close>

definition bind_result :: "('e, 'a) result \<Rightarrow> ('a \<Rightarrow> ('e, 'b) result) \<Rightarrow> ('e, 'b) result" where
  "bind_result r f = (case r of Inl e \<Rightarrow> Inl e | Inr a \<Rightarrow> f a)"

definition map_result :: "('a \<Rightarrow> 'b) \<Rightarrow> ('e, 'a) result \<Rightarrow> ('e, 'b) result" where
  "map_result f r = (case r of Inl e \<Rightarrow> Inl e | Inr a \<Rightarrow> Inr (f a))"

definition map_err :: "('e \<Rightarrow> 'f) \<Rightarrow> ('e, 'a) result \<Rightarrow> ('f, 'a) result" where
  "map_err f r = (case r of Inl e \<Rightarrow> Inl (f e) | Inr a \<Rightarrow> Inr a)"

lemma bind_result_simps [simp, result_simps]:
  "bind_result (Inl e) f = Inl e"
  "bind_result (Inr a) f = f a"
  by (simp_all add: bind_result_def)

lemma map_result_simps [simp, result_simps]:
  "map_result g (Inl e) = Inl e"
  "map_result g (Inr a) = Inr (g a)"
  by (simp_all add: map_result_def)

lemma map_err_simps [simp, result_simps]:
  "map_err g (Inl e) = Inl (g e)"
  "map_err g (Inr a) = Inr a"
  by (simp_all add: map_err_def)

lemma bind_result_Inr:
  "bind_result r f = Inr b \<longleftrightarrow> (\<exists>a. r = Inr a \<and> f a = Inr b)"
  by (cases r) auto

lemma map_result_Inr [simp]:
  "map_result f r = Inr b \<longleftrightarrow> (\<exists>a. r = Inr a \<and> b = f a)"
  by (cases r) auto

lemma map_result_Inl [simp]:
  "map_result f r = Inl e \<longleftrightarrow> r = Inl e"
  by (cases r) auto

section \<open>Bytes\<close>

lemma byte_val_less [simp]: "byte_val c < 256"
proof -
  have "byte_val c mod 256 = byte_val c"
    by (rule of_char_mod_256)
  then show ?thesis
    by (metis mod_less_divisor zero_less_numeral)
qed

lemma byte_val_eq_iff: "byte_val c = byte_val d \<longleftrightarrow> c = d"
  by simp

text \<open>\<open>str::split\<close> by one character: the runs between its occurrences, at least one.\<close>

fun split_on :: "char \<Rightarrow> bytes \<Rightarrow> bytes list" where
  "split_on m [] = [[]]"
| "split_on m (c # cs) =
     (if c = m then [] # split_on m cs
      else (case split_on m cs of [] \<Rightarrow> [[c]] | run # runs \<Rightarrow> (c # run) # runs))"

lemma split_on_nonempty [simp]: "split_on m s \<noteq> []"
  by (induction s) (auto split: list.splits)

lemma split_on_no_sep: "m \<notin> set s \<Longrightarrow> split_on m s = [s]"
  by (induction s) auto

lemma split_on_runs: "r \<in> set (split_on m s) \<Longrightarrow> m \<notin> set r"
  by (induction s arbitrary: r) (auto split: list.splits if_splits)

definition starts_with :: "bytes \<Rightarrow> bytes \<Rightarrow> bool" where
  "starts_with s p \<longleftrightarrow> take (length p) s = p"

definition ends_with_char :: "bytes \<Rightarrow> char \<Rightarrow> bool" where
  "ends_with_char s c \<longleftrightarrow> s \<noteq> [] \<and> last s = c"

section \<open>Association lists as hash maps\<close>

lemma map_of_update [simp, alist_simps]:
  "map_of (AList.update k v m) = (map_of m)(k \<mapsto> v)"
  by (rule update_conv')

lemma map_of_delete [simp, alist_simps]:
  "map_of (AList.delete k m) = (map_of m)(k := None)"
  by (rule delete_conv')

section \<open>Encodings\<close>

text \<open>
  The contract of an encoding whose decoder may refuse its input but never refuses, or changes,
  what the encoder wrote. The escape of a path and the quoting of a shell argument are both
  encodings in this sense.
\<close>

locale encoding =
  fixes enc :: "'a \<Rightarrow> 'b"
    and dec :: "'b \<Rightarrow> ('e, 'a) result"
  assumes dec_enc: "dec (enc x) = Inr x"
begin

lemma enc_eq_iff: "enc x = enc y \<longleftrightarrow> x = y"
  by (metis dec_enc sum.inject(2))

lemma enc_inj: "inj enc"
  by (simp add: inj_def enc_eq_iff)

lemma dec_never_refuses: "dec (enc x) \<noteq> Inl e"
  by (simp add: dec_enc)

lemma dec_onto: "\<exists>b. dec b = Inr x"
  using dec_enc by blast

end

section \<open>Event loops\<close>

text \<open>
  The contract of a state fed with events one after another: what every event keeps holds after
  any sequence of them. \<open>good\<close> says which events the promise is about.
\<close>

locale event_loop =
  fixes react :: "'e \<Rightarrow> 's \<Rightarrow> 's"
    and good :: "'e \<Rightarrow> bool"
    and ok :: "'s \<Rightarrow> bool"
  assumes react_ok: "ok s \<Longrightarrow> good e \<Longrightarrow> ok (react e s)"
begin

lemma run_ok: "ok s \<Longrightarrow> list_all good es \<Longrightarrow> ok (fold react es s)"
  by (induction es arbitrary: s) (auto simp: react_ok)

lemma run_ok_prefix: "ok s \<Longrightarrow> list_all good (es @ fs) \<Longrightarrow> ok (fold react es s)"
  by (rule run_ok) auto

end

section \<open>Simulations\<close>

text \<open>A run of operations each of which is allowed where it is made.\<close>

fun legal_run :: "('op \<Rightarrow> 's \<Rightarrow> 's) \<Rightarrow> ('op \<Rightarrow> 's \<Rightarrow> bool) \<Rightarrow> 'op list \<Rightarrow> 's \<Rightarrow> bool" where
  "legal_run react allowed [] s = True"
| "legal_run react allowed (op # ops) s = (allowed op s \<and> legal_run react allowed ops (react op s))"

text \<open>
  The contract of a detailed state that stands for an abstract one: every allowed operation on
  the one is the operation of the same name on the other.
\<close>

locale simulation =
  fixes react :: "'op \<Rightarrow> 's \<Rightarrow> 's"
    and spec :: "'op \<Rightarrow> 'a \<Rightarrow> 'a"
    and allowed :: "'op \<Rightarrow> 's \<Rightarrow> bool"
    and stands_for :: "'s \<Rightarrow> 'a \<Rightarrow> bool"
  assumes sim_step: "stands_for s a \<Longrightarrow> allowed op s \<Longrightarrow> stands_for (react op s) (spec op a)"
begin

lemma sim_run:
  "stands_for s a \<Longrightarrow> legal_run react allowed ops s \<Longrightarrow> stands_for (fold react ops s) (fold spec ops a)"
  by (induction ops arbitrary: s a) (auto simp: sim_step)

end

end
