(* ===== verification/UnixPath.thy ===== *)
theory UnixPath
  imports Prelude
begin

text \<open>
  The part of \<open>std::path\<close> the code uses, on Unix, where a path is bytes and \<open>/\<close> the only
  separator: \<open>Path::is_absolute\<close>, \<open>Path::join\<close>, \<open>Path::components\<close> and
  \<open>Path::with_extension\<close>.
\<close>

definition is_absolute :: "bytes \<Rightarrow> bool" where
  "is_absolute p \<longleftrightarrow> (\<exists>rest. p = SLASH # rest)"

lemma is_absolute_code [code, simp]:
  "is_absolute [] = False"
  "is_absolute (c # cs) = (c = SLASH)"
  by (auto simp: is_absolute_def)

text \<open>\<open>Path::join\<close>: an absolute right side replaces the left.\<close>

definition path_join :: "bytes \<Rightarrow> bytes \<Rightarrow> bytes" where
  "path_join a b =
     (if is_absolute b then b
      else if a = [] \<or> last a = SLASH then a @ b
      else a @ SLASH # b)"

datatype component = RootDir | CurDir | ParentDir | Normal bytes

definition segment :: "bytes \<Rightarrow> component list" where
  "segment s =
     (if s = [] \<or> s = [DOT] then []
      else if s = [DOT, DOT] then [ParentDir]
      else [Normal s])"

text \<open>
  \<open>Path::components\<close>: empty segments and \<open>.\<close> are skipped, except a \<open>.\<close> that begins a
  relative path.
\<close>

definition components :: "bytes \<Rightarrow> component list" where
  "components p =
     (if is_absolute p then RootDir # concat (map segment (split_on SLASH (tl p)))
      else (case split_on SLASH p of
              [] \<Rightarrow> []
            | s # ss \<Rightarrow> (if s = [DOT] then [CurDir] else segment s) @ concat (map segment ss)))"

text \<open>
  \<open>Path::with_extension\<close> of a path whose last segment is an ordinary name: what follows the last
  dot of the name, unless the name begins with it, is replaced.
\<close>

definition last_name :: "bytes \<Rightarrow> bytes" where
  "last_name p = rev (takeWhile (\<lambda>c. c \<noteq> SLASH) (rev p))"

definition file_stem :: "bytes \<Rightarrow> bytes" where
  "file_stem name =
     (let stem = dropWhile (\<lambda>c. c \<noteq> DOT) (rev name) in if length stem \<le> 1 then name else rev (tl stem))"

definition with_extension :: "bytes \<Rightarrow> bytes \<Rightarrow> bytes" where
  "with_extension p extension =
     take (length p - length (last_name p)) p @ file_stem (last_name p) @ DOT # extension"

lemma path_join_relative:
  "\<not> is_absolute b \<Longrightarrow> path_join a b = (if a = [] \<or> last a = SLASH then a @ b else a @ SLASH # b)"
  by (simp add: path_join_def)

lemma path_join_absolute [simp]: "is_absolute a \<Longrightarrow> is_absolute (path_join a b)"
  by (cases a) (auto simp: path_join_def)

end
