(* ===== verification/Utf8.thy ===== *)
theory Utf8
  imports Prelude
begin

text \<open>
  The part of Rust's standard library that decides what is valid UTF-8:
  \<open>core::str::from_utf8\<close> with \<open>Utf8Error::valid_up_to\<close> and \<open>Utf8Error::error_len\<close>, and
  \<open>String::from_utf8_lossy\<close>. \<open>utf8_head\<close> reads one character at the head of a byte
  string, with the table of the Unicode standard (no overlong forms, no surrogates, nothing
  above U+10FFFF); the rest is iteration of it.
\<close>

section \<open>One character\<close>

text \<open>
  What stands at the head of the input: nothing, a character of \<open>n\<close> bytes, or bytes that are
  no character. The error carries \<open>error_len\<close>: \<open>None\<close> where the input stops part-way
  through a character, and otherwise the number of bytes to skip.
\<close>

datatype utf8_item = Utf8_End | Utf8_Char nat | Utf8_Bad "nat option"

definition is_cont :: "char \<Rightarrow> bool" where
  "is_cont c \<longleftrightarrow> 128 \<le> byte_val c \<and> byte_val c < 192"

definition utf8_width :: "char \<Rightarrow> nat" where
  "utf8_width c =
     (let v = byte_val c in
      if v < 128 then 1
      else if 194 \<le> v \<and> v \<le> 223 then 2
      else if 224 \<le> v \<and> v \<le> 239 then 3
      else if 240 \<le> v \<and> v \<le> 244 then 4
      else 0)"

text \<open>The second byte of a three or four byte character, where the first narrows it.\<close>

definition second_ok :: "char \<Rightarrow> char \<Rightarrow> bool" where
  "second_ok b c \<longleftrightarrow>
     is_cont c \<and>
     (byte_val b = 224 \<longrightarrow> 160 \<le> byte_val c) \<and>
     (byte_val b = 237 \<longrightarrow> byte_val c < 160) \<and>
     (byte_val b = 240 \<longrightarrow> 144 \<le> byte_val c) \<and>
     (byte_val b = 244 \<longrightarrow> byte_val c < 144)"

fun utf8_tail :: "nat \<Rightarrow> nat \<Rightarrow> bytes \<Rightarrow> utf8_item" where
  "utf8_tail 0 seen cs = Utf8_Char seen"
| "utf8_tail (Suc more) seen [] = Utf8_Bad None"
| "utf8_tail (Suc more) seen (c # cs) =
     (if is_cont c then utf8_tail more (Suc seen) cs else Utf8_Bad (Some seen))"

lemma utf8_tail_code [code]:
  "utf8_tail more seen cs =
     (if more = 0 then Utf8_Char seen
      else case cs of
             [] \<Rightarrow> Utf8_Bad None
           | c # cs \<Rightarrow> if is_cont c then utf8_tail (more - 1) (Suc seen) cs else Utf8_Bad (Some seen))"
  by (cases more; cases cs) auto

fun utf8_head :: "bytes \<Rightarrow> utf8_item" where
  "utf8_head [] = Utf8_End"
| "utf8_head (b # bs) =
     (let w = utf8_width b in
      if w = 0 then Utf8_Bad (Some 1)
      else if w = 1 then Utf8_Char 1
      else (case bs of
              [] \<Rightarrow> Utf8_Bad None
            | c # cs \<Rightarrow>
                if second_ok b c then utf8_tail (w - 2) 2 cs else Utf8_Bad (Some 1)))"

section \<open>A whole string\<close>

lemma utf8_tail_Char:
  "utf8_tail m k cs = Utf8_Char n \<Longrightarrow> n = k + m \<and> m \<le> length cs \<and> (\<forall>c \<in> set (take m cs). is_cont c)"
  by (induction m k cs rule: utf8_tail.induct) (auto split: if_splits)

lemma utf8_tail_Bad:
  "utf8_tail m k cs = Utf8_Bad (Some n) \<Longrightarrow>
     \<exists>j. n = k + j \<and> j < m \<and> j < length cs \<and> (\<forall>c \<in> set (take j cs). is_cont c) \<and> \<not> is_cont (cs ! j)"
proof (induction m k cs rule: utf8_tail.induct)
  case (3 more seen c cs)
  show ?case
  proof (cases "is_cont c")
    case True
    with 3 obtain j where "n = Suc seen + j" "j < more" "j < length cs"
      "\<forall>c \<in> set (take j cs). is_cont c" "\<not> is_cont (cs ! j)" by auto
    with True show ?thesis by (intro exI [of _ "Suc j"]) auto
  next
    case False
    with 3 show ?thesis by auto
  qed
qed auto

lemma utf8_tail_None:
  "utf8_tail m k cs = Utf8_Bad None \<Longrightarrow> length cs < m \<and> (\<forall>c \<in> set cs. is_cont c)"
  by (induction m k cs rule: utf8_tail.induct) (auto split: if_splits)

lemma utf8_tail_not_End [simp]: "utf8_tail m k cs \<noteq> Utf8_End"
  by (induction m k cs rule: utf8_tail.induct) auto

lemma utf8_head_End [simp]: "utf8_head bs = Utf8_End \<longleftrightarrow> bs = []"
  by (cases bs) (auto simp: Let_def split: list.splits)

lemma utf8_head_Char_bounds: "utf8_head bs = Utf8_Char n \<Longrightarrow> 0 < n \<and> n \<le> length bs"
  by (cases bs) (auto simp: Let_def split: list.splits if_splits dest: utf8_tail_Char)

lemma utf8_head_Bad_bounds:
  "utf8_head bs = Utf8_Bad (Some n) \<Longrightarrow> 0 < n \<and> n \<le> length bs"
  by (cases bs) (auto simp: Let_def split: list.splits if_splits dest!: utf8_tail_Bad)

text \<open>
  \<open>str::from_utf8\<close>: the string itself, or the length of the longest valid prefix and
  \<open>error_len\<close>.
\<close>

function from_utf8 :: "bytes \<Rightarrow> (nat \<times> nat option, bytes) result" where
  "from_utf8 bs =
     (case utf8_head bs of
        Utf8_End \<Rightarrow> Inr bs
      | Utf8_Bad e \<Rightarrow> Inl (0, e)
      | Utf8_Char n \<Rightarrow>
          (case from_utf8 (drop n bs) of
             Inr _ \<Rightarrow> Inr bs
           | Inl (k, e) \<Rightarrow> Inl (n + k, e)))"
  by pat_completeness auto
termination
  by (relation "measure length") (auto dest!: utf8_head_Char_bounds)

declare from_utf8.simps [simp del]

definition utf8_valid :: "bytes \<Rightarrow> bool" where
  "utf8_valid bs \<longleftrightarrow> from_utf8 bs = Inr bs"

section \<open>Facts of the decoder\<close>

lemma from_utf8_Inr: "from_utf8 bs = Inr v \<Longrightarrow> v = bs"
  by (subst (asm) from_utf8.simps) (auto split: utf8_item.splits sum.splits)

lemma utf8_valid_Nil [simp]: "utf8_valid []"
  by (simp add: utf8_valid_def from_utf8.simps)

lemma utf8_valid_iff: "utf8_valid bs \<longleftrightarrow> (\<exists>v. from_utf8 bs = Inr v)"
  by (auto simp: utf8_valid_def dest: from_utf8_Inr)

text \<open>A character is decided by its own bytes: what follows it does not matter.\<close>

lemma utf8_tail_prefix:
  "utf8_tail m k cs = Utf8_Char n \<Longrightarrow> utf8_tail m k (take m cs @ ds) = Utf8_Char n"
  by (induction m k cs rule: utf8_tail.induct) (auto split: if_splits)

lemma utf8_head_prefix:
  "utf8_head bs = Utf8_Char n \<Longrightarrow> utf8_head (take n bs @ ds) = Utf8_Char n"
proof (cases bs)
  case (Cons b bs')
  assume h: "utf8_head bs = Utf8_Char n"
  show ?thesis
  proof (cases "utf8_width b = 1")
    case True
    with h Cons show ?thesis by (auto simp: Let_def split: if_splits)
  next
    case False
    with h Cons obtain c cs where cs: "bs' = c # cs" "second_ok b c"
      "utf8_tail (utf8_width b - 2) 2 cs = Utf8_Char n" "utf8_width b \<noteq> 0"
      by (auto simp: Let_def split: list.splits if_splits)
    from utf8_tail_Char [OF cs(3)] have n: "n = Suc (Suc (utf8_width b - 2))" by simp
    from utf8_tail_prefix [OF cs(3), of ds] False cs Cons n show ?thesis by simp
  qed
qed simp

lemma utf8_head_append: "utf8_head bs = Utf8_Char n \<Longrightarrow> utf8_head (bs @ ds) = Utf8_Char n"
  using utf8_head_prefix [of bs n "drop n bs @ ds"] by (metis append_assoc append_take_drop_id)

lemma utf8_head_ascii: "byte_val c < 128 \<Longrightarrow> utf8_head (c # cs) = Utf8_Char 1"
  by (simp add: utf8_width_def)

lemma second_ok_cont: "second_ok b c \<Longrightarrow> is_cont c"
  by (simp add: second_ok_def)

lemma is_cont_high: "is_cont c \<Longrightarrow> 128 \<le> byte_val c"
  by (simp add: is_cont_def)

text \<open>A character of one byte is ASCII; a longer one has no ASCII byte in it.\<close>

lemma utf8_head_Char_one:
  assumes "utf8_head (b # bs) = Utf8_Char 1" shows "byte_val b < 128"
proof (rule ccontr)
  assume "\<not> byte_val b < 128"
  then have "utf8_width b \<noteq> 1" by (simp add: utf8_width_def Let_def)
  with assms show False
    by (auto simp: Let_def split: list.splits if_splits dest: utf8_tail_Char)
qed

lemma utf8_head_Char_many:
  assumes "utf8_head bs = Utf8_Char n" and "n \<noteq> 1" and "c \<in> set (take n bs)"
  shows "128 \<le> byte_val c"
proof -
  from assms(1,2) obtain b d cs where bs: "bs = b # d # cs" "second_ok b d" "utf8_width b > 1"
    "utf8_tail (utf8_width b - 2) 2 cs = Utf8_Char n"
    by (cases bs) (auto simp: Let_def split: list.splits if_splits)
  from utf8_tail_Char [OF bs(4)] have n: "n = Suc (Suc (utf8_width b - 2))"
    and tl: "\<forall>c \<in> set (take (utf8_width b - 2) cs). is_cont c" by auto
  from bs(3) have "128 \<le> byte_val b" by (auto simp: utf8_width_def Let_def split: if_splits)
  moreover have "128 \<le> byte_val d" using bs(2) by (auto dest: second_ok_cont is_cont_high)
  ultimately show ?thesis using assms(3) bs(1) n tl by (auto dest: is_cont_high)
qed

text \<open>No byte that an error skips is ASCII.\<close>

lemma utf8_head_Bad_high:
  assumes "utf8_head bs = Utf8_Bad (Some n)" and "c \<in> set (take n bs)"
  shows "128 \<le> byte_val c"
proof -
  from assms(1) obtain b bs' where bs: "bs = b # bs'" by (cases bs) auto
  have b: "128 \<le> byte_val b"
  proof (rule ccontr)
    assume "\<not> 128 \<le> byte_val b"
    then have "utf8_head bs = Utf8_Char 1" using bs utf8_head_ascii by simp
    with assms(1) show False by simp
  qed
  show ?thesis
  proof (cases "n = 1")
    case True
    with assms(2) bs b show ?thesis by simp
  next
    case False
    with assms(1) bs obtain d cs where cs: "bs' = d # cs" "second_ok b d"
      "utf8_tail (utf8_width b - 2) 2 cs = Utf8_Bad (Some n)"
      by (auto simp: Let_def split: list.splits if_splits)
    from utf8_tail_Bad [OF cs(3)] obtain j where "n = 2 + j" "\<forall>c \<in> set (take j cs). is_cont c" by auto
    with assms(2) bs b cs show ?thesis by (auto dest: second_ok_cont is_cont_high)
  qed
qed

lemma utf8_head_None_high:
  assumes "utf8_head bs = Utf8_Bad None" and "c \<in> set bs"
  shows "128 \<le> byte_val c"
proof -
  from assms(1) obtain b bs' where bs: "bs = b # bs'" by (cases bs) auto
  have b: "128 \<le> byte_val b"
  proof (rule ccontr)
    assume "\<not> 128 \<le> byte_val b"
    then have "utf8_head bs = Utf8_Char 1" using bs utf8_head_ascii by simp
    with assms(1) show False by simp
  qed
  show ?thesis
  proof (cases bs')
    case Nil
    with assms(2) bs b show ?thesis by simp
  next
    case (Cons d cs)
    with assms(1) bs have "second_ok b d" "utf8_tail (utf8_width b - 2) 2 cs = Utf8_Bad None"
      by (auto simp: Let_def split: if_splits)
    with utf8_tail_None [of "utf8_width b - 2" 2 cs] assms(2) bs b Cons show ?thesis
      by (auto dest: second_ok_cont is_cont_high)
  qed
qed

text \<open>What follows an error does not change it, and a cut character ends where ASCII begins.\<close>

lemma utf8_tail_Bad_append:
  "utf8_tail m k cs = Utf8_Bad (Some n) \<Longrightarrow> utf8_tail m k (cs @ ds) = Utf8_Bad (Some n)"
  by (induction m k cs rule: utf8_tail.induct) (auto split: if_splits)

lemma utf8_head_Bad_append:
  "utf8_head bs = Utf8_Bad (Some n) \<Longrightarrow> utf8_head (bs @ ds) = Utf8_Bad (Some n)"
  by (cases bs) (auto simp: Let_def utf8_tail_Bad_append split: list.splits if_splits)

lemma utf8_tail_None_append:
  "utf8_tail m k cs = Utf8_Bad None \<Longrightarrow> \<not> is_cont c \<Longrightarrow>
     utf8_tail m k (cs @ c # ds) = Utf8_Bad (Some (k + length cs))"
  by (induction m k cs rule: utf8_tail.induct) (auto split: if_splits)

lemma utf8_head_None_append:
  assumes "utf8_head bs = Utf8_Bad None" and "byte_val c < 128"
  shows "utf8_head (bs @ c # ds) = Utf8_Bad (Some (length bs))"
proof -
  from assms(2) have c: "\<not> is_cont c" by (simp add: is_cont_def)
  then have nc: "\<not> second_ok b c" for b by (simp add: second_ok_def)
  from assms(1) obtain b bs' where "bs = b # bs'" by (cases bs) auto
  with assms(1) c nc show ?thesis
    by (auto simp: Let_def utf8_tail_None_append split: list.splits if_splits)
qed

text \<open>The error of a whole string is the error at the head of its undecodable rest.\<close>

lemma from_utf8_Err:
  "from_utf8 bs = Inl (k, e) \<Longrightarrow>
     k < length bs \<and> utf8_head (drop k bs) = Utf8_Bad e \<and> utf8_valid (take k bs)"
proof (induction bs arbitrary: k rule: from_utf8.induct)
  case (1 bs)
  show ?case
  proof (cases "utf8_head bs")
    case Utf8_End
    with "1.prems" show ?thesis by (simp add: from_utf8.simps [of bs])
  next
    case (Utf8_Bad e')
    with "1.prems" have "k = 0" "e' = e" by (auto simp: from_utf8.simps [of bs])
    with Utf8_Bad show ?thesis by (cases bs) auto
  next
    case (Utf8_Char n)
    with "1.prems" obtain j where j: "from_utf8 (drop n bs) = Inl (j, e)" "k = n + j"
      by (auto simp: from_utf8.simps [of bs] split: sum.splits)
    from "1.IH" [OF Utf8_Char j(1)] have ih: "j < length (drop n bs)"
      "utf8_head (drop j (drop n bs)) = Utf8_Bad e" "utf8_valid (take j (drop n bs))" by auto
    have hd: "utf8_head (take k bs) = Utf8_Char n"
      using utf8_head_prefix [OF Utf8_Char, of "take j (drop n bs)"] j(2) by (simp add: take_add)
    have "drop n (take k bs) = take j (drop n bs)" using j(2) by (simp add: drop_take)
    with ih(3) hd have "utf8_valid (take k bs)"
      by (auto simp: utf8_valid_iff from_utf8.simps [of "take k bs"])
    with ih(1,2) j(2) show ?thesis by (simp add: add.commute)
  qed
qed

lemma utf8_valid_append:
  "utf8_valid a \<Longrightarrow> utf8_valid b \<Longrightarrow> utf8_valid (a @ b)"
proof (induction a rule: from_utf8.induct)
  case (1 a)
  show ?case
  proof (cases "utf8_head a")
    case Utf8_End
    with "1.prems" show ?thesis by simp
  next
    case (Utf8_Bad e)
    with "1.prems" show ?thesis by (simp add: utf8_valid_iff from_utf8.simps [of a])
  next
    case (Utf8_Char n)
    with "1.prems"(1) have "utf8_valid (drop n a)"
      by (auto simp: utf8_valid_iff from_utf8.simps [of a] split: sum.splits)
    with "1.IH" Utf8_Char "1.prems"(2) have "utf8_valid (drop n a @ b)"
      by (metis utf8_valid_iff)
    moreover have "drop n (a @ b) = drop n a @ b"
      using utf8_head_Char_bounds [OF Utf8_Char] by simp
    ultimately show ?thesis
      using utf8_head_append [OF Utf8_Char, of b]
      by (auto simp: utf8_valid_iff from_utf8.simps [of "a @ b"])
  qed
qed

lemma utf8_valid_ascii: "\<forall>c \<in> set s. byte_val c < 128 \<Longrightarrow> utf8_valid s"
proof (induction s)
  case (Cons c s)
  have "utf8_valid [c]"
    using Cons.prems by (simp add: utf8_valid_iff from_utf8.simps [of "[c]"] utf8_width_def from_utf8.simps [of "[]"])
  from utf8_valid_append [OF this, of s] Cons show ?case by simp
qed simp

lemma utf8_valid_char:
  assumes "utf8_head bs = Utf8_Char n" shows "utf8_valid (take n bs)"
proof -
  have "utf8_head (take n bs) = Utf8_Char n" using utf8_head_prefix [OF assms, of "[]"] by simp
  then show ?thesis
    by (simp add: utf8_valid_iff from_utf8.simps [of "take n bs"])
       (simp add: from_utf8.simps)
qed

section \<open>Lossy decoding\<close>

text \<open>The three bytes of U+FFFD, which stands for undecodable bytes on screen.\<close>

definition REPLACEMENT :: bytes where
  "REPLACEMENT = [CHR 0xEF, CHR 0xBF, CHR 0xBD]"

function from_utf8_lossy :: "bytes \<Rightarrow> bytes" where
  "from_utf8_lossy bs =
     (case utf8_head bs of
        Utf8_End \<Rightarrow> []
      | Utf8_Char n \<Rightarrow> take n bs @ from_utf8_lossy (drop n bs)
      | Utf8_Bad None \<Rightarrow> REPLACEMENT
      | Utf8_Bad (Some n) \<Rightarrow> REPLACEMENT @ from_utf8_lossy (drop n bs))"
  by pat_completeness auto
termination
  by (relation "measure length") (auto dest!: utf8_head_Char_bounds utf8_head_Bad_bounds)

declare from_utf8_lossy.simps [simp del]

lemma from_utf8_lossy_valid: "utf8_valid bs \<Longrightarrow> from_utf8_lossy bs = bs"
proof (induction bs rule: from_utf8.induct)
  case (1 bs)
  show ?case
  proof (cases "utf8_head bs")
    case Utf8_End
    then show ?thesis by (simp add: from_utf8_lossy.simps)
  next
    case (Utf8_Bad e)
    with "1.prems" show ?thesis by (simp add: utf8_valid_iff from_utf8.simps [of bs])
  next
    case (Utf8_Char n)
    with "1.prems" have "utf8_valid (drop n bs)"
      by (auto simp: utf8_valid_iff from_utf8.simps [of bs] split: sum.splits)
    with "1.IH" [OF Utf8_Char] Utf8_Char show ?thesis by (simp add: from_utf8_lossy.simps [of bs])
  qed
qed

end
