(* ===== verification/StdIo.thy ===== *)
theory StdIo
  imports UnixPath Utf8
begin

text \<open>
  What the code uses of \<open>std::io::Error\<close> and of the standard formatting of numbers: the kinds of
  error it tells apart and the text it prints.
\<close>

section \<open>\<open>io::Error\<close>\<close>

datatype io_kind =
    Io_AlreadyExists | Io_NotFound | Io_PermissionDenied | Io_NotADirectory | Io_IsADirectory
  | Io_Interrupted | Io_NotConnected | Io_ConnectionRefused | Io_ConnectionReset | Io_BrokenPipe
  | Io_InvalidInput | Io_Other

record io_error =
  io_kind :: io_kind
  io_text :: bytes

definition io_error_new :: "io_kind \<Rightarrow> bytes \<Rightarrow> io_error" where
  "io_error_new k t = \<lparr>io_kind = k, io_text = t\<rparr>"

lemma io_error_new_simps [simp]:
  "io_kind (io_error_new k t) = k" "io_text (io_error_new k t) = t"
  by (simp_all add: io_error_new_def)

section \<open>Numbers as text\<close>

definition digit_char :: "nat \<Rightarrow> char" where
  "digit_char d = ''0123456789ABCDEF'' ! d"

fun show_nat :: "nat \<Rightarrow> bytes" where
  "show_nat n = (if n < 10 then [digit_char n] else show_nat (n div 10) @ [digit_char (n mod 10)])"

declare show_nat.simps [simp del]

text \<open>\<open>{:02X}\<close> of a byte.\<close>

definition show_hex2 :: "nat \<Rightarrow> bytes" where
  "show_hex2 n = [digit_char (n div 16), digit_char (n mod 16)]"

text \<open>\<open>Path::display\<close>: lossy, for messages.\<close>

definition path_display :: "bytes \<Rightarrow> bytes" where
  "path_display p = from_utf8_lossy p"

end
