(* ===== verification/PathString.thy ===== *)
theory PathString
  imports Utf8 UnixPath
begin

text \<open>
  \<open>src/path_string.rs\<close>: names and paths held as strings without losing a byte. The escape of
  a byte string is the string with \<open>%\<close> doubled and every byte outside UTF-8 written
  \<open>%XX\<close>.

  The lemmas: the escape is always valid UTF-8 and decodes to the bytes it was built from, so
  it is injective; it holds a \<open>/\<close> exactly where the bytes do, and joining two escapes is the
  escape of the joined path; decoding never lets an escape stand for a byte below \<open>0x80\<close>.
\<close>

section \<open>Escaping\<close>

abbreviation MARKER :: char where "MARKER \<equiv> CHR 0x25"

definition HEX_DIGITS :: bytes where "HEX_DIGITS = ''0123456789ABCDEF''"

definition LOWEST_ESCAPABLE_BYTE :: nat where "LOWEST_ESCAPABLE_BYTE = 0x80"

datatype escape_error = Truncated | NotUppercaseHex | NotEscapable nat

text \<open>One undecodable byte: the marker and the digits of \<open>byte >> 4\<close> and \<open>byte & 0x0f\<close>.\<close>

definition escape_byte :: "char \<Rightarrow> bytes" where
  "escape_byte b = [MARKER, HEX_DIGITS ! (byte_val b div 16), HEX_DIGITS ! (byte_val b mod 16)]"

definition push_valid :: "bytes \<Rightarrow> bytes" where
  "push_valid valid =
     (case split_on MARKER valid of
        [] \<Rightarrow> []
      | first # runs \<Rightarrow> first @ concat (map (\<lambda>run. MARKER # MARKER # run) runs))"

text \<open>
  The loop of \<open>escape\<close>: the decodable run, then the undecodable bytes that follow it, then
  the rest. \<open>error_len\<close> is \<open>None\<close> where the input stops part-way through a character, and
  then everything left is escaped.
\<close>

function escape :: "bytes \<Rightarrow> bytes" where
  "escape rest =
     (case from_utf8 rest of
        Inr valid \<Rightarrow> push_valid valid
      | Inl (valid_up_to, error_len) \<Rightarrow>
          (let valid = take valid_up_to rest;
               invalid = drop valid_up_to rest;
               invalid_len = (case error_len of None \<Rightarrow> length invalid | Some n \<Rightarrow> n)
           in push_valid valid
              @ concat (map escape_byte (take invalid_len invalid))
              @ escape (drop invalid_len invalid)))"
  by pat_completeness auto
termination
proof (relation "measure length", goal_cases)
  case (2 rest e k n valid invalid len)
  then show ?case
    by (auto dest!: from_utf8_Err utf8_head_Bad_bounds split: option.splits)
qed simp

declare escape.simps [simp del]

section \<open>Decoding\<close>

definition hex_value :: "char \<Rightarrow> nat option" where
  "hex_value d =
     (let v = byte_val d in
      if byte_val CHR ''0'' \<le> v \<and> v \<le> byte_val CHR ''9'' then Some (v - byte_val CHR ''0'')
      else if byte_val CHR ''A'' \<le> v \<and> v \<le> byte_val CHR ''F'' then Some (v - byte_val CHR ''A'' + 10)
      else None)"

text \<open>
  \<open>unescape\<close> scans by an index; the model's argument is what stands from the index on. The
  digits are read together first, so a sequence cut short is \<open>Truncated\<close> whatever its first
  digit.
\<close>

fun unescape :: "bytes \<Rightarrow> (escape_error, bytes) result" where
  "unescape [] = Ok []"
| "unescape (c # cs) =
     (if c \<noteq> MARKER then map_result (Cons c) (unescape cs)
      else (case cs of
              [] \<Rightarrow> Err Truncated
            | next # cs' \<Rightarrow>
                if next = MARKER then map_result (Cons MARKER) (unescape cs')
                else (case cs' of
                        [] \<Rightarrow> Err Truncated
                      | second # cs'' \<Rightarrow>
                          (case hex_value next of
                             None \<Rightarrow> Err NotUppercaseHex
                           | Some high \<Rightarrow>
                               (case hex_value second of
                                  None \<Rightarrow> Err NotUppercaseHex
                                | Some low \<Rightarrow>
                                    (let byte = 16 * high + low in
                                     if byte < LOWEST_ESCAPABLE_BYTE then Err (NotEscapable byte)
                                     else map_result (Cons (char_of byte)) (unescape cs'')))))))"

section \<open>The path string\<close>

text \<open>
  \<open>PathString(String)\<close>: the escaped form behind a constructor of its own, so that a name in
  its escaped form and the bytes it stands for are different types, as they are in the code.
\<close>

datatype path_string = PathString (as_str: bytes)

definition ps_escape :: "bytes \<Rightarrow> path_string" where
  "ps_escape bs = PathString (escape bs)"

definition from_literal :: "bytes \<Rightarrow> path_string" where
  "from_literal text = PathString (escape text)"

definition from_escaped :: "bytes \<Rightarrow> (escape_error, path_string) result" where
  "from_escaped escaped = bind_result (unescape escaped) (\<lambda>_. Ok (PathString escaped))"

definition from_os_str :: "bytes \<Rightarrow> path_string" where
  "from_os_str text = ps_escape text"

definition from_path :: "bytes \<Rightarrow> path_string" where
  "from_path path = from_os_str path"

definition into_string :: "path_string \<Rightarrow> bytes" where
  "into_string p = as_str p"

definition to_bytes :: "path_string \<Rightarrow> (escape_error, bytes) result" where
  "to_bytes p = unescape (as_str p)"

definition to_path_buf :: "path_string \<Rightarrow> (escape_error, bytes) result" where
  "to_path_buf p = to_bytes p"

definition ps_join :: "path_string \<Rightarrow> path_string \<Rightarrow> path_string" where
  "ps_join self name =
     (if as_str self = [] then name
      else (let separator = (if ends_with_char (as_str self) SLASH then [] else [SLASH])
            in PathString (as_str self @ separator @ as_str name)))"

definition ps_display :: "path_string \<Rightarrow> bytes" where
  "ps_display self =
     (if MARKER \<notin> set (as_str self) then as_str self
      else (case to_bytes self of
              Inr bs \<Rightarrow> from_utf8_lossy bs
            | Inl _ \<Rightarrow> as_str self))"

definition is_name :: "path_string \<Rightarrow> bool" where
  "is_name self =
     (case to_path_buf self of
        Inl _ \<Rightarrow> False
      | Inr path \<Rightarrow>
          (case components path of
             [Normal _] \<Rightarrow> True
           | _ \<Rightarrow> False))"

section \<open>What the escape computes\<close>

definition double_marker :: "char \<Rightarrow> bytes" where
  "double_marker c = (if c = MARKER then [MARKER, MARKER] else [c])"

lemma push_valid_map: "push_valid s = concat (map double_marker s)"
proof (induction s)
  case (Cons c s)
  show ?case
  proof (cases "split_on MARKER s")
    case (Cons run runs)
    with Cons.IH show ?thesis
      by (auto simp: push_valid_def double_marker_def split: list.splits)
  qed simp
qed (simp add: push_valid_def)

lemma push_valid_append [simp]: "push_valid (a @ b) = push_valid a @ push_valid b"
  by (simp add: push_valid_map)

lemma push_valid_Nil [simp]: "push_valid [] = []"
  by (simp add: push_valid_map)

text \<open>The escape read one character at a time.\<close>

lemma escape_Nil [simp]: "escape [] = []"
  by (simp add: escape.simps from_utf8.simps)

lemma escape_head:
  "escape bs =
     (case utf8_head bs of
        Utf8_End \<Rightarrow> []
      | Utf8_Char n \<Rightarrow> push_valid (take n bs) @ escape (drop n bs)
      | Utf8_Bad None \<Rightarrow> concat (map escape_byte bs)
      | Utf8_Bad (Some n) \<Rightarrow> concat (map escape_byte (take n bs)) @ escape (drop n bs))"
proof (cases "utf8_head bs")
  case Utf8_End
  then show ?thesis by simp
next
  case (Utf8_Bad e)
  then show ?thesis
    by (cases e) (simp_all add: escape.simps [of bs] from_utf8.simps [of bs])
next
  case (Utf8_Char n)
  show ?thesis
  proof (cases "from_utf8 (drop n bs)")
    case (Inr v)
    with from_utf8_Inr have "v = drop n bs" by blast
    with Inr Utf8_Char have "escape (drop n bs) = push_valid (drop n bs)" "escape bs = push_valid bs"
      by (simp_all add: escape.simps [of "drop n bs"] escape.simps [of bs] from_utf8.simps [of bs])
    moreover have "push_valid bs = push_valid (take n bs) @ push_valid (drop n bs)"
      by (simp flip: push_valid_append)
    ultimately show ?thesis using Utf8_Char by simp
  next
    case (Inl x)
    then obtain k e where e: "from_utf8 (drop n bs) = Inl (k, e)" by (cases x) auto
    have bs: "from_utf8 bs = Inl (n + k, e)" using e Utf8_Char by (simp add: from_utf8.simps [of bs])
    have tk: "take (n + k) bs = take n bs @ take k (drop n bs)" by (simp add: take_add)
    have dr: "drop (n + k) bs = drop k (drop n bs)" by (simp add: add.commute)
    have "escape bs = push_valid (take n bs) @ escape (drop n bs)"
      unfolding escape.simps [of bs] escape.simps [of "drop n bs"] bs e sum.case prod.case Let_def tk dr
      by simp
    with Utf8_Char show ?thesis by simp
  qed
qed

text \<open>The induction that follows the characters of the input.\<close>

lemma char_induct [case_names End Char Cut Bad]:
  assumes "P []"
    and "\<And>bs n. utf8_head bs = Utf8_Char n \<Longrightarrow> P (drop n bs) \<Longrightarrow> P bs"
    and "\<And>bs. utf8_head bs = Utf8_Bad None \<Longrightarrow> P bs"
    and "\<And>bs n. utf8_head bs = Utf8_Bad (Some n) \<Longrightarrow> P (drop n bs) \<Longrightarrow> P bs"
  shows "P bs"
proof (induction bs rule: length_induct)
  case (1 bs)
  show ?case
  proof (cases "utf8_head bs")
    case Utf8_End
    with assms(1) show ?thesis by simp
  next
    case (Utf8_Char n)
    from utf8_head_Char_bounds [OF Utf8_Char] have "length (drop n bs) < length bs"
      unfolding length_drop by linarith
    with 1 have "P (drop n bs)" by blast
    with Utf8_Char assms(2) show ?thesis by blast
  next
    case (Utf8_Bad e)
    show ?thesis
    proof (cases e)
      case None
      with Utf8_Bad assms(3) show ?thesis by simp
    next
      case (Some n)
      with Utf8_Bad utf8_head_Bad_bounds [of bs n] have "length (drop n bs) < length bs"
        unfolding length_drop by fastforce
      with 1 have "P (drop n bs)" by blast
      with Some Utf8_Bad assms(4) show ?thesis by blast
    qed
  qed
qed

section \<open>The digits\<close>

definition good_digit :: "nat \<Rightarrow> bool" where
  "good_digit k \<longleftrightarrow>
     hex_value (HEX_DIGITS ! k) = Some k \<and> HEX_DIGITS ! k \<noteq> MARKER \<and>
     HEX_DIGITS ! k \<noteq> SLASH \<and> byte_val (HEX_DIGITS ! k) < 128"

lemma good_digits: "list_all good_digit [0..<16]"
  by (simp add: good_digit_def HEX_DIGITS_def hex_value_def upt_rec)

lemma hex_digit_facts:
  assumes "k < 16"
  shows "hex_value (HEX_DIGITS ! k) = Some k" "HEX_DIGITS ! k \<noteq> MARKER"
    "HEX_DIGITS ! k \<noteq> SLASH" "byte_val (HEX_DIGITS ! k) < 128"
  using good_digits assms by (auto simp: list_all_iff good_digit_def)

lemma nibbles [simp]: "byte_val b div 16 < 16" "byte_val b mod 16 < 16"
  using byte_val_less [of b] by (simp_all add: less_mult_imp_div_less)

lemma unescape_byte:
  assumes "128 \<le> byte_val b"
  shows "unescape (escape_byte b @ t) = map_result (Cons b) (unescape t)"
proof -
  have "16 * (byte_val b div 16) + byte_val b mod 16 = byte_val b" by simp
  with assms show ?thesis
    by (simp add: escape_byte_def hex_digit_facts Let_def LOWEST_ESCAPABLE_BYTE_def)
qed

lemma unescape_bytes:
  "\<forall>b \<in> set bs. 128 \<le> byte_val b \<Longrightarrow>
     unescape (concat (map escape_byte bs) @ t) = map_result ((@) bs) (unescape t)"
proof (induction bs)
  case Nil
  show ?case by (cases "unescape t") simp_all
next
  case (Cons b bs)
  then show ?case by (cases "unescape t") (simp_all add: unescape_byte)
qed

lemma unescape_double: "unescape (double_marker c @ t) = map_result (Cons c) (unescape t)"
  by (simp add: double_marker_def)

lemma unescape_push_valid:
  "unescape (push_valid s @ t) = map_result ((@) s) (unescape t)"
proof (induction s)
  case Nil
  show ?case by (cases "unescape t") simp_all
next
  case (Cons c s)
  then show ?case
    by (cases "unescape t") (simp_all add: push_valid_map unescape_double)
qed

lemma unescape_escape: "unescape (escape bs) = Ok bs"
proof (induction bs rule: char_induct)
  case (Char bs n)
  then show ?case
    by (subst escape_head) (simp add: unescape_push_valid)
next
  case (Cut bs)
  then show ?case
    using unescape_bytes [of bs "[]"] by (subst escape_head) (auto dest: utf8_head_None_high)
next
  case (Bad bs n)
  then have "\<forall>b \<in> set (take n bs). 128 \<le> byte_val b" by (auto dest: utf8_head_Bad_high)
  with Bad show ?case by (subst escape_head) (simp add: unescape_bytes)
qed simp

interpretation esc: encoding escape unescape
  by unfold_locales (rule unescape_escape)

interpretation ps: encoding ps_escape to_bytes
  by unfold_locales (simp add: ps_escape_def to_bytes_def unescape_escape)

section \<open>The escape as a map of strings\<close>

lemma double_marker_not_Nil [simp]: "double_marker c \<noteq> []"
  by (simp add: double_marker_def)

lemma escape_byte_not_Nil [simp]: "escape_byte c \<noteq> []"
  by (simp add: escape_byte_def)

text \<open>An ASCII byte cuts the escape in two: nothing before it runs over into what follows.\<close>

lemma escape_ascii:
  assumes "byte_val c < 128"
  shows "escape (a @ c # b) = escape a @ double_marker c @ escape b"
proof (induction a rule: char_induct)
  case End
  with assms show ?case
    by (subst escape_head)
       (simp add: utf8_head_ascii push_valid_map del: utf8_head.simps)
next
  case (Char a n)
  have "drop n (a @ c # b) = drop n a @ c # b" "take n (a @ c # b) = take n a"
    using utf8_head_Char_bounds [OF Char(1)] by simp_all
  with Char show ?case
    by (subst escape_head, subst (2) escape_head) (simp add: utf8_head_append)
next
  case (Cut a)
  with assms show ?case
    by (subst escape_head, subst (2) escape_head, subst escape_head)
       (simp add: utf8_head_None_append utf8_head_ascii push_valid_map del: utf8_head.simps)
next
  case (Bad a n)
  have "drop n (a @ c # b) = drop n a @ c # b" "take n (a @ c # b) = take n a"
    using utf8_head_Bad_bounds [OF Bad(1)] by simp_all
  with Bad show ?case
    by (subst escape_head, subst (2) escape_head) (simp add: utf8_head_Bad_append)
qed

lemma escape_slash: "escape (a @ SLASH # b) = escape a @ SLASH # escape b"
  using escape_ascii [of SLASH a b] by (simp add: double_marker_def)

lemma escape_eq_Nil [simp]: "escape bs = [] \<longleftrightarrow> bs = []"
  by (metis esc.enc_eq_iff escape_Nil)

lemma no_slash_escape_bytes: "SLASH \<notin> set (concat (map escape_byte bs))"
  using hex_digit_facts(3) [OF nibbles(1)] hex_digit_facts(3) [OF nibbles(2)]
  by (auto simp: escape_byte_def dest: sym)

lemma set_push_valid [simp]: "set (push_valid s) = set s"
  by (induction s) (auto simp: push_valid_map double_marker_def)

lemma escape_no_slash: "SLASH \<notin> set bs \<Longrightarrow> SLASH \<notin> set (escape bs)"
proof (induction bs rule: char_induct)
  case (Char bs n)
  then show ?case
    by (subst escape_head) (auto dest: in_set_takeD in_set_dropD)
next
  case (Cut bs)
  then show ?case using no_slash_escape_bytes by (subst escape_head) simp
next
  case (Bad bs n)
  then show ?case using no_slash_escape_bytes by (subst escape_head) (auto dest: in_set_dropD)
qed simp

lemma escape_slash_iff: "SLASH \<in> set (escape bs) \<longleftrightarrow> SLASH \<in> set bs"
proof
  assume "SLASH \<in> set bs"
  then obtain a b where "bs = a @ SLASH # b" by (auto dest: split_list)
  then show "SLASH \<in> set (escape bs)" by (simp add: escape_slash)
qed (use escape_no_slash in blast)

lemma ends_with_slash_iff: "ends_with_char (escape bs) SLASH \<longleftrightarrow> ends_with_char bs SLASH"
proof
  assume "ends_with_char bs SLASH"
  then obtain a where "bs = a @ SLASH # []"
    by (metis append_butlast_last_id ends_with_char_def)
  then show "ends_with_char (escape bs) SLASH" by (simp add: escape_slash ends_with_char_def)
next
  assume e: "ends_with_char (escape bs) SLASH"
  then have "SLASH \<in> set bs"
    by (metis ends_with_char_def escape_slash_iff last_in_set)
  then obtain a b where bs: "bs = a @ SLASH # b" "SLASH \<notin> set b"
    by (metis split_list_last)
  then have "escape bs = escape a @ SLASH # escape b" by (simp add: escape_slash)
  with e escape_no_slash [OF bs(2)] have "escape b = []"
    by (metis ends_with_char_def last.simps last_appendR last_in_set list.distinct(1))
  with bs show "ends_with_char bs SLASH" by (simp add: ends_with_char_def)
qed

lemma utf8_valid_push_valid: "utf8_head bs = Utf8_Char n \<Longrightarrow> utf8_valid (push_valid (take n bs))"
proof (cases "n = 1")
  case True
  moreover assume h: "utf8_head bs = Utf8_Char n"
  ultimately obtain b bs' where "bs = b # bs'" "byte_val b < 128"
    using utf8_head_Char_one by (metis utf8_head_End list.exhaust utf8_item.distinct(1))
  with True show ?thesis
    by (intro utf8_valid_ascii) (auto simp: push_valid_map double_marker_def)
next
  case False
  moreover assume h: "utf8_head bs = Utf8_Char n"
  ultimately have "MARKER \<notin> set (take n bs)"
    using utf8_head_Char_many [OF h False, of MARKER] by auto
  then have "push_valid (take n bs) = take n bs"
    by (simp add: push_valid_def split_on_no_sep)
  with utf8_valid_char [OF h] show ?thesis by simp
qed

lemma utf8_valid_escape_bytes: "utf8_valid (concat (map escape_byte bs))"
  by (intro utf8_valid_ascii)
     (auto simp: escape_byte_def hex_digit_facts(4) [OF nibbles(1)] hex_digit_facts(4) [OF nibbles(2)])

lemma escape_utf8_valid: "utf8_valid (escape bs)"
proof (induction bs rule: char_induct)
  case (Char bs n)
  then show ?case
    by (subst escape_head) (simp add: utf8_valid_push_valid utf8_valid_append)
next
  case (Cut bs)
  then show ?case by (subst escape_head) (simp add: utf8_valid_escape_bytes)
next
  case (Bad bs n)
  then show ?case by (subst escape_head) (simp add: utf8_valid_escape_bytes utf8_valid_append)
qed simp

lemma escape_valid_text: "utf8_valid t \<Longrightarrow> escape t = push_valid t"
  by (simp add: escape.simps utf8_valid_def)

section \<open>Names\<close>

lemma components_one_segment:
  "SLASH \<notin> set b \<Longrightarrow>
     components b = (if b = [DOT] then [CurDir] else segment b)"
  by (cases b) (auto simp: components_def split_on_no_sep is_absolute_def)

text \<open>What decoding does to a byte no escape can stand for.\<close>

lemma hex_value_not_low:
  assumes "hex_value c = Some v" shows "c \<noteq> SLASH" "c \<noteq> NUL" "c \<noteq> MARKER"
  using assms by (auto simp: hex_value_def Let_def)

lemma hex_value_bound: "hex_value c = Some v \<Longrightarrow> v < 16"
  by (auto simp: hex_value_def Let_def split: if_splits)

lemma char_of_high:
  assumes "LOWEST_ESCAPABLE_BYTE \<le> n" "n < 256"
  shows "char_of n \<noteq> SLASH" "char_of n \<noteq> NUL"
proof -
  have n: "byte_val (char_of n) = n" using assms by simp
  have "byte_val SLASH = 47" "byte_val NUL = 0" by simp_all
  with n assms show "char_of n \<noteq> SLASH" "char_of n \<noteq> NUL"
    by (metis LOWEST_ESCAPABLE_BYTE_def less_numeral_simps(3) linorder_not_less numeral_less_iff
        semiring_norm(76,78,81) zero_less_numeral)+
qed

lemma unescape_count:
  assumes "c = SLASH \<or> c = NUL"
  shows "unescape s = Ok b \<Longrightarrow> count_list b c = count_list s c"
proof (induction s arbitrary: b rule: unescape.induct)
  case (2 x xs)
  consider (plain) "x \<noteq> MARKER"
    | (double) ys where "x = MARKER" "xs = MARKER # ys"
    | (hex) h l ys u v where "x = MARKER" "xs = h # l # ys" "h \<noteq> MARKER"
        "hex_value h = Some u" "hex_value l = Some v" "LOWEST_ESCAPABLE_BYTE \<le> 16 * u + v"
    using "2.prems" by (auto simp: Let_def split: list.splits option.splits if_splits)
  then show ?case
  proof cases
    case plain
    with 2 show ?thesis by auto
  next
    case double
    with 2 assms show ?thesis by auto
  next
    case hex
    have "16 * u + v < 256" using hex_value_bound [OF hex(4)] hex_value_bound [OF hex(5)] by linarith
    note low = char_of_high [OF hex(6) this]
      hex_value_not_low [OF hex(4)] hex_value_not_low [OF hex(5)]
    from hex "2.prems" obtain b' where b': "unescape ys = Ok b'" "b = char_of (16 * u + v) # b'"
      by (auto simp: Let_def split: if_splits)
    from hex have "count_list b' c = count_list ys c"
      using "2.IH"(3) [OF _ hex(2) _ refl hex(4,5) refl] b'(1) by auto
    with b' hex(1,2) low assms show ?thesis by auto
  qed
qed simp

section \<open>Properties\<close>

text \<open>
  C10. Every byte string survives the escape: decoding the escape of any bytes gives back exactly
  those bytes, the escaped form is valid UTF-8 (so a \<open>String\<close> and a protobuf \<open>string\<close> can hold
  it), and \<open>from_escaped\<close> accepts it off the wire as the same path string.
\<close>

theorem escape_round_trip:
  "to_bytes (ps_escape bs) = Ok bs
   \<and> utf8_valid (as_str (ps_escape bs))
   \<and> from_escaped (into_string (ps_escape bs)) = Ok (ps_escape bs)"
  using ps.dec_enc
  by (auto simp: ps_escape_def escape_utf8_valid from_escaped_def into_string_def unescape_escape)

text \<open>
  Escaping composes with joining: for a name that is not absolute, joining the escapes of a
  directory and of the name, without decoding either, is the escape of \<open>Path::join\<close> of the two;
  and the escape holds a separator exactly where the bytes do.
\<close>

theorem join_of_escapes:
  assumes "\<not> is_absolute name"
  shows "ps_join (from_path dir) (from_path name) = from_path (path_join dir name)
    \<and> (SLASH \<in> set (as_str (from_path name)) \<longleftrightarrow> SLASH \<in> set name)"
proof -
  have "ps_join (from_path dir) (from_path name) = from_path (path_join dir name)"
  proof (cases "ends_with_char dir SLASH")
    case True
    then obtain a where a: "dir = a @ [SLASH]"
      by (metis append_butlast_last_id ends_with_char_def)
    then have "escape (dir @ name) = escape dir @ escape name"
      by (simp add: escape_slash)
    with True assms a ends_with_slash_iff [of dir] show ?thesis
      by (simp add: ps_join_def from_path_def from_os_str_def ps_escape_def path_join_relative)
  next
    case False
    with assms ends_with_slash_iff [of dir] show ?thesis
      by (auto simp: ps_join_def from_path_def from_os_str_def ps_escape_def path_join_relative
          escape_slash ends_with_char_def)
  qed
  then show ?thesis
    by (simp add: from_path_def from_os_str_def ps_escape_def escape_slash_iff)
qed

theorem join_of_escapes_witness:
  "\<not> is_absolute ''100%.txt''
   \<and> ps_join (from_path ''/srv'') (from_path ''100%.txt'') = from_path ''/srv/100%.txt''"
proof -
  have n: "\<not> is_absolute ''100%.txt''" by simp
  have "path_join ''/srv'' ''100%.txt'' = ''/srv/100%.txt''" by (simp add: path_join_def)
  with join_of_escapes [OF n, of "''/srv''"] n show ?thesis by simp
qed

text \<open>
  C11. Decoding an escaped string off the wire never introduces a separator or a NUL: whatever a
  peer sends, the decoded bytes hold exactly as many \<open>/\<close> and NUL bytes as the escaped text
  does.
\<close>

theorem decoding_smuggles_no_separator:
  assumes "from_escaped s = Ok p" and "to_path_buf p = Ok path"
  shows "count_list path SLASH = count_list s SLASH \<and> count_list path NUL = count_list s NUL"
  using assms unescape_count
  by (auto simp: from_escaped_def bind_result_Inr to_path_buf_def to_bytes_def)

theorem decoding_smuggles_no_separator_witness:
  "count_list (''/srv/caf'' @ [CHR 0x80]) SLASH = count_list ''/srv/caf%80'' SLASH"
proof -
  have u: "unescape ''/srv/caf%80'' = Ok (''/srv/caf'' @ [CHR 0x80])"
    by (simp add: hex_value_def LOWEST_ESCAPABLE_BYTE_def Let_def char_of_def bit_0)
  have "from_escaped ''/srv/caf%80'' = Ok (PathString ''/srv/caf%80'')"
    using u by (simp add: from_escaped_def)
  moreover have "to_path_buf (PathString ''/srv/caf%80'') = Ok (''/srv/caf'' @ [CHR 0x80])"
    using u by (simp add: to_path_buf_def to_bytes_def)
  ultimately show ?thesis using decoding_smuggles_no_separator by blast
qed

text \<open>
  A person's text is shown as it was typed: what a valid UTF-8 literal displays as is the
  literal itself, percent signs included.
\<close>

theorem display_of_literal:
  assumes "utf8_valid lit"
  shows "ps_display (from_literal lit) = lit"
proof (cases "MARKER \<in> set lit")
  case True
  with assms show ?thesis
    by (simp add: ps_display_def from_literal_def escape_valid_text to_bytes_def
        from_utf8_lossy_valid unescape_push_valid [of lit "[]", simplified])
next
  case False
  with assms show ?thesis
    by (simp add: ps_display_def from_literal_def escape_valid_text)
       (simp add: push_valid_def split_on_no_sep)
qed

theorem display_of_literal_witness:
  "utf8_valid ''100%.txt'' \<and> ps_display (from_literal ''100%.txt'') = ''100%.txt''"
proof -
  have "utf8_valid ''100%.txt''" by (rule utf8_valid_ascii) simp
  then show ?thesis using display_of_literal by blast
qed

text \<open>
  Among the escapes of bytes without a separator, \<open>is_name\<close> accepts exactly the file names:
  everything but the empty string, \<open>.\<close> and \<open>..\<close>.
\<close>

theorem is_name_of_segment:
  assumes "SLASH \<notin> set b"
  shows "is_name (ps_escape b) \<longleftrightarrow> b \<noteq> [] \<and> b \<noteq> [DOT] \<and> b \<noteq> [DOT, DOT]"
  using assms
  by (simp add: is_name_def to_path_buf_def ps.dec_enc components_one_segment segment_def)

theorem is_name_of_segment_witness:
  "is_name (ps_escape ''a.txt'') \<and> \<not> is_name (ps_escape ''..'')"
  using is_name_of_segment [of "''a.txt''"] is_name_of_segment [of "''..''"] by simp

text \<open>
  Where \<open>is_name\<close> is wider than it says: a name with a trailing slash is one normal component
  to \<open>Path::components\<close>, so it is accepted although it holds a separator.
\<close>

theorem is_name_accepts_trailing_slash:
  "is_name (ps_escape ''notes/'') \<and> SLASH \<in> set (as_str (ps_escape ''notes/''))"
  by (simp add: is_name_def to_path_buf_def ps.dec_enc components_def segment_def)
     (simp add: ps_escape_def escape_slash_iff)

text \<open>
  The escaped form off the wire is not canonical: \<open>from_escaped\<close> accepts \<open>%C3%A9\<close>, which
  decodes to the two bytes of a letter that \<open>escape\<close> writes verbatim, so one file has two
  accepted spellings that compare as different paths.
\<close>

theorem two_spellings_of_one_name:
  "\<exists>p q b. from_escaped ''%C3%A9'' = Ok p \<and> q = ps_escape b
     \<and> to_bytes p = Ok b \<and> to_bytes q = Ok b \<and> p \<noteq> q"
proof -
  let ?b = "[CHR 0xC3, CHR 0xA9]"
  have u: "unescape ''%C3%A9'' = Ok ?b"
    by (simp add: hex_value_def LOWEST_ESCAPABLE_BYTE_def Let_def char_of_def bit_0)
  have "utf8_head ?b = Utf8_Char 2"
    by (simp add: utf8_width_def second_ok_def is_cont_def)
  then have "escape ?b = ?b"
    by (subst escape_head) (simp add: push_valid_map double_marker_def)
  then have "ps_escape ?b \<noteq> PathString ''%C3%A9''" by (simp add: ps_escape_def)
  with u show ?thesis
    by (intro exI [of _ "PathString ''%C3%A9''"] exI [of _ "ps_escape ?b"] exI [of _ ?b])
       (auto simp: from_escaped_def to_bytes_def ps.dec_enc [unfolded to_bytes_def])
qed

end
