(* ===== verification/FsError.thy ===== *)
theory FsError
  imports StdIo PathString
begin

text \<open>
  \<open>src/fs/error.rs\<close> and \<open>src/fs/absolute.rs\<close>: the one error a filesystem operation returns,
  how an operating-system error becomes one, and the point where a path leaves its escaped form.
\<close>

section \<open>Errors\<close>

datatype fs_error_kind =
    Fs_InvalidArgument | Fs_AlreadyExists | Fs_NotFound | Fs_PermissionDenied
  | Fs_NotDirectory | Fs_NotFile | Fs_Internal

record fs_error =
  fe_kind :: fs_error_kind
  fe_message :: bytes

definition fs_error_new :: "fs_error_kind \<Rightarrow> bytes \<Rightarrow> fs_error" where
  "fs_error_new kind message = \<lparr>fe_kind = kind, fe_message = message\<rparr>"

definition fs_kind_of :: "io_error \<Rightarrow> fs_error_kind" where
  "fs_kind_of error =
     (case io_kind error of
        Io_AlreadyExists \<Rightarrow> Fs_AlreadyExists
      | Io_NotFound \<Rightarrow> Fs_NotFound
      | Io_PermissionDenied \<Rightarrow> Fs_PermissionDenied
      | Io_NotADirectory \<Rightarrow> Fs_NotDirectory
      | Io_IsADirectory \<Rightarrow> Fs_NotFile
      | _ \<Rightarrow> Fs_Internal)"

definition from_io :: "io_error \<Rightarrow> fs_error" where
  "from_io error = fs_error_new (fs_kind_of error) (io_text error)"

definition fs_error_at :: "bytes \<Rightarrow> bytes \<Rightarrow> io_error \<Rightarrow> fs_error" where
  "fs_error_at action path error =
     fs_error_new (fs_kind_of error)
       (action @ '' `'' @ path_display path @ ''`: '' @ io_text error)"

definition escape_error_text :: "escape_error \<Rightarrow> bytes" where
  "escape_error_text e =
     (case e of
        Truncated \<Rightarrow> ''escape sequence is truncated''
      | NotUppercaseHex \<Rightarrow> ''escape sequence has a digit that is not uppercase hexadecimal''
      | NotEscapable b \<Rightarrow>
          ''`%'' @ show_hex2 b @ ''` is not an escapable byte: only bytes from 0x''
          @ show_hex2 LOWEST_ESCAPABLE_BYTE @ '' are escaped'')"

definition from_escape_error :: "escape_error \<Rightarrow> fs_error" where
  "from_escape_error error =
     fs_error_new Fs_InvalidArgument (''path is not correctly escaped: '' @ escape_error_text error)"

lemma fs_error_simps [simp]:
  "fe_kind (fs_error_new k m) = k" "fe_message (fs_error_new k m) = m"
  "fe_kind (from_io e) = fs_kind_of e" "fe_kind (fs_error_at a p e) = fs_kind_of e"
  "fe_kind (from_escape_error x) = Fs_InvalidArgument"
  by (simp_all add: fs_error_new_def from_io_def fs_error_at_def from_escape_error_def)

section \<open>Absolute paths\<close>

definition absolute :: "path_string \<Rightarrow> (fs_error, bytes) result" where
  "absolute path =
     bind_result (map_err from_escape_error (to_path_buf path)) (\<lambda>real.
       if is_absolute real then Ok real
       else Err (fs_error_new Fs_InvalidArgument
                  (''`'' @ ps_display path @ ''` is relative; a path must start with `/`'')))"

lemma absolute_Ok: "absolute p = Ok real \<longleftrightarrow> to_path_buf p = Ok real \<and> is_absolute real"
  by (cases "to_path_buf p") (auto simp: absolute_def)

lemma absolute_Err: "absolute p = Err e \<Longrightarrow> fe_kind e = Fs_InvalidArgument"
  by (cases "to_path_buf p") (auto simp: absolute_def split: if_splits)

text \<open>
  A path is opened exactly as given or refused: the operations' \<open>absolute\<close> returns the very
  bytes the path string was built from when they begin with a slash, with nothing in them
  interpreted, and is an \<open>InvalidArgument\<close> for every other path.
\<close>

theorem absolute_takes_paths_exactly:
  "(absolute (from_path bs) = Ok bs \<longleftrightarrow> is_absolute bs)
   \<and> (\<not> is_absolute bs \<longleftrightarrow> (\<exists>e. absolute (from_path bs) = Err e \<and> fe_kind e = Fs_InvalidArgument))"
  by (auto simp: absolute_def from_path_def from_os_str_def to_path_buf_def ps.dec_enc)

end
