(* ===== verification/FsEntry.thy ===== *)
theory FsEntry
  imports FsError
begin

text \<open>
  \<open>src/fs/entry.rs\<close>, \<open>src/fs/list.rs\<close> and \<open>src/fs/read.rs\<close>: describing one directory entry,
  and the two streams that read a directory and a file. What the kernel answers is an input: a
  \<open>dir_entry\<close> carries the results of the calls the code may make on it, and a directory stream
  is the list of what \<open>next_entry\<close> returns.
\<close>

section \<open>What the kernel says about an entry\<close>

datatype file_type = FT_dir | FT_file | FT_symlink | FT_other

record metadata =
  md_type :: file_type
  md_len :: nat
  md_modified :: "(io_error, instant) result"
  md_mode :: nat

record dir_entry =
  de_path :: bytes
  de_file_name :: bytes
  de_symlink_metadata :: "(io_error, metadata) result"
  de_file_type :: "(io_error, file_type) result"
  de_metadata :: "(io_error, metadata) result"
  de_read_link :: "(io_error, bytes) result"

type_synonym dir_stream = "(io_error, dir_entry) result list"

section \<open>Describing it\<close>

datatype entry_kind = File | Directory | Symlink | Other

record entry_metadata =
  em_size :: nat
  em_modified :: "instant option"
  em_mode :: nat
  em_symlink_target :: "path_string option"

record directory_entry =
  en_name :: path_string
  en_kind :: entry_kind
  en_navigable :: bool
  en_metadata :: "entry_metadata option"
  en_defect :: "bytes option"

record inspected =
  in_path :: bytes
  in_entry :: directory_entry
  in_descend :: bool

definition is_degraded :: "directory_entry \<Rightarrow> bool" where
  "is_degraded e \<longleftrightarrow> en_metadata e = None"

definition kind_of_type :: "file_type \<Rightarrow> entry_kind" where
  "kind_of_type t =
     (if t = FT_dir then Directory
      else if t = FT_file then File
      else if t = FT_symlink then Symlink
      else Other)"

definition ok_option :: "('e, 'a) result \<Rightarrow> 'a option" where
  "ok_option r = (case r of Inl _ \<Rightarrow> None | Inr a \<Rightarrow> Some a)"

definition inspect :: "dir_entry \<Rightarrow> inspected" where
  "inspect entry =
     (let path = de_path entry; name = from_os_str (de_file_name entry) in
      case de_symlink_metadata entry of
        Inl error \<Rightarrow>
          (let kind = (case de_file_type entry of Inl _ \<Rightarrow> Other | Inr t \<Rightarrow> kind_of_type t) in
           \<lparr>in_path = path,
            in_entry = \<lparr>en_name = name, en_kind = kind, en_navigable = False,
                        en_metadata = None, en_defect = Some (fe_message (from_io error))\<rparr>,
            in_descend = False\<rparr>)
      | Inr metadata \<Rightarrow>
          (let kind = kind_of_type (md_type metadata);
               navigable = (case kind of
                   Directory \<Rightarrow> True
                 | Symlink \<Rightarrow> (case de_metadata entry of
                                 Inl _ \<Rightarrow> False
                               | Inr target \<Rightarrow> md_type target = FT_dir)
                 | File \<Rightarrow> False
                 | Other \<Rightarrow> False);
               symlink_target = (if kind = Symlink
                   then map_option from_path (ok_option (de_read_link entry)) else None)
           in
           \<lparr>in_path = path,
            in_entry = \<lparr>en_name = name, en_kind = kind, en_navigable = navigable,
                        en_metadata = Some \<lparr>em_size = md_len metadata,
                                            em_modified = ok_option (md_modified metadata),
                                            em_mode = md_mode metadata,
                                            em_symlink_target = symlink_target\<rparr>,
                        en_defect = None\<rparr>,
            in_descend = (md_type metadata = FT_dir)\<rparr>))"

lemmas inspect_defs = inspect_def kind_of_type_def ok_option_def Let_def

section \<open>Streams\<close>

text \<open>
  \<open>stream::unfold\<close>: a stream is a state and a step that gives the next item with the state
  after it, or ends. \<open>stream_take\<close> pulls at most \<open>n\<close> items.
\<close>

fun stream_take :: "nat \<Rightarrow> ('s \<Rightarrow> ('i \<times> 's) option) \<Rightarrow> 's \<Rightarrow> 'i list" where
  "stream_take 0 step s = []"
| "stream_take (Suc n) step s =
     (case step s of None \<Rightarrow> [] | Some (i, s') \<Rightarrow> i # stream_take n step s')"

text \<open>The stream of \<open>list_dir\<close>: ends after the last entry, or after an error of the iteration.\<close>

fun list_step ::
  "dir_stream option \<Rightarrow> ((fs_error, directory_entry) result \<times> dir_stream option) option" where
  "list_step None = None"
| "list_step (Some []) = None"
| "list_step (Some (Inr entry # rest)) = Some (Ok (in_entry (inspect entry)), Some rest)"
| "list_step (Some (Inl error # rest)) = Some (Err (from_io error), None)"

text \<open>\<open>list_dir\<close> opens the directory; \<open>read_dir\<close> is the kernel's answer to the open.\<close>

definition list_dir ::
  "(bytes \<Rightarrow> (io_error, dir_stream) result) \<Rightarrow> path_string \<Rightarrow> (fs_error, dir_stream option) result" where
  "list_dir read_dir path =
     bind_result (absolute path) (\<lambda>real.
     bind_result (map_err (fs_error_at ''cannot list'' real) (read_dir real)) (\<lambda>entries.
     Ok (Some entries)))"

text \<open>
  \<open>read_file\<close>: the file is opened, then inspected, and only a regular file is read. A file's
  chunks are what the reader yields, errors included.
\<close>

definition read_file ::
  "(bytes \<Rightarrow> (io_error, 'f) result) \<Rightarrow> ('f \<Rightarrow> (io_error, file_type) result)
   \<Rightarrow> ('f \<Rightarrow> (io_error, bytes) result list) \<Rightarrow> path_string
   \<Rightarrow> (fs_error, (fs_error, bytes) result list) result" where
  "read_file open_file file_metadata chunks path =
     bind_result (absolute path) (\<lambda>real.
     bind_result (map_err (fs_error_at ''cannot open'' real) (open_file real)) (\<lambda>f.
     bind_result (map_err (fs_error_at ''cannot inspect'' real) (file_metadata f)) (\<lambda>t.
     if t \<noteq> FT_file
     then Err (fs_error_new Fs_NotFile (''cannot read `'' @ path_display real @ ''`: not a regular file''))
     else Ok (map (map_err from_io) (chunks f)))))"

text \<open>The listing as one list: every entry, cut after the first error of the iteration.\<close>

fun listing :: "dir_stream \<Rightarrow> (fs_error, directory_entry) result list" where
  "listing [] = []"
| "listing (Inr entry # rest) = Ok (in_entry (inspect entry)) # listing rest"
| "listing (Inl error # rest) = [Err (from_io error)]"

lemma stream_take_end: "step s = None \<Longrightarrow> stream_take n step s = []"
  by (cases n) auto

lemma list_dir_streams:
  "length es < n \<Longrightarrow> stream_take n list_step (Some es) = listing es"
proof (induction es arbitrary: n)
  case Nil
  then show ?case by (simp add: stream_take_end)
next
  case (Cons x es)
  then obtain m where "n = Suc m" "length es < m" by (cases n) auto
  with Cons show ?case by (cases x) (auto simp: stream_take_end)
qed

lemma listing_all_ok:
  "\<forall>x \<in> set es. \<exists>e. x = Inr e \<Longrightarrow> listing es = map (\<lambda>x. map_result (in_entry \<circ> inspect) (map_err from_io x)) es"
  by (induction es) auto

text \<open>
  One entry that cannot be described hides none of its siblings: when the iteration of a
  directory itself does not fail, the listing has one item for every entry, in the kernel's
  order and none of them an error, each under the escape of the name the kernel gave, and an
  entry is marked defective exactly when its own stat failed.
\<close>

theorem listing_hides_no_sibling:
  assumes "\<forall>x \<in> set es. \<exists>e. x = Inr e"
  shows "stream_take (Suc (length es)) list_step (Some es)
           = map (\<lambda>x. Ok (in_entry (inspect (projr x)))) es
    \<and> en_name (in_entry (inspect e)) = from_os_str (de_file_name e)
    \<and> (is_degraded (in_entry (inspect e)) \<longleftrightarrow> (\<exists>err. de_symlink_metadata e = Inl err))
    \<and> (is_degraded (in_entry (inspect e)) \<longleftrightarrow> en_defect (in_entry (inspect e)) \<noteq> None)"
proof -
  have "listing es = map (\<lambda>x. Ok (in_entry (inspect (projr x)))) es"
    using assms by (induction es) auto
  then have "stream_take (Suc (length es)) list_step (Some es)
      = map (\<lambda>x. Ok (in_entry (inspect (projr x)))) es"
    using list_dir_streams [of es "Suc (length es)"] by simp
  then show ?thesis
    by (auto simp: inspect_defs is_degraded_def split: sum.splits)
qed

theorem listing_hides_no_sibling_witness:
  "\<exists>d. de_symlink_metadata d = Inl (io_error_new Io_PermissionDenied ''denied'')
     \<and> is_degraded (in_entry (inspect d))
     \<and> stream_take 3 list_step (Some [Inr d, Inr d])
        = [Ok (in_entry (inspect d)), Ok (in_entry (inspect d))]"
proof -
  let ?e = "io_error_new Io_PermissionDenied ''denied''"
  let ?d = "\<lparr>de_path = ''/x/a'', de_file_name = ''a'', de_symlink_metadata = Inl ?e,
             de_file_type = Inr FT_file, de_metadata = Inl ?e, de_read_link = Inl ?e\<rparr>"
  have "\<forall>x \<in> set [Inr ?d, Inr ?d :: (io_error, dir_entry) result]. \<exists>e. x = Inr e" by simp
  from listing_hides_no_sibling [OF this, of ?d]
  show ?thesis by (intro exI [of _ ?d]) (simp add: numeral_3_eq_3)
qed

end
