(* ===== verification/FsWalk.thy ===== *)
theory FsWalk
  imports FsEntry
begin

text \<open>
  \<open>src/fs/walk.rs\<close>: everything below a directory, depth first, as a stream that keeps a stack
  of open directories. The reference is \<open>walks\<close>, the recursive pre-order traversal; the stream
  yields exactly its items, and the traversal exists for every tree of finite depth.
\<close>

section \<open>The walk\<close>

record walk_entry =
  we_relative_path :: path_string
  we_entry :: directory_entry
  we_depth :: nat

record frame =
  fr_entries :: dir_stream
  fr_relative_dir :: path_string
  fr_child_depth :: nat

text \<open>The stack's top is the head of the list.\<close>

record walk =
  wk_stack :: "frame list"
  wk_descend_into :: "(bytes \<times> path_string \<times> nat) option"

type_synonym read_dir = "bytes \<Rightarrow> (io_error, dir_stream) result"
type_synonym walk_item = "(fs_error, walk_entry) result"

definition walk_open :: "read_dir \<Rightarrow> bytes \<Rightarrow> (fs_error, dir_stream) result" where
  "walk_open read_dir path = map_err (fs_error_at ''cannot walk'' path) (read_dir path)"

definition walk_dir :: "read_dir \<Rightarrow> path_string \<Rightarrow> (fs_error, walk option) result" where
  "walk_dir read_dir path =
     bind_result (absolute path) (\<lambda>root.
     bind_result (walk_open read_dir root) (\<lambda>entries.
     Ok (Some \<lparr>wk_stack = [\<lparr>fr_entries = entries, fr_relative_dir = from_literal [],
                             fr_child_depth = 1\<rparr>],
               wk_descend_into = None\<rparr>)))"

text \<open>The loop of the step: pop exhausted directories, then read the next entry of the top one.\<close>

fun walk_loop :: "frame list \<Rightarrow> (walk_item \<times> walk option) option" where
  "walk_loop [] = None"
| "walk_loop (frame # below) =
     (case fr_entries frame of
        [] \<Rightarrow> walk_loop below
      | Inl error # _ \<Rightarrow> Some (Err (from_io error), None)
      | Inr entry # entries \<Rightarrow>
          (let inspected = inspect entry;
               relative_path = ps_join (fr_relative_dir frame) (en_name (in_entry inspected));
               depth = fr_child_depth frame;
               descend_into = (if in_descend inspected
                               then Some (in_path inspected, relative_path, depth + 1) else None)
           in Some (Ok \<lparr>we_relative_path = relative_path, we_entry = in_entry inspected,
                        we_depth = depth\<rparr>,
                    Some \<lparr>wk_stack = frame\<lparr>fr_entries := entries\<rparr> # below,
                          wk_descend_into = descend_into\<rparr>)))"

fun walk_step :: "read_dir \<Rightarrow> walk option \<Rightarrow> (walk_item \<times> walk option) option" where
  "walk_step read_dir None = None"
| "walk_step read_dir (Some walk) =
     (case wk_descend_into walk of
        Some (path, relative_dir, child_depth) \<Rightarrow>
          (case walk_open read_dir path of
             Inl error \<Rightarrow> Some (Err error, None)
           | Inr entries \<Rightarrow>
               walk_loop (\<lparr>fr_entries = entries, fr_relative_dir = relative_dir,
                           fr_child_depth = child_depth\<rparr> # wk_stack walk))
      | None \<Rightarrow> walk_loop (wk_stack walk))"

section \<open>The reference: a recursive traversal\<close>

definition item_of :: "path_string \<Rightarrow> nat \<Rightarrow> dir_entry \<Rightarrow> walk_entry" where
  "item_of relative_dir depth entry =
     \<lparr>we_relative_path = ps_join relative_dir (en_name (in_entry (inspect entry))),
      we_entry = in_entry (inspect entry), we_depth = depth\<rparr>"

text \<open>
  \<open>walks rd es rel d items ok\<close>: traversing the entries \<open>es\<close> of a directory, at depth \<open>d\<close> below
  the root and named \<open>rel\<close> from it, gives \<open>items\<close>; \<open>ok\<close> says that no error ended it.
\<close>

inductive walks ::
  "read_dir \<Rightarrow> dir_stream \<Rightarrow> path_string \<Rightarrow> nat \<Rightarrow> walk_item list \<Rightarrow> bool \<Rightarrow> bool"
  for rd :: read_dir where
  walks_end: "walks rd [] rel d [] True"
| walks_error: "walks rd (Inl e # es) rel d [Err (from_io e)] False"
| walks_leaf:
    "\<not> in_descend (inspect x) \<Longrightarrow> walks rd es rel d items ok \<Longrightarrow>
     walks rd (Inr x # es) rel d (Ok (item_of rel d x) # items) ok"
| walks_refused:
    "in_descend (inspect x) \<Longrightarrow> walk_open rd (in_path (inspect x)) = Inl e \<Longrightarrow>
     walks rd (Inr x # es) rel d [Ok (item_of rel d x), Err e] False"
| walks_cut:
    "in_descend (inspect x) \<Longrightarrow> walk_open rd (in_path (inspect x)) = Inr sub \<Longrightarrow>
     walks rd sub (we_relative_path (item_of rel d x)) (d + 1) below False \<Longrightarrow>
     walks rd (Inr x # es) rel d (Ok (item_of rel d x) # below) False"
| walks_dir:
    "in_descend (inspect x) \<Longrightarrow> walk_open rd (in_path (inspect x)) = Inr sub \<Longrightarrow>
     walks rd sub (we_relative_path (item_of rel d x)) (d + 1) below True \<Longrightarrow>
     walks rd es rel d items ok \<Longrightarrow>
     walks rd (Inr x # es) rel d (Ok (item_of rel d x) # below @ items) ok"

section \<open>The stream yields the traversal\<close>

definition walking :: "dir_stream \<Rightarrow> path_string \<Rightarrow> nat \<Rightarrow> frame list \<Rightarrow> walk option" where
  "walking es rel d below =
     Some \<lparr>wk_stack = \<lparr>fr_entries = es, fr_relative_dir = rel, fr_child_depth = d\<rparr> # below,
           wk_descend_into = None\<rparr>"

definition resuming :: "frame list \<Rightarrow> walk option" where
  "resuming below = Some \<lparr>wk_stack = below, wk_descend_into = None\<rparr>"

definition pending :: "bytes \<Rightarrow> path_string \<Rightarrow> nat \<Rightarrow> frame list \<Rightarrow> walk option" where
  "pending path rel d below =
     Some \<lparr>wk_stack = below, wk_descend_into = Some (path, rel, d)\<rparr>"

lemma stream_take_cong: "step s = step s' \<Longrightarrow> stream_take n step s = stream_take n step s'"
  by (cases n) auto

lemma walk_step_exhausted: "walk_step rd (walking [] rel d below) = walk_step rd (resuming below)"
  by (simp add: walking_def resuming_def)

lemma take_exhausted:
  "stream_take n (walk_step rd) (walking [] rel d below) = stream_take n (walk_step rd) (resuming below)"
  by (rule stream_take_cong) (rule walk_step_exhausted)

lemma walk_step_error:
  "walk_step rd (walking (Inl e # es) rel d below) = Some (Err (from_io e), None)"
  by (simp add: walking_def)

lemma walk_step_entry:
  "walk_step rd (walking (Inr x # es) rel d below) =
     Some (Ok (item_of rel d x),
       if in_descend (inspect x)
       then pending (in_path (inspect x)) (we_relative_path (item_of rel d x)) (d + 1)
              (\<lparr>fr_entries = es, fr_relative_dir = rel, fr_child_depth = d\<rparr> # below)
       else walking es rel d below)"
  by (simp add: walking_def pending_def item_of_def Let_def)

lemma walk_step_pending:
  "walk_open rd path = Inr sub \<Longrightarrow>
     walk_step rd (pending path rel d below) = walk_step rd (walking sub rel d below)"
  "walk_open rd path = Inl e \<Longrightarrow>
     walk_step rd (pending path rel d below) = Some (Err e, None)"
  by (simp_all add: walking_def pending_def)

lemma take_pending:
  "walk_open rd path = Inr sub \<Longrightarrow>
     stream_take n (walk_step rd) (pending path rel d below) =
     stream_take n (walk_step rd) (walking sub rel d below)"
  by (rule stream_take_cong) (rule walk_step_pending(1))

lemma resuming_frame: "resuming (\<lparr>fr_entries = es, fr_relative_dir = rel, fr_child_depth = d\<rparr> # below)
    = walking es rel d below"
  by (simp add: resuming_def walking_def)

lemmas walk_steps = walk_step_error walk_step_entry

lemma walks_stream:
  "walks rd es rel d items ok \<Longrightarrow>
     stream_take (length items + n) (walk_step rd) (walking es rel d below) =
     items @ (if ok then stream_take n (walk_step rd) (resuming below) else [])"
proof (induction arbitrary: n below rule: walks.induct)
  case (walks_end rel d)
  show ?case by (simp add: take_exhausted)
next
  case (walks_error e es rel d)
  show ?case by (simp add: walk_steps stream_take_end)
next
  case (walks_leaf x es rel d items ok)
  then show ?case by (simp add: walk_steps)
next
  case (walks_refused x e es rel d)
  then show ?case by (simp add: walk_steps walk_step_pending stream_take_end)
next
  case (walks_cut x sub rel d below' es)
  then show ?case by (simp add: walk_steps take_pending)
next
  case (walks_dir x sub rel d below' es items ok)
  then show ?case by (simp add: walk_steps take_pending resuming_frame add.assoc)
qed

section \<open>The traversal exists\<close>

text \<open>
  \<open>finite_depth rank rd\<close>: going into a directory leads to one of smaller rank. A file tree has
  such a rank, its height, because the walk never follows a link.
\<close>

definition finite_depth :: "(bytes \<Rightarrow> nat) \<Rightarrow> read_dir \<Rightarrow> bool" where
  "finite_depth rank rd \<longleftrightarrow>
     (\<forall>p sub x. rd p = Inr sub \<and> Inr x \<in> set sub \<and> in_descend (inspect x) \<longrightarrow>
        rank (in_path (inspect x)) < rank p)"

lemma walks_exists:
  assumes fd: "finite_depth rank rd"
    and "\<forall>x. Inr x \<in> set es \<and> in_descend (inspect x) \<longrightarrow> rank (in_path (inspect x)) < r"
  shows "\<exists>items ok. walks rd es rel d items ok"
  using assms(2)
proof (induction r arbitrary: es rel d rule: less_induct)
  case (less r)
  from less.prems show ?case
  proof (induction es)
    case Nil
    then show ?case by (blast intro: walks_end)
  next
    case (Cons y es)
    then obtain items ok where rest: "walks rd es rel d items ok" by auto
    show ?case
    proof (cases y)
      case (Inl e)
      then show ?thesis by (blast intro: walks_error)
    next
      case (Inr x)
      show ?thesis
      proof (cases "in_descend (inspect x)")
        case False
        with Inr rest show ?thesis by (blast intro: walks_leaf)
      next
        case True
        let ?p = "in_path (inspect x)"
        show ?thesis
        proof (cases "walk_open rd ?p")
          case (Inl e)
          with True \<open>y = Inr x\<close> show ?thesis by (blast intro: walks_refused)
        next
          case (Inr sub)
          then have "rd ?p = Inr sub" by (cases "rd ?p") (auto simp: walk_open_def)
          with fd have "\<forall>z. Inr z \<in> set sub \<and> in_descend (inspect z) \<longrightarrow>
              rank (in_path (inspect z)) < rank ?p"
            unfolding finite_depth_def by blast
          moreover have "rank ?p < r" using Cons.prems True \<open>y = Inr x\<close> by simp
          ultimately obtain b k where
            "walks rd sub (we_relative_path (item_of rel d x)) (d + 1) b k"
            using less.IH by blast
          then show ?thesis
            unfolding \<open>y = Inr x\<close>
            using walks_dir [OF True Inr _ rest, of b] walks_cut [OF True Inr, of rel d b es]
            by (cases k) auto
        qed
      qed
    qed
  qed
qed

lemma descend_only_directories:
  "in_descend (inspect x) \<Longrightarrow> en_kind (in_entry (inspect x)) = Directory"
  by (auto simp: inspect_defs split: sum.splits if_splits)

lemma walk_dir_Inr:
  assumes "walk_dir rd path = Ok w"
  shows "\<exists>root es. absolute path = Ok root \<and> rd root = Inr es
      \<and> w = walking es (from_literal []) 1 []"
proof -
  from assms obtain root es where "absolute path = Ok root" "walk_open rd root = Ok es"
    and "w = walking es (from_literal []) 1 []"
    by (auto simp: walk_dir_def bind_result_Inr walking_def)
  then show ?thesis by (cases "rd root") (auto simp: walk_open_def)
qed

text \<open>
  C12. Walking a directory yields exactly the recursive pre-order traversal of what is below it:
  for a tree of finite depth the stream ends, and however much is pulled its items are those of
  the traversal, each directory followed by what is below it and the first failure last.
\<close>

theorem walk_is_preorder:
  assumes "walk_dir rd path = Ok w" and "finite_depth rank rd"
  shows "\<exists>root es items ok. absolute path = Ok root \<and> rd root = Inr es
      \<and> walks rd es (from_literal []) 1 items ok
      \<and> (\<forall>n. stream_take (length items + n) (walk_step rd) w = items)"
proof -
  from walk_dir_Inr [OF assms(1)] obtain root es where r: "absolute path = Ok root" "rd root = Inr es"
    and w: "w = walking es (from_literal []) 1 []" by blast
  from assms(2) r(2) have "\<forall>x. Inr x \<in> set es \<and> in_descend (inspect x) \<longrightarrow>
      rank (in_path (inspect x)) < rank root"
    unfolding finite_depth_def by blast
  from walks_exists [OF assms(2) this] obtain items ok
    where it: "walks rd es (from_literal []) 1 items ok" by blast
  have "stream_take (length items + n) (walk_step rd) w = items" for n
    unfolding w walks_stream [OF it] by (simp add: resuming_def stream_take_end)
  with r it show ?thesis by blast
qed

text \<open>A directory holding one subdirectory, which cannot be opened.\<close>

definition example_dir :: dir_entry where
  "example_dir =
     \<lparr>de_path = ''/r/a'', de_file_name = ''a'',
      de_symlink_metadata = Inr \<lparr>md_type = FT_dir, md_len = 0,
        md_modified = Inl (io_error_new Io_Other []), md_mode = 0\<rparr>,
      de_file_type = Inr FT_dir, de_metadata = Inl (io_error_new Io_Other []),
      de_read_link = Inl (io_error_new Io_Other [])\<rparr>"

definition example_read_dir :: read_dir where
  "example_read_dir p =
     (if p = ''/r'' then Inr [Inr example_dir] else Inl (io_error_new Io_PermissionDenied ''denied''))"

lemma example_depth: "finite_depth (\<lambda>p. if p = ''/r'' then 1 else 0) example_read_dir"
  by (auto simp: finite_depth_def example_read_dir_def example_dir_def inspect_defs split: if_splits)

lemma example_root:
  "absolute (from_path ''/r'') = Ok ''/r''"
  "walk_dir example_read_dir (from_path ''/r'') = Ok (walking [Inr example_dir] (from_literal []) 1 [])"
  by (simp_all add: walk_dir_def absolute_Ok from_path_def from_os_str_def to_path_buf_def
      ps.dec_enc walk_open_def example_read_dir_def walking_def absolute_def)

theorem walk_is_preorder_witness:
  "\<exists>items ok. walks example_read_dir [Inr example_dir] (from_literal []) 1 items ok
      \<and> (\<forall>n. stream_take (length items + n) (walk_step example_read_dir)
           (walking [Inr example_dir] (from_literal []) 1 []) = items)"
  using walk_is_preorder [OF example_root(2) example_depth]
  unfolding example_root(1) by (auto simp only: example_read_dir_def sum.inject simp_thms if_True) blast

end
