(* ===== verification/FsWrite.thy ===== *)
theory FsWrite
  imports FsEntry
begin

text \<open>
  \<open>src/fs/write.rs\<close>: writing a new file, published whole or not at all. The world is one host's
  names and inodes together with a schedule: what happens at each of the write's awaits, in
  order - what other processes do to the names first, whether the kernel refuses the call, and
  whether the future is dropped there. A dropped call on tokio's blocking pool may still take
  effect, so a drop comes before the system call or after it.
\<close>

section \<open>The world\<close>

datatype node = Reg nat | Dir_node | Other_node

datatype edit = Put bytes node | Remove bytes

datatype drop_point = Keep | Drop_before | Drop_after

record await_event =
  ae_edits :: "edit list"
  ae_refusal :: "io_error option"
  ae_drop :: drop_point

record world =
  w_names :: "bytes \<Rightarrow> node option"
  w_inodes :: "nat \<Rightarrow> bytes"
  w_next_ino :: nat
  w_next_partial :: nat
  w_pid :: nat
  w_schedule :: "await_event list"

fun apply_edit :: "edit \<Rightarrow> (bytes \<Rightarrow> node option) \<Rightarrow> bytes \<Rightarrow> node option" where
  "apply_edit (Put p n) m = m(p := Some n)"
| "apply_edit (Remove p) m = m(p := None)"

fun edit_path :: "edit \<Rightarrow> bytes" where
  "edit_path (Put p n) = p"
| "edit_path (Remove p) = p"

definition apply_edits :: "edit list \<Rightarrow> (bytes \<Rightarrow> node option) \<Rightarrow> bytes \<Rightarrow> node option" where
  "apply_edits es m = fold apply_edit es m"

section \<open>Futures over it\<close>

text \<open>A future ends with a value, with an error, or is dropped at one of its awaits.\<close>

datatype 'a outcome = Val 'a | Fail fs_error | Dropped

type_synonym 'a future = "world \<Rightarrow> 'a outcome \<times> world"

definition fut_return :: "'a \<Rightarrow> 'a future" where
  "fut_return a w = (Val a, w)"

definition fut_fail :: "fs_error \<Rightarrow> 'a future" where
  "fut_fail e w = (Fail e, w)"

definition fut_bind :: "'a future \<Rightarrow> ('a \<Rightarrow> 'b future) \<Rightarrow> 'b future" where
  "fut_bind m f w =
     (case m w of
        (Val a, w') \<Rightarrow> f a w'
      | (Fail e, w') \<Rightarrow> (Fail e, w')
      | (Dropped, w') \<Rightarrow> (Dropped, w'))"

type_synonym 'a syscall = "world \<Rightarrow> (io_error, 'a) result \<times> world"

text \<open>
  One await of a system call: the schedule's next event decides. With the schedule used up,
  nothing interferes. The continuation receives the kernel's answer.
\<close>

definition await :: "'a syscall \<Rightarrow> (io_error, 'a) result future" where
  "await call w =
     (case w_schedule w of
        [] \<Rightarrow> (case call w of (r, w') \<Rightarrow> (Val r, w'))
      | ev # rest \<Rightarrow>
          (let w1 = w\<lparr>w_schedule := rest, w_names := apply_edits (ae_edits ev) (w_names w)\<rparr> in
           if ae_drop ev = Drop_before then (Dropped, w1)
           else (case (case ae_refusal ev of Some e \<Rightarrow> (Err e, w1) | None \<Rightarrow> call w1) of
                   (r, w2) \<Rightarrow> (if ae_drop ev = Drop_after then Dropped else Val r, w2))))"

definition try_io :: "(io_error \<Rightarrow> fs_error) \<Rightarrow> (io_error, 'a) result \<Rightarrow> 'a future" where
  "try_io f r = (case r of Inl e \<Rightarrow> fut_fail (f e) | Inr a \<Rightarrow> fut_return a)"

section \<open>The kernel's calls\<close>

definition enoent :: io_error where "enoent = io_error_new Io_NotFound ''not found''"
definition eexist :: io_error where "eexist = io_error_new Io_AlreadyExists ''file exists''"
definition eisdir :: io_error where "eisdir = io_error_new Io_IsADirectory ''is a directory''"

definition sys_lookup :: "bytes \<Rightarrow> node syscall" where
  "sys_lookup p w = (case w_names w p of None \<Rightarrow> (Err enoent, w) | Some n \<Rightarrow> (Ok n, w))"

definition sys_create_new :: "bytes \<Rightarrow> nat syscall" where
  "sys_create_new p w =
     (case w_names w p of
        Some n \<Rightarrow> (Err eexist, w)
      | None \<Rightarrow> (Ok (w_next_ino w),
                 w\<lparr>w_names := (w_names w)(p := Some (Reg (w_next_ino w))),
                   w_inodes := (w_inodes w)(w_next_ino w := []),
                   w_next_ino := w_next_ino w + 1\<rparr>))"

definition sys_write :: "nat \<Rightarrow> bytes \<Rightarrow> unit syscall" where
  "sys_write ino chunk w = (Ok (), w\<lparr>w_inodes := (w_inodes w)(ino := w_inodes w ino @ chunk)\<rparr>)"

definition sys_flush :: "nat \<Rightarrow> unit syscall" where
  "sys_flush ino w = (Ok (), w)"

definition sys_rename :: "bytes \<Rightarrow> bytes \<Rightarrow> unit syscall" where
  "sys_rename old new w =
     (case w_names w old of
        None \<Rightarrow> (Err enoent, w)
      | Some n \<Rightarrow>
          if w_names w new = Some Dir_node then (Err eisdir, w)
          else (Ok (), w\<lparr>w_names := (w_names w)(old := None, new := Some n)\<rparr>))"

definition sys_hard_link :: "bytes \<Rightarrow> bytes \<Rightarrow> unit syscall" where
  "sys_hard_link old new w =
     (case w_names w old of
        None \<Rightarrow> (Err enoent, w)
      | Some n \<Rightarrow>
          if w_names w new \<noteq> None then (Err eexist, w)
          else (Ok (), w\<lparr>w_names := (w_names w)(new := Some n)\<rparr>))"

definition sys_unlink :: "bytes \<Rightarrow> unit syscall" where
  "sys_unlink p w =
     (case w_names w p of
        None \<Rightarrow> (Err enoent, w)
      | Some Dir_node \<Rightarrow> (Err eisdir, w)
      | Some _ \<Rightarrow> (Ok (), w\<lparr>w_names := (w_names w)(p := None)\<rparr>))"

section \<open>Writing\<close>

datatype write_conflict = FailIfExists | Replace

record written =
  wr_path :: path_string
  wr_bytes :: nat

record partial =
  pa_path :: bytes
  pa_published :: bool

definition published :: "partial \<Rightarrow> partial" where
  "published self = self\<lparr>pa_published := True\<rparr>"

definition partial_drop :: "partial \<Rightarrow> world \<Rightarrow> world" where
  "partial_drop self w = (if pa_published self then w else snd (sys_unlink (pa_path self) w))"

definition already_exists :: "bytes \<Rightarrow> fs_error" where
  "already_exists path = fs_error_new Fs_AlreadyExists (''`'' @ path_display path @ ''` already exists'')"

definition partial_path :: "bytes \<Rightarrow> bytes \<Rightarrow> nat \<Rightarrow> nat \<Rightarrow> bytes" where
  "partial_path directory name pid i =
     path_join directory
       (''.'' @ name @ ''.fpk-'' @ show_nat pid @ ''-'' @ show_nat i @ ''.partial'')"

fun create_partial_loop :: "nat \<Rightarrow> bytes \<Rightarrow> bytes \<Rightarrow> (nat \<times> partial) future" where
  "create_partial_loop 0 directory name w =
     (Fail (fs_error_new Fs_Internal
        (''cannot find a free partial file name in `'' @ path_display directory @ ''`'')), w)"
| "create_partial_loop (Suc k) directory name w =
     (let i = w_next_partial w;
          path = partial_path directory name (w_pid w) i
      in fut_bind (await (sys_create_new path))
           (\<lambda>r. case r of
              Inr f \<Rightarrow> fut_return (f, \<lparr>pa_path = path, pa_published = False\<rparr>)
            | Inl error \<Rightarrow>
                if io_kind error = Io_AlreadyExists then create_partial_loop k directory name
                else fut_fail (fs_error_at ''cannot create'' path error))
           (w\<lparr>w_next_partial := i + 1\<rparr>))"

definition create_partial :: "bytes \<Rightarrow> bytes \<Rightarrow> (nat \<times> partial) future" where
  "create_partial directory name = create_partial_loop 128 directory name"

text \<open>A source's chunks in order: each is awaited, and one write follows it; so is its end.\<close>

fun copy_chunks ::
  "bytes \<Rightarrow> nat \<Rightarrow> (fs_error, bytes) result list \<Rightarrow> nat \<Rightarrow> nat future" where
  "copy_chunks path file [] n = fut_bind (await (\<lambda>w. (Ok (), w))) (\<lambda>_. fut_return n)"
| "copy_chunks path file (r # rs) n =
     fut_bind (await (\<lambda>w. (Ok (), w))) (\<lambda>_.
       (case r of
          Inl error \<Rightarrow> fut_fail error
        | Inr chunk \<Rightarrow>
            fut_bind (await (sys_write file chunk)) (\<lambda>a.
            fut_bind (try_io (fs_error_at ''cannot write'' path) a) (\<lambda>_.
            copy_chunks path file rs (n + length chunk)))))"

definition publish :: "write_conflict \<Rightarrow> partial \<Rightarrow> bytes \<Rightarrow> partial future" where
  "publish conflict part destination =
     (case conflict of
        Replace \<Rightarrow>
          fut_bind (await (sys_rename (pa_path part) destination)) (\<lambda>a.
          fut_bind (try_io (fs_error_at ''cannot publish'' destination) a) (\<lambda>_.
          fut_return (published part)))
      | FailIfExists \<Rightarrow>
          fut_bind (await (sys_hard_link (pa_path part) destination)) (\<lambda>a.
          fut_bind (try_io (\<lambda>error.
              if io_kind error = Io_AlreadyExists then already_exists destination
              else fs_error_at ''cannot publish'' destination error) a) (\<lambda>_.
          fut_return part)))"

text \<open>
  What runs while the partial file is owned. Its end, however it comes, drops the guard: the
  partial file is removed unless it was renamed into place. A rename that went through in a
  dropped future leaves nothing for the guard to remove.
\<close>

definition write_owned ::
  "write_conflict \<Rightarrow> bytes \<Rightarrow> (fs_error, bytes) result list \<Rightarrow> nat \<Rightarrow> partial \<Rightarrow> (partial \<times> nat) future" where
  "write_owned conflict destination source file part =
     fut_bind (copy_chunks (pa_path part) file source 0) (\<lambda>n.
     fut_bind (await (sys_flush file)) (\<lambda>a.
     fut_bind (try_io (fs_error_at ''cannot flush'' (pa_path part)) a) (\<lambda>_.
     fut_bind (publish conflict part destination) (\<lambda>part'.
     fut_return (part', n)))))"

definition with_partial :: "partial \<Rightarrow> (partial \<times> 'a) future \<Rightarrow> 'a future" where
  "with_partial part body w =
     (case body w of
        (Val (part', a), w') \<Rightarrow> (Val a, partial_drop part' w')
      | (Fail e, w') \<Rightarrow> (Fail e, partial_drop part w')
      | (Dropped, w') \<Rightarrow> (Dropped, partial_drop part w'))"

definition not_a_name :: "path_string \<Rightarrow> fs_error" where
  "not_a_name name = fs_error_new Fs_InvalidArgument
     (''`'' @ ps_display name @ ''` is not a file name: it must be one component, neither `.` nor `..`'')"

definition check_destination :: "write_conflict \<Rightarrow> bytes \<Rightarrow> bytes \<Rightarrow> unit future" where
  "check_destination conflict directory destination =
     fut_bind (await (sys_lookup directory)) (\<lambda>a.
     fut_bind (try_io (fs_error_at ''cannot inspect destination directory'' directory) a) (\<lambda>metadata.
     if metadata \<noteq> Dir_node
     then fut_fail (fs_error_new Fs_NotDirectory
            (''destination `'' @ path_display directory @ ''` is not a directory''))
     else if conflict = FailIfExists then
       fut_bind (await (sys_lookup destination)) (\<lambda>r. case r of
          Inr _ \<Rightarrow> fut_fail (already_exists destination)
        | Inl error \<Rightarrow>
            if io_kind error = Io_NotFound then fut_return ()
            else fut_fail (fs_error_at ''cannot inspect destination'' destination error))
     else fut_return ()))"

definition write_file ::
  "path_string \<Rightarrow> path_string \<Rightarrow> write_conflict \<Rightarrow> (fs_error, bytes) result list \<Rightarrow> written future" where
  "write_file directory name conflict source =
     (if \<not> is_name name then fut_fail (not_a_name name)
      else case absolute directory of
        Inl e \<Rightarrow> fut_fail e
      | Inr real_dir \<Rightarrow>
      (case map_err from_escape_error (to_path_buf name) of
        Inl e \<Rightarrow> fut_fail e
      | Inr real_name \<Rightarrow>
          (let destination = path_join real_dir real_name in
           fut_bind (check_destination conflict real_dir destination) (\<lambda>_.
           fut_bind (create_partial real_dir real_name) (\<lambda>(file, part).
           fut_bind (with_partial part (write_owned conflict destination source file part)) (\<lambda>n.
           fut_return \<lparr>wr_path = from_path destination, wr_bytes = n\<rparr>))))))"

section \<open>What the others do meanwhile\<close>

definition edits_of :: "await_event list \<Rightarrow> edit list" where
  "edits_of evs = concat (map ae_edits evs)"

text \<open>The world after others have acted at the next \<open>k\<close> awaits, and the write has not.\<close>

definition advance :: "nat \<Rightarrow> world \<Rightarrow> world" where
  "advance k w =
     w\<lparr>w_schedule := drop k (w_schedule w),
       w_names := apply_edits (edits_of (take k (w_schedule w))) (w_names w)\<rparr>"

lemma apply_edits_append: "apply_edits (xs @ ys) m = apply_edits ys (apply_edits xs m)"
  by (simp add: apply_edits_def)

lemma apply_edits_Nil [simp]: "apply_edits [] m = m"
  by (simp add: apply_edits_def)

lemma apply_edits_local: "m p = m' p \<Longrightarrow> apply_edits es m p = apply_edits es m' p"
proof (induction es arbitrary: m m')
  case (Cons e es)
  have "apply_edit e m p = apply_edit e m' p" using Cons.prems by (cases e) auto
  from Cons.IH [of "apply_edit e m" "apply_edit e m'", OF this] show ?case by (simp add: apply_edits_def)
qed simp

lemma apply_edits_untouched: "p \<notin> edit_path ` set es \<Longrightarrow> apply_edits es m p = m p"
proof (induction es arbitrary: m)
  case (Cons e es)
  then have "apply_edit e m p = m p" by (cases e) auto
  with Cons show ?case by (simp add: apply_edits_def)
qed simp

lemma advance_0 [simp]: "advance 0 w = w"
  by (simp add: advance_def edits_of_def)

lemma advance_advance [simp]: "advance j (advance k w) = advance (k + j) w"
  by (simp add: advance_def take_add [of k j] edits_of_def apply_edits_append add.commute [of j k])

lemma advance_fields [simp]:
  "w_inodes (advance k w) = w_inodes w" "w_next_ino (advance k w) = w_next_ino w"
  "w_next_partial (advance k w) = w_next_partial w" "w_pid (advance k w) = w_pid w"
  by (simp_all add: advance_def)

lemma advance_commutes:
  "advance k (w\<lparr>w_next_partial := i\<rparr>) = (advance k w)\<lparr>w_next_partial := i\<rparr>"
  "advance k (w\<lparr>w_inodes := c\<rparr>) = (advance k w)\<lparr>w_inodes := c\<rparr>"
  by (simp_all add: advance_def)

text \<open>An await, as one of three things: dropped before its call, refused, or gone through.\<close>

lemma await_cases:
  assumes "await call w = (out, w')"
  obtains (dropped) k where "out = Dropped" "w' = advance k w"
  | (refused) k e where "out = Dropped \<or> out = Val (Err e)" "w' = advance k w"
  | (called) k r where "out = Dropped \<or> out = Val r" "call (advance k w) = (r, w')"
proof (cases "w_schedule w")
  case Nil
  with assms have "out = Val (fst (call w))" "w' = snd (call w)"
    by (auto simp: await_def split: prod.splits)
  with called [of "fst (call w)" 0] show ?thesis by simp
next
  case (Cons ev rest)
  let ?w1 = "w\<lparr>w_schedule := rest, w_names := apply_edits (ae_edits ev) (w_names w)\<rparr>"
  have adv: "?w1 = advance 1 w" using Cons by (simp add: advance_def edits_of_def)
  have eq: "await call w = (if ae_drop ev = Drop_before then (Dropped, advance 1 w)
      else (case (case ae_refusal ev of Some e \<Rightarrow> (Err e, advance 1 w) | None \<Rightarrow> call (advance 1 w)) of
              (r, w2) \<Rightarrow> (if ae_drop ev = Drop_after then Dropped else Val r, w2)))"
    unfolding await_def Cons by (simp only: list.case Let_def adv)
  show ?thesis
  proof (cases "ae_drop ev = Drop_before")
    case True
    with eq assms dropped [of 1] show ?thesis by simp
  next
    case False
    show ?thesis
    proof (cases "ae_refusal ev")
      case None
      with eq assms False called [of "fst (call (advance 1 w))" 1] show ?thesis
        by (auto split: prod.splits if_splits)
    next
      case (Some e)
      with eq assms False refused [of e 1] show ?thesis by (auto split: if_splits)
    qed
  qed
qed

lemma fut_bind_cases:
  assumes "fut_bind m f w = (out, w')"
  obtains (went) a w1 where "m w = (Val a, w1)" "f a w1 = (out, w')"
  | (fail) e where "m w = (Fail e, w')" "out = Fail e"
  | (dropped) "m w = (Dropped, w')" "out = Dropped"
  using assms by (auto simp: fut_bind_def split: prod.splits outcome.splits)

lemma fut_bind_assoc: "fut_bind (fut_bind m f) g = fut_bind m (\<lambda>a. fut_bind (f a) g)"
  by (rule ext) (auto simp: fut_bind_def split: prod.splits outcome.splits)

lemma fut_simps [simp]:
  "fut_return a w = (out, w') \<longleftrightarrow> out = Val a \<and> w' = w"
  "fut_fail e w = (out, w') \<longleftrightarrow> out = Fail e \<and> w' = w"
  "try_io f (Inl io) = fut_fail (f io)"
  "try_io f (Inr b) = fut_return b"
  by (auto simp: fut_return_def fut_fail_def try_io_def)

section \<open>Each stage\<close>

text \<open>A future that only waits: nothing but the others' edits happens in it.\<close>

definition only_waits :: "'a future \<Rightarrow> bool" where
  "only_waits m \<longleftrightarrow> (\<forall>w out w'. m w = (out, w') \<longrightarrow> (\<exists>k. w' = advance k w))"

lemma only_waitsD: "only_waits m \<Longrightarrow> m w = (out, w') \<Longrightarrow> \<exists>k. w' = advance k w"
  unfolding only_waits_def by blast

lemma only_waits_return [intro]: "only_waits (fut_return a)"
  by (auto simp: only_waits_def intro: exI [of _ 0])

lemma only_waits_fail [intro]: "only_waits (fut_fail e)"
  by (auto simp: only_waits_def intro: exI [of _ 0])

lemma only_waits_try [intro]: "only_waits (try_io f r)"
  by (cases r) auto

lemma only_waits_bind [intro]:
  assumes "only_waits m" and "\<And>a. only_waits (f a)"
  shows "only_waits (fut_bind m f)"
  unfolding only_waits_def
proof (intro allI impI)
  fix w out w'
  assume "fut_bind m f w = (out, w')"
  then show "\<exists>k. w' = advance k w"
  proof (cases rule: fut_bind_cases)
    case (went a w1)
    with assms obtain j k where "w1 = advance j w" "w' = advance k w1"
      by (meson only_waitsD)
    then show ?thesis by auto
  qed (use assms(1) only_waitsD in blast)+
qed

lemma only_waits_await:
  assumes "\<And>w. snd (call w) = w"
  shows "only_waits (await call)"
  unfolding only_waits_def
proof (intro allI impI)
  fix w out w'
  assume "await call w = (out, w')"
  then show "\<exists>k. w' = advance k w"
  proof (cases rule: await_cases)
    case (called k r)
    with assms [of "advance k w"] show ?thesis by auto
  qed auto
qed

lemma only_waits_lookup [intro]: "only_waits (await (sys_lookup p))"
  by (rule only_waits_await) (simp add: sys_lookup_def split: option.splits)

lemma only_waits_nothing [intro]: "only_waits (await (\<lambda>w. (r, w)))"
  by (rule only_waits_await) simp

lemma only_waits_flush [intro]: "only_waits (await (sys_flush f))"
  by (rule only_waits_await) (simp add: sys_flush_def)

lemma check_destination_waits [intro]: "only_waits (check_destination conflict d dest)"
  unfolding check_destination_def
  by (intro only_waits_bind only_waits_lookup only_waits_try)
     (auto split: sum.splits intro!: only_waits_bind only_waits_lookup)

definition created :: "bytes \<Rightarrow> world \<Rightarrow> world" where
  "created path w =
     w\<lparr>w_names := (w_names w)(path := Some (Reg (w_next_ino w))),
       w_inodes := (w_inodes w)(w_next_ino w := []),
       w_next_ino := w_next_ino w + 1\<rparr>"

definition is_partial :: "bytes \<Rightarrow> bytes \<Rightarrow> nat \<Rightarrow> bytes \<Rightarrow> bool" where
  "is_partial d name pid p \<longleftrightarrow> (\<exists>i. p = partial_path d name pid i)"

lemma create_partial_effect:
  assumes "create_partial_loop n d name w = (out, w')"
  shows "\<exists>k i. (w' = (advance k w)\<lparr>w_next_partial := i\<rparr> \<and> (\<forall>a. out \<noteq> Val a))
     \<or> (\<exists>p. is_partial d name (w_pid w) p \<and> w_names (advance k w) p = None
          \<and> w' = created p ((advance k w)\<lparr>w_next_partial := i\<rparr>)
          \<and> (out = Dropped
              \<or> out = Val (w_next_ino w, \<lparr>pa_path = p, pa_published = False\<rparr>)))"
  using assms
proof (induction n arbitrary: w)
  case 0
  then have "w' = (advance 0 w)\<lparr>w_next_partial := w_next_partial w\<rparr>" "\<forall>a. out \<noteq> Val a"
    by auto
  then show ?case by blast
next
  case (Suc n)
  let ?p = "partial_path d name (w_pid w) (w_next_partial w)"
  let ?w = "w\<lparr>w_next_partial := w_next_partial w + 1\<rparr>"
  let ?k = "\<lambda>r. case r of
              Inr f \<Rightarrow> fut_return (f, \<lparr>pa_path = ?p, pa_published = False\<rparr>)
            | Inl error \<Rightarrow>
                if io_kind error = Io_AlreadyExists then create_partial_loop n d name
                else fut_fail (fs_error_at ''cannot create'' ?p error)"
  have P: "is_partial d name (w_pid w) ?p" by (auto simp: is_partial_def)
  have retry: ?case if "create_partial_loop n d name (advance k ?w) = (out, w')" for k
    using Suc.IH [OF that] by (auto simp: advance_commutes; blast)
  have quiet: ?case if "w' = advance k ?w" "\<forall>a. out \<noteq> Val a" for k
    using that by (auto simp: advance_commutes)
  have made: ?case if "w' = created ?p (advance k ?w)" "w_names (advance k w) ?p = None"
      "out = Dropped \<or> out = Val (w_next_ino w, \<lparr>pa_path = ?p, pa_published = False\<rparr>)" for k
    using that P unfolding advance_commutes by blast
  from Suc.prems have "fut_bind (await (sys_create_new ?p)) ?k ?w = (out, w')"
    by (simp add: Let_def)
  then show ?case
  proof (cases rule: fut_bind_cases)
    case (went r w1)
    from went(1) show ?thesis
    proof (cases rule: await_cases)
      case (refused k e)
      with went retry quiet show ?thesis by (auto split: if_splits)
    next
      case (called k r')
      show ?thesis
      proof (cases "w_names (advance k w) ?p")
        case None
        with went called show ?thesis
          by (intro made [of k]) (auto simp: sys_create_new_def advance_commutes created_def)
      next
        case (Some x)
        with went called retry quiet show ?thesis
          by (auto simp: sys_create_new_def advance_commutes eexist_def split: if_splits)
      qed
    qed simp
  next
    case (fail e)
    from fail(1) show ?thesis by (cases rule: await_cases) simp_all
  next
    case dropped
    from dropped(1) show ?thesis
    proof (cases rule: await_cases)
      case (called k r')
      show ?thesis
      proof (cases "w_names (advance k w) ?p")
        case None
        with dropped called show ?thesis
          by (intro made [of k]) (auto simp: sys_create_new_def advance_commutes created_def)
      next
        case (Some x)
        with dropped called quiet show ?thesis
          by (auto simp: sys_create_new_def advance_commutes)
      qed
    qed (use dropped quiet in auto)
  qed
qed

definition appended :: "nat \<Rightarrow> bytes \<Rightarrow> world \<Rightarrow> world" where
  "appended ino bs w = w\<lparr>w_inodes := (w_inodes w)(ino := w_inodes w ino @ bs)\<rparr>"

lemma appended_simps [simp]:
  "appended ino bs (appended ino as w) = appended ino (as @ bs) w"
  "appended ino [] w = w"
  "advance k (appended ino bs w) = appended ino bs (advance k w)"
  "w_names (appended ino bs w) = w_names w" "w_pid (appended ino bs w) = w_pid w"
  "w_inodes (appended ino bs w) ino = w_inodes w ino @ bs"
  by (simp_all add: appended_def advance_def)

lemma await_write:
  assumes "await (sys_write ino chunk) w = (out, w')"
  obtains (nothing) k where "w' = advance k w" "out = Dropped \<or> (\<exists>e. out = Val (Err e))"
  | (wrote) k where "w' = appended ino chunk (advance k w)"
      "out = Dropped \<or> out = Val (Ok ())"
  using assms by (cases rule: await_cases) (auto simp: sys_write_def appended_def)

lemma copy_chunks_effect:
  assumes "copy_chunks path ino source n w = (out, w')"
  shows "\<exists>k wrote. w' = appended ino (concat wrote) (advance k w)
     \<and> (\<forall>m. out = Val m \<longrightarrow> source = map Ok wrote \<and> m = n + length (concat wrote))"
  (is "\<exists>k wrote. ?E k wrote w' \<and> ?R wrote")
  using assms
proof (induction source arbitrary: n w)
  case Nil
  have "only_waits (copy_chunks path ino [] n)" by auto
  from only_waitsD [OF this Nil] obtain k where k: "w' = advance k w" by blast
  from Nil have "out = Val m \<Longrightarrow> m = n" for m
    by (auto elim: fut_bind_cases)
  with k show ?case by (intro exI [of _ k] exI [of _ "[]"]) simp
next
  case (Cons r source)
  have stop: ?case if "w' = advance k w" "\<forall>m. out \<noteq> Val m" for k
    using that by (intro exI [of _ k] exI [of _ "[]"]) simp
  let ?put = "\<lambda>chunk. fut_bind (await (sys_write ino chunk)) (\<lambda>a.
            fut_bind (try_io (fs_error_at ''cannot write'' path) a) (\<lambda>_.
            copy_chunks path ino source (n + length chunk)))"
  from Cons.prems have "fut_bind (await (\<lambda>w. (Ok (), w)))
      (\<lambda>_. case r of Inl error \<Rightarrow> fut_fail error | Inr chunk \<Rightarrow> ?put chunk) w = (out, w')"
    by simp
  then show ?case
  proof (cases rule: fut_bind_cases)
    case (went a w1)
    then obtain k where w1: "w1 = advance k w" using only_waits_nothing only_waitsD by blast
    show ?thesis
    proof (cases r)
      case (Inl e)
      with went w1 stop show ?thesis by simp
    next
      case (Inr chunk)
      with went have "?put chunk w1 = (out, w')" by simp
      then show ?thesis
      proof (cases rule: fut_bind_cases)
        case (went a w2)
        from went(1) show ?thesis
        proof (cases rule: await_write)
          case (nothing j)
          with went stop [of "k + j"] w1 show ?thesis by (auto elim!: fut_bind_cases)
        next
          case (wrote j)
          with went have "copy_chunks path ino source (n + length chunk) w2 = (out, w')"
            by (auto elim!: fut_bind_cases)
          from Cons.IH [OF this] obtain l rest where
            "w' = appended ino (concat rest) (advance l w2)"
            "\<forall>m. out = Val m \<longrightarrow> source = map Ok rest \<and> m = n + length chunk + length (concat rest)"
            by blast
          with wrote(1) w1 Inr show ?thesis
            by (intro exI [of _ "k + j + l"] exI [of _ "chunk # rest"]) auto
        qed
      next
        case (fail e)
        from fail(1) show ?thesis by (cases rule: await_write) auto
      next
        case dropped
        from dropped(1) show ?thesis
        proof (cases rule: await_write)
          case (nothing j)
          with dropped stop [of "k + j"] w1 show ?thesis by auto
        next
          case (wrote j)
          with dropped w1 show ?thesis
            by (intro exI [of _ "k + j"] exI [of _ "[chunk]"]) auto
        qed
      qed
    qed
  next
    case (fail e)
    then show ?thesis using stop only_waits_nothing only_waitsD by blast
  next
    case dropped
    then show ?thesis using stop only_waits_nothing only_waitsD by blast
  qed
qed

lemma await_try_return:
  assumes "fut_bind (await call) (\<lambda>a. fut_bind (try_io f a) (\<lambda>_. fut_return b)) w = (out, w')"
  shows "\<exists>k. (w' = advance k w \<and> (\<forall>a. out \<noteq> Val a))
     \<or> (\<exists>r. call (advance k w) = (r, w')
          \<and> (case r of Inl e \<Rightarrow> \<forall>a. out \<noteq> Val a | Inr _ \<Rightarrow> out = Dropped \<or> out = Val b))"
  using assms
proof (cases rule: fut_bind_cases)
  case (went a w1)
  from went(1) show ?thesis
  proof (cases rule: await_cases)
    case (refused k e)
    with went show ?thesis by (auto elim!: fut_bind_cases)
  next
    case (called k r)
    with went show ?thesis
      by (intro exI [of _ k] disjI2 exI [of _ r]) (auto split: sum.splits elim!: fut_bind_cases)
  qed simp
next
  case (fail e)
  from fail(1) show ?thesis by (cases rule: await_cases) auto
next
  case dropped
  from dropped(1) show ?thesis
  proof (cases rule: await_cases)
    case (called k r)
    with dropped show ?thesis
      by (intro exI [of _ k] disjI2 exI [of _ r]) (auto split: sum.splits)
  qed (use dropped in auto)
qed

lemma publish_effect:
  assumes "publish conflict part dest w = (out, w')"
  shows "\<exists>k. (w' = advance k w \<and> (\<forall>a. out \<noteq> Val a))
     \<or> (\<exists>n. w_names (advance k w) (pa_path part) = Some n
         \<and> (if conflict = Replace
            then w' = (advance k w)\<lparr>w_names := (w_names (advance k w))(pa_path part := None, dest := Some n)\<rparr>
               \<and> (out = Dropped \<or> out = Val (published part))
            else w_names (advance k w) dest = None
               \<and> w' = (advance k w)\<lparr>w_names := (w_names (advance k w))(dest := Some n)\<rparr>
               \<and> (out = Dropped \<or> out = Val part)))"
proof (cases conflict)
  case Replace
  with assms have "fut_bind (await (sys_rename (pa_path part) dest))
      (\<lambda>a. fut_bind (try_io (fs_error_at ''cannot publish'' dest) a) (\<lambda>_. fut_return (published part))) w = (out, w')"
    by (simp add: publish_def)
  from await_try_return [OF this] obtain k where
    "(w' = advance k w \<and> (\<forall>a. out \<noteq> Val a))
     \<or> (\<exists>r. sys_rename (pa_path part) dest (advance k w) = (r, w')
          \<and> (case r of Inl e \<Rightarrow> \<forall>a. out \<noteq> Val a | Inr _ \<Rightarrow> out = Dropped \<or> out = Val (published part)))"
    by blast
  with Replace show ?thesis
    by (intro exI [of _ k]) (auto simp: sys_rename_def split: option.splits if_splits)
next
  case FailIfExists
  with assms have "fut_bind (await (sys_hard_link (pa_path part) dest))
      (\<lambda>a. fut_bind (try_io (\<lambda>error.
              if io_kind error = Io_AlreadyExists then already_exists dest
              else fs_error_at ''cannot publish'' dest error) a) (\<lambda>_. fut_return part)) w = (out, w')"
    by (simp add: publish_def)
  from await_try_return [OF this] obtain k where
    "(w' = advance k w \<and> (\<forall>a. out \<noteq> Val a))
     \<or> (\<exists>r. sys_hard_link (pa_path part) dest (advance k w) = (r, w')
          \<and> (case r of Inl e \<Rightarrow> \<forall>a. out \<noteq> Val a | Inr _ \<Rightarrow> out = Dropped \<or> out = Val part))"
    by blast
  with FailIfExists show ?thesis
    by (intro exI [of _ k]) (auto simp: sys_hard_link_def split: option.splits if_splits)
qed

definition owned_effect ::
  "write_conflict \<Rightarrow> partial \<Rightarrow> bytes \<Rightarrow> (fs_error, bytes) result list
   \<Rightarrow> bytes list \<Rightarrow> world \<Rightarrow> (partial \<times> nat) outcome \<Rightarrow> world \<Rightarrow> bool" where
  "owned_effect conflict part dest source wrote u out w' \<longleftrightarrow>
     (w' = u \<and> (\<forall>a. out \<noteq> Val a))
     \<or> (\<exists>n. w_names u (pa_path part) = Some n \<and> source = map Ok wrote
         \<and> (if conflict = Replace
            then w' = u\<lparr>w_names := (w_names u)(pa_path part := None, dest := Some n)\<rparr>
               \<and> (out = Dropped \<or> out = Val (published part, length (concat wrote)))
            else w_names u dest = None
               \<and> w' = u\<lparr>w_names := (w_names u)(dest := Some n)\<rparr>
               \<and> (out = Dropped \<or> out = Val (part, length (concat wrote)))))"

lemma write_owned_effect:
  assumes "write_owned conflict dest source ino part w = (out, w')"
  shows "\<exists>k wrote. owned_effect conflict part dest source wrote
           (appended ino (concat wrote) (advance k w)) out w'"
proof -
  have stop: ?thesis if "w' = appended ino (concat wrote) (advance k w)" "\<forall>a. out \<noteq> Val a" for k wrote
    using that by (intro exI [of _ k] exI [of _ wrote]) (simp add: owned_effect_def)
  let ?publish = "\<lambda>n. fut_bind (publish conflict part dest) (\<lambda>part'. fut_return (part', n))"
  let ?flush = "\<lambda>n. fut_bind (fut_bind (await (sys_flush ino)) (try_io (fs_error_at ''cannot flush'' (pa_path part))))
      (\<lambda>_. ?publish n)"
  have "fut_bind (copy_chunks (pa_path part) ino source 0) ?flush w = (out, w')"
    using assms by (simp add: write_owned_def fut_bind_assoc)
  then show ?thesis
  proof (cases rule: fut_bind_cases)
    case (went n w1)
    from copy_chunks_effect [OF went(1)] obtain k wrote where
      w1: "w1 = appended ino (concat wrote) (advance k w)"
      and all: "source = map Ok wrote" "n = length (concat wrote)" by auto
    have flush: "only_waits (fut_bind (await (sys_flush ino))
        (try_io (fs_error_at ''cannot flush'' (pa_path part)))) " by auto
    from went(2) show ?thesis
    proof (cases rule: fut_bind_cases)
      case (went x w2)
      with only_waitsD [OF flush] w1 obtain j where
        w2: "w2 = appended ino (concat wrote) (advance (k + j) w)" by fastforce
      from went(2) obtain pub where pub: "publish conflict part dest w2 = (pub, w')"
        and out: "(\<exists>p. pub = Val p \<and> out = Val (p, n)) \<or> (\<forall>a. pub \<noteq> Val a) \<and> (pub = Dropped \<longleftrightarrow> out = Dropped) \<and> (\<forall>a. out \<noteq> Val a)"
        by (auto elim!: fut_bind_cases)
      from publish_effect [OF pub] obtain i where eff: "(w' = advance i w2 \<and> (\<forall>a. pub \<noteq> Val a))
        \<or> (\<exists>n. w_names (advance i w2) (pa_path part) = Some n
         \<and> (if conflict = Replace
            then w' = (advance i w2)\<lparr>w_names := (w_names (advance i w2))(pa_path part := None, dest := Some n)\<rparr>
               \<and> (pub = Dropped \<or> pub = Val (published part))
            else w_names (advance i w2) dest = None
               \<and> w' = (advance i w2)\<lparr>w_names := (w_names (advance i w2))(dest := Some n)\<rparr>
               \<and> (pub = Dropped \<or> pub = Val part)))" by blast
      have u: "advance i w2 = appended ino (concat wrote) (advance (k + j + i) w)"
        by (simp add: w2)
      show ?thesis
        using eff out all unfolding u
        by (intro exI [of _ "k + j + i"] exI [of _ wrote]) (auto simp: owned_effect_def)
    next
      case (fail e)
      with only_waitsD [OF flush] w1 stop [of wrote] show ?thesis by fastforce
    next
      case dropped
      with only_waitsD [OF flush] w1 stop [of wrote] show ?thesis by fastforce
    qed
  next
    case (fail e)
    with copy_chunks_effect [OF fail(1)] stop show ?thesis by blast
  next
    case dropped
    with copy_chunks_effect [OF dropped(1)] stop show ?thesis by blast
  qed
qed

section \<open>The whole write\<close>

lemma partial_path_not_destination:
  assumes "\<not> is_absolute n"
  shows "partial_path d n pid i \<noteq> path_join d n"
proof
  assume "partial_path d n pid i = path_join d n"
  then have "length (partial_path d n pid i) = length (path_join d n)" by simp
  with assms show False by (simp add: partial_path_def path_join_relative split: if_splits)
qed

lemma is_name_relative:
  assumes "is_name name" "to_path_buf name = Ok n"
  shows "\<not> is_absolute n"
  using assms by (auto simp: is_name_def components_def split: list.splits)

text \<open>The others leave the names that only this process makes alone.\<close>

definition leaves_alone :: "(bytes \<Rightarrow> bool) \<Rightarrow> world \<Rightarrow> bool" where
  "leaves_alone P w \<longleftrightarrow> (\<forall>ev \<in> set (w_schedule w). \<forall>e \<in> set (ae_edits ev). \<not> P (edit_path e))"

definition others_made :: "nat \<Rightarrow> world \<Rightarrow> bytes \<Rightarrow> node option" where
  "others_made k w = apply_edits (edits_of (take k (w_schedule w))) (w_names w)"

lemma advance_names: "w_names (advance k w) = others_made k w"
  by (simp add: advance_def others_made_def)

lemma others_made_alone:
  assumes "leaves_alone P w" "P p"
  shows "others_made k w p = w_names w p"
proof -
  have "p \<notin> edit_path ` set (edits_of (take k (w_schedule w)))"
    using assms unfolding leaves_alone_def edits_of_def by (auto dest!: in_set_takeD)
  then show ?thesis unfolding others_made_def by (rule apply_edits_untouched)
qed

lemma others_made_after:
  assumes "m p = others_made j w p" and "w_schedule w1 = drop j (w_schedule w)" and "w_names w1 = m"
  shows "others_made k w1 p = others_made (j + k) w p"
proof -
  have "others_made k w1 p = apply_edits (edits_of (take k (w_schedule w1))) (others_made j w) p"
    unfolding others_made_def [of k w1] by (rule apply_edits_local) (simp add: assms)
  also have "\<dots> = others_made (j + k) w p"
    unfolding assms(2) others_made_def by (simp add: take_add edits_of_def apply_edits_append)
  finally show ?thesis .
qed

text \<open>What a write can have done when it ends, at a destination and with the partial names \<open>P\<close>.\<close>

definition write_effect ::
  "(bytes \<Rightarrow> bool) \<Rightarrow> bytes \<Rightarrow> write_conflict \<Rightarrow> (fs_error, bytes) result list \<Rightarrow> world
   \<Rightarrow> nat outcome \<Rightarrow> world \<Rightarrow> nat \<Rightarrow> bool" where
  "write_effect P dest conflict source w out w' k \<longleftrightarrow>
     (\<forall>p. p \<noteq> dest \<and> \<not> P p \<longrightarrow> w_names w' p = others_made k w p)
   \<and> (w_names w' dest = others_made k w dest \<and> (\<forall>v. out \<noteq> Val v)
      \<or> (\<exists>ino chunks. source = map Ok chunks \<and> w_names w' dest = Some (Reg ino)
           \<and> w_inodes w' ino = concat chunks
           \<and> (conflict = FailIfExists \<longrightarrow> others_made k w dest = None)
           \<and> (\<forall>v. out = Val v \<longrightarrow> v = length (concat chunks))))
   \<and> ((\<forall>p. P p \<longrightarrow> w_names w' p = w_names w p)
      \<or> out = Dropped \<and> (\<exists>p ino. P p \<and> w_names w p = None \<and> w_names w' p = Some (Reg ino)
           \<and> w_inodes w' ino = [] \<and> (\<forall>q. P q \<and> q \<noteq> p \<longrightarrow> w_names w' q = w_names w q)))"

lemma with_partial_effect:
  assumes run: "with_partial \<lparr>pa_path = p, pa_published = False\<rparr>
      (write_owned conflict dest source (w_next_ino w) \<lparr>pa_path = p, pa_published = False\<rparr>) w1 = (out, w')"
    and w1: "w1 = created p ((advance j w)\<lparr>w_next_partial := i\<rparr>)"
    and p: "P p" "\<not> P dest" "w_names (advance j w) p = None" and alone: "leaves_alone P w"
  shows "\<exists>k. write_effect P dest conflict source w out w' k"
proof -
  let ?part = "\<lparr>pa_path = p, pa_published = False\<rparr>"
  let ?ino = "w_next_ino w"
  from run obtain out2 w2 where own: "write_owned conflict dest source ?ino ?part w1 = (out2, w2)"
    by (meson surj_pair)
  from write_owned_effect [OF own] obtain k wrote where
    eff: "owned_effect conflict ?part dest source wrote
      (appended ?ino (concat wrote) (advance k w1)) out2 w2" by blast
  let ?u = "appended ?ino (concat wrote) (advance k w1)"
  have sched: "w_schedule w1 = drop j (w_schedule w)"
    by (simp add: w1 created_def advance_def)
  have names1: "w_names w1 q = (if q = p then Some (Reg ?ino) else others_made j w q)" for q
    by (simp add: w1 created_def advance_names)
  have alone1: "leaves_alone P w1"
    using alone unfolding leaves_alone_def sched by (auto dest: in_set_dropD)
  have u_names: "w_names (advance k w1) q = (if q = p then Some (Reg ?ino) else others_made (j + k) w q)" for q
    using others_made_alone [OF alone1 p(1)] others_made_after [OF _ sched refl, of q k] names1
    by (auto simp: advance_names)
  have u_ino: "w_inodes ?u ?ino = concat wrote"
    by (simp add: w1 created_def)
  have gone: "w_names w p = None"
    using others_made_alone [OF alone p(1)] p(3) by (simp add: advance_names)
  have pd: "dest \<noteq> p" using p by auto
  have kept: "P q \<Longrightarrow> others_made (j + k) w q = w_names w q" for q
    by (rule others_made_alone [OF alone])
  have "write_effect P dest conflict source w out w' (j + k)"
    using eff [unfolded owned_effect_def] run own pd p(1,2) gone u_ino
    unfolding write_effect_def with_partial_def
    by (auto simp: u_names partial_drop_def sys_unlink_def published_def
        kept split: if_splits outcome.splits prod.splits)
  then show ?thesis ..
qed

lemma waiting_effect:
  assumes "w_names w' = others_made k w" and "leaves_alone P w" and "\<forall>v. out \<noteq> Val v"
  shows "write_effect P dest conflict source w out w' k"
  using assms others_made_alone [OF assms(2)] by (auto simp: write_effect_def)

lemma created_effect:
  assumes "w' = created p ((advance j w)\<lparr>w_next_partial := i\<rparr>)" and "P p" "\<not> P dest"
    and "w_names (advance j w) p = None" and "leaves_alone P w" and "out = Dropped"
  shows "write_effect P dest conflict source w out w' j"
  using assms others_made_alone [OF assms(5)]
  by (auto simp: write_effect_def created_def advance_names)

text \<open>The two futures after the checks, run from the world the checks left.\<close>

lemma create_and_write_effect:
  assumes run: "fut_bind (create_partial d n)
      (\<lambda>(file, part). with_partial part (write_owned conflict dest source file part)) w = (out, w')"
    and alone: "leaves_alone (is_partial d n (w_pid w)) w"
    and dest: "\<not> is_partial d n (w_pid w) dest"
  shows "\<exists>k. write_effect (is_partial d n (w_pid w)) dest conflict source w out w' k"
  using run
proof (cases rule: fut_bind_cases)
  case (went a w1)
  from create_partial_effect [OF went(1) [unfolded create_partial_def]] obtain k i p where
    "is_partial d n (w_pid w) p" "w_names (advance k w) p = None"
    "w1 = created p ((advance k w)\<lparr>w_next_partial := i\<rparr>)"
    "a = (w_next_ino w, \<lparr>pa_path = p, pa_published = False\<rparr>)" by auto
  with with_partial_effect [OF _ this(3) this(1) dest this(2) alone] went(2)
  show ?thesis by auto
next
  case (fail e)
  from create_partial_effect [OF fail(1) [unfolded create_partial_def]] obtain k where
    "w_names w' = others_made k w" by (auto simp: advance_names)
  with alone fail show ?thesis by (blast intro: waiting_effect)
next
  case dropped
  from create_partial_effect [OF dropped(1) [unfolded create_partial_def]] consider
    (waited) k i where "w' = (advance k w)\<lparr>w_next_partial := i\<rparr>"
  | (made) k i p where "is_partial d n (w_pid w) p" "w_names (advance k w) p = None"
      "w' = created p ((advance k w)\<lparr>w_next_partial := i\<rparr>)"
    by auto
  then show ?thesis
  proof cases
    case waited
    with alone dropped show ?thesis by (intro exI [of _ k] waiting_effect) (auto simp: advance_names)
  next
    case made
    with alone dropped dest show ?thesis by (blast intro: created_effect)
  qed
qed

lemma write_effect_later:
  assumes "write_effect P dest conflict source (advance j w) out w' k" and "leaves_alone P w"
  shows "write_effect P dest conflict source w out w' (j + k)"
proof -
  have "others_made k (advance j w) = others_made (j + k) w"
    by (metis advance_advance advance_names)
  moreover have "P p \<Longrightarrow> w_names (advance j w) p = w_names w p" for p
    unfolding advance_names by (rule others_made_alone [OF assms(2)])
  ultimately show ?thesis using assms(1) unfolding write_effect_def by auto
qed

definition bytes_of :: "written outcome \<Rightarrow> nat outcome" where
  "bytes_of out = (case out of Val v \<Rightarrow> Val (wr_bytes v) | Fail e \<Rightarrow> Fail e | Dropped \<Rightarrow> Dropped)"

lemma write_file_effect:
  assumes run: "write_file directory name conflict source w = (out, w')"
    and paths: "absolute directory = Ok d" "to_path_buf name = Ok n"
    and alone: "leaves_alone (is_partial d n (w_pid w)) w"
  shows "(\<exists>k. write_effect (is_partial d n (w_pid w)) (path_join d n) conflict source w (bytes_of out) w' k)
    \<and> (\<forall>v. out = Val v \<longrightarrow> wr_path v = from_path (path_join d n))"
proof (cases "is_name name")
  case False
  with run have "out = Fail (not_a_name name)" "w_names w' = others_made 0 w"
    by (auto simp: write_file_def others_made_def edits_of_def)
  with alone have "write_effect (is_partial d n (w_pid w)) (path_join d n) conflict source w
      (bytes_of out) w' 0"
    by (intro waiting_effect) (auto simp: bytes_of_def)
  with \<open>out = Fail _\<close> show ?thesis by blast
next
  case True
  let ?dest = "path_join d n"
  let ?P = "is_partial d n (w_pid w)"
  have dest: "\<not> ?P ?dest"
    using partial_path_not_destination [OF is_name_relative [OF True paths(2)]]
    by (metis is_partial_def)
  let ?rest = "fut_bind (create_partial d n)
      (\<lambda>(file, part). with_partial part (write_owned conflict ?dest source file part))"
  have "fut_bind (check_destination conflict d ?dest) (\<lambda>_. fut_bind ?rest
      (\<lambda>m. fut_return \<lparr>wr_path = from_path ?dest, wr_bytes = m\<rparr>)) w = (out, w')"
    using run True paths by (simp add: write_file_def fut_bind_assoc case_prod_unfold Let_def)
  then show ?thesis
  proof (cases rule: fut_bind_cases)
    case (went u w1)
    from only_waitsD [OF check_destination_waits went(1)] obtain j where w1: "w1 = advance j w" ..
    have "\<exists>out2. ?rest w1 = (out2, w') \<and> bytes_of out = out2
        \<and> (\<forall>v. out = Val v \<longrightarrow> wr_path v = from_path ?dest)"
      using went(2) by (cases rule: fut_bind_cases) (simp_all add: bytes_of_def)
    then obtain out2 where out2: "?rest w1 = (out2, w')"
      and out: "bytes_of out = out2 \<and> (\<forall>v. out = Val v \<longrightarrow> wr_path v = from_path ?dest)"
      by blast
    have "leaves_alone ?P w1"
      using alone by (auto simp: w1 leaves_alone_def advance_def dest!: in_set_dropD)
    with create_and_write_effect [OF out2] dest obtain k where
      "write_effect ?P ?dest conflict source w1 out2 w' k" by (auto simp: w1)
    with write_effect_later alone out w1 show ?thesis by blast
  next
    case (fail e)
    from only_waitsD [OF check_destination_waits fail(1)] obtain k where "w' = advance k w" ..
    with alone fail(2) have "write_effect ?P ?dest conflict source w (bytes_of out) w' k"
      by (intro waiting_effect) (auto simp: advance_names bytes_of_def)
    with fail(2) show ?thesis by blast
  next
    case dropped
    from only_waitsD [OF check_destination_waits dropped(1)] obtain k where "w' = advance k w" ..
    with alone dropped(2) have "write_effect ?P ?dest conflict source w (bytes_of out) w' k"
      by (intro waiting_effect) (auto simp: advance_names bytes_of_def)
    with dropped(2) show ?thesis by blast
  qed
qed

text \<open>
  C1. A write is published whole or not at all. Whatever other processes do to the names at its
  awaits, whichever call the kernel refuses and wherever the future is dropped, when it ends
  every name outside its own partial names is what the others made it, the destination
  included - or the destination alone holds a file with exactly the source's bytes, which
  happens only with every chunk read, and always on success, when path and count are reported
  truly; and under \<open>FailIfExists\<close> only where the others had left no file at the destination,
  even one that appeared after the check.
\<close>

theorem write_is_whole_or_nothing:
  assumes run: "write_file directory name conflict source w = (out, w')"
    and paths: "absolute directory = Ok d" "to_path_buf name = Ok n"
    and alone: "leaves_alone (is_partial d n (w_pid w)) w"
  shows "\<exists>k. (\<forall>p. p \<noteq> path_join d n \<and> \<not> is_partial d n (w_pid w) p \<longrightarrow> w_names w' p = others_made k w p)
     \<and> (w_names w' (path_join d n) = others_made k w (path_join d n) \<and> (\<forall>v. out \<noteq> Val v)
        \<or> (\<exists>ino chunks. source = map Ok chunks
             \<and> w_names w' (path_join d n) = Some (Reg ino) \<and> w_inodes w' ino = concat chunks
             \<and> (conflict = FailIfExists \<longrightarrow> others_made k w (path_join d n) = None)
             \<and> (\<forall>v. out = Val v \<longrightarrow> v = \<lparr>wr_path = from_path (path_join d n),
                                        wr_bytes = length (concat chunks)\<rparr>)))"
proof -
  from write_file_effect [OF run paths alone] obtain k where
    eff: "write_effect (is_partial d n (w_pid w)) (path_join d n) conflict source w (bytes_of out) w' k"
    and path: "\<And>v. out = Val v \<Longrightarrow> wr_path v = from_path (path_join d n)" by blast
  have "\<forall>v. bytes_of out \<noteq> Val v \<Longrightarrow> \<forall>v. out \<noteq> Val v" by (auto simp: bytes_of_def)
  moreover have "\<forall>m. bytes_of out = Val m \<longrightarrow> m = c \<Longrightarrow>
      \<forall>v. out = Val v \<longrightarrow> v = \<lparr>wr_path = from_path (path_join d n), wr_bytes = c\<rparr>" for c
    using path by (auto simp: bytes_of_def)
  ultimately show ?thesis
    using eff unfolding write_effect_def by (intro exI [of _ k]) blast
qed


section \<open>Concrete worlds\<close>

text \<open>One directory, \<open>/d\<close>, empty; process 7; the given schedule.\<close>

definition one_dir :: "await_event list \<Rightarrow> world" where
  "one_dir schedule =
     \<lparr>w_names = [''/d'' \<mapsto> Dir_node], w_inodes = (\<lambda>_. []), w_next_ino = 1, w_next_partial = 1,
      w_pid = 7, w_schedule = schedule\<rparr>"

definition calm :: await_event where
  "calm = \<lparr>ae_edits = [], ae_refusal = None, ae_drop = Keep\<rparr>"

text \<open>Another process creates \<open>/d/f\<close> just before the write's tenth await, its publishing.\<close>

definition rival :: await_event where
  "rival = \<lparr>ae_edits = [Put ''/d/f'' (Reg 99)], ae_refusal = None, ae_drop = Keep\<rparr>"

definition abandoned :: await_event where
  "abandoned = \<lparr>ae_edits = [], ae_refusal = None, ae_drop = Drop_after\<rparr>"

definition example_write :: "await_event list \<Rightarrow> written outcome \<times> world" where
  "example_write schedule =
     write_file (from_path ''/d'') (from_path ''f'') FailIfExists [Ok ''a'', Ok ''bc''] (one_dir schedule)"

lemma one_dir_paths:
  "absolute (from_path ''/d'') = Ok ''/d''" "to_path_buf (from_path ''f'') = Ok ''f''"
  "path_join ''/d'' ''f'' = ''/d/f''"
  by code_simp+

lemma example_alone:
  assumes "set schedule \<subseteq> {calm, rival, abandoned}"
  shows "leaves_alone (is_partial ''/d'' ''f'' (w_pid (one_dir schedule))) (one_dir schedule)"
proof -
  have away: "\<not> is_partial ''/d'' ''f'' pid ''/d/f''" for pid
  proof -
    have "\<not> is_absolute ''f''" by simp
    from partial_path_not_destination [OF this, of "''/d''"] show ?thesis
      unfolding is_partial_def one_dir_paths(3) by metis
  qed
  have "\<not> is_partial ''/d'' ''f'' pid (edit_path e)"
    if "ev \<in> {calm, rival, abandoned}" "e \<in> set (ae_edits ev)" for ev e pid
    using that away by (auto simp: calm_def rival_def abandoned_def)
  with assms show ?thesis
    by (auto simp: leaves_alone_def one_dir_def)
qed

lemma example_write_outcomes:
  "fst (example_write []) = Val \<lparr>wr_path = from_path ''/d/f'', wr_bytes = 3\<rparr>"
  "fst (example_write (replicate 9 calm @ [rival])) = Fail (already_exists ''/d/f'')"
  by code_simp+

theorem write_is_whole_or_nothing_witness:
  "\<exists>ino w'. example_write [] = (Val \<lparr>wr_path = from_path ''/d/f'', wr_bytes = 3\<rparr>, w')
     \<and> w_names w' ''/d/f'' = Some (Reg ino) \<and> w_inodes w' ino = ''abc''"
proof -
  obtain out w' where run: "example_write [] = (out, w')" by (meson surj_pair)
  with example_write_outcomes(1) have out: "out = Val \<lparr>wr_path = from_path ''/d/f'', wr_bytes = 3\<rparr>"
    by simp
  have "set [] \<subseteq> {calm, rival, abandoned}" by simp
  note write_is_whole_or_nothing [OF run [unfolded example_write_def] one_dir_paths(1,2) example_alone [OF this],
      unfolded one_dir_paths(3) out]
  then have "\<exists>ino. w_names w' ''/d/f'' = Some (Reg ino) \<and> w_inodes w' ino = ''abc''"
    by (elim exE conjE disjE) (auto simp: Cons_eq_map_conv)
  with run out show ?thesis by auto
qed


text \<open>
  The exception happens: a write dropped while it awaits the creation of its partial file,
  on a pool that carries on with the call, leaves the hidden file behind, which its guard,
  built only from the call's answer, never learns of.
\<close>

theorem dropped_create_leaves_partial:
  "fst (example_write [calm, calm, abandoned]) = Dropped
   \<and> w_names (snd (example_write [calm, calm, abandoned])) (partial_path ''/d'' ''f'' 7 1) = Some (Reg 1)
   \<and> w_names (snd (example_write [])) (partial_path ''/d'' ''f'' 7 1) = None"
  by code_simp

end
