(* ===== verification/TaskTypes.thy ===== *)
theory TaskTypes
  imports StdIo
begin

text \<open>
  \<open>src/task/mod.rs\<close>: what a task is to every observer - its identity, description, state and
  progress, and the events that report them. An identifier is a fresh UUID, here a number the
  caller supplies; a cancellation token is the chain of the task identifiers it hangs from.
\<close>

type_synonym task_id = nat
type_synonym resource_id = nat
type_synonym system_time = int

datatype admission_class = Interactive | Transfer | Background

record operand =
  op_name :: bytes
  op_value :: bytes

record task_descriptor =
  td_kind :: bytes
  td_subject :: "operand list"
  td_admission :: admission_class

definition task_descriptor_new :: "bytes \<Rightarrow> admission_class \<Rightarrow> task_descriptor" where
  "task_descriptor_new kind admission =
     \<lparr>td_kind = kind, td_subject = [], td_admission = admission\<rparr>"

definition td_with :: "task_descriptor \<Rightarrow> bytes \<Rightarrow> bytes \<Rightarrow> task_descriptor" where
  "td_with self name v =
     self\<lparr>td_subject := td_subject self @ [\<lparr>op_name = name, op_value = v\<rparr>]\<rparr>"

datatype task_state =
    Queued (waiting_on: "resource_id option")
  | Running
  | Cancelling
  | Succeeded
  | Failed io_error
  | Cancelled

fun is_terminal :: "task_state \<Rightarrow> bool" where
  "is_terminal Succeeded = True"
| "is_terminal (Failed _) = True"
| "is_terminal Cancelled = True"
| "is_terminal _ = False"

datatype measure =
    Indeterminate
  | Items nat "nat option"
  | Bytes nat "nat option"

record progress =
  pr_phase :: "bytes option"
  pr_measure :: measure

definition progress_default :: progress where
  "progress_default = \<lparr>pr_phase = None, pr_measure = Indeterminate\<rparr>"

record task_info =
  ti_id :: task_id
  ti_parent :: "task_id option"
  ti_descriptor :: task_descriptor
  ti_submitted :: system_time
  ti_settled :: "system_time option"
  ti_state :: task_state
  ti_progress :: progress

datatype task_event =
    Submitted task_info
  | StateChanged task_id task_state
  | Progressed task_id progress

datatype resource_state = Pending | Ready | Closing | Gone

text \<open>How a task that did not succeed ended (\<open>src/task/handle.rs\<close>).\<close>

datatype task_error = TE_Failed io_error | TE_Cancelled

fun state_of :: "task_error \<Rightarrow> task_state" where
  "state_of (TE_Failed error) = Failed error"
| "state_of TE_Cancelled = Cancelled"

definition task_error_text :: "task_error \<Rightarrow> bytes" where
  "task_error_text e =
     (case e of TE_Failed error \<Rightarrow> io_text error | TE_Cancelled \<Rightarrow> ''the task was cancelled'')"

lemma state_of_terminal [simp]: "is_terminal (state_of e)"
  by (cases e) auto

section \<open>Cancellation tokens\<close>

text \<open>
  \<open>CancellationToken::new\<close> is a tree of its own and \<open>child_token\<close> hangs a new one below an old
  one. A token is cancelled when it or one it hangs from has been: the set of those cancelled
  by name is the tokens' shared state.
\<close>

type_synonym token = "task_id list"

definition token_new :: "task_id \<Rightarrow> token" where
  "token_new i = [i]"

definition child_token :: "token \<Rightarrow> task_id \<Rightarrow> token" where
  "child_token parent i = i # parent"

definition token_cancel :: "token \<Rightarrow> task_id set \<Rightarrow> task_id set" where
  "token_cancel t C = (case t of [] \<Rightarrow> C | i # _ \<Rightarrow> insert i C)"

definition is_cancelled :: "task_id set \<Rightarrow> token \<Rightarrow> bool" where
  "is_cancelled C t \<longleftrightarrow> (\<exists>i \<in> set t. i \<in> C)"

lemma is_cancelled_child: "is_cancelled C t \<Longrightarrow> is_cancelled C (child_token t i)"
  by (simp add: is_cancelled_def child_token_def)

lemma is_cancelled_mono: "is_cancelled C t \<Longrightarrow> C \<subseteq> D \<Longrightarrow> is_cancelled D t"
  by (auto simp: is_cancelled_def)

lemma token_cancel_grows: "C \<subseteq> token_cancel t C"
  by (auto simp: token_cancel_def split: list.splits)

lemma token_cancel_cancels: "t \<noteq> [] \<Longrightarrow> is_cancelled (token_cancel t C) t"
  by (cases t) (auto simp: token_cancel_def is_cancelled_def)

end
