(* ===== verification/TaskRegistry.thy ===== *)
theory TaskRegistry
  imports TaskTypes
begin

text \<open>
  \<open>src/task/runtime.rs\<close>, its registry: each critical section of the runtime as one function of
  the shared state. The events sent, the wake-ups given (\<open>Notify\<close>, by its count), the tokens
  cancelled and the flushes scheduled are part of that state. A \<open>HashMap\<close> is an association
  list, a \<open>BTreeSet\<close> its sorted list; \<open>u64\<close> sequence numbers do not wrap in \<open>2 ^ 64\<close>
  submissions and are natural numbers. Readings of the clocks are arguments.
\<close>

section \<open>State\<close>

record config =
  interactive_cap :: "nat option"
  transfer_cap :: "nat option"
  background_cap :: "nat option"
  retained_roots :: nat
  progress_interval :: duration
  item_buffer :: nat
  event_buffer :: nat

definition config_default :: config where
  "config_default =
     \<lparr>interactive_cap = None, transfer_cap = Some 2, background_cap = Some 1, retained_roots = 256,
      progress_interval = 100 * 10 ^ 6, item_buffer = 16, event_buffer = 1024\<rparr>"

fun config_cap :: "config \<Rightarrow> admission_class \<Rightarrow> nat option" where
  "config_cap c Interactive = interactive_cap c"
| "config_cap c Transfer = transfer_cap c"
| "config_cap c Background = background_cap c"

type_synonym scope = "admission_class \<times> resource_id option"

record throttle =
  th_last_sent :: "instant option"
  th_pending :: bool
  th_flush_scheduled :: bool

definition throttle_default :: throttle where
  "throttle_default = \<lparr>th_last_sent = None, th_pending = False, th_flush_scheduled = False\<rparr>"

record entry =
  et_seq :: nat
  et_info :: task_info
  et_children :: "task_id list"
  et_live_children :: nat
  et_token :: token
  et_throttle :: throttle

text \<open>\<open>Arc<dyn Any>\<close>: a value with the identity of its type.\<close>

record any_value =
  av_type :: nat
  av_data :: nat

record resource =
  rs_state :: resource_state
  rs_value :: "any_value option"

record registry =
  rg_next_seq :: nat
  rg_tasks :: "(task_id \<times> entry) list"
  rg_settled_roots :: "task_id list"
  rg_resources :: "(resource_id \<times> resource) list"
  rg_admitted :: "(scope \<times> nat) list"
  rg_queues :: "(scope \<times> nat list) list"

definition registry_default :: registry where
  "registry_default =
     \<lparr>rg_next_seq = 0, rg_tasks = [], rg_settled_roots = [], rg_resources = [], rg_admitted = [],
      rg_queues = []\<rparr>"

record runtime =
  rt_config :: config
  rt_registry :: registry
  rt_events :: "task_event list"
  rt_notifications :: nat
  rt_cancelled :: "task_id set"
  rt_flushes :: "(task_id \<times> instant) list"

definition runtime_new :: "config \<Rightarrow> runtime" where
  "runtime_new config =
     \<lparr>rt_config = config, rt_registry = registry_default, rt_events = [], rt_notifications = 0,
      rt_cancelled = {}, rt_flushes = []\<rparr>"

record ticket =
  tk_seq :: nat
  tk_scope :: scope
  tk_queued :: bool

datatype admission_decision = Admit | Wait "resource_id option" | Fail io_error

section \<open>Access\<close>

definition get_task :: "runtime \<Rightarrow> task_id \<Rightarrow> entry option" where
  "get_task rt i = map_of (rg_tasks (rt_registry rt)) i"

definition map_registry :: "(registry \<Rightarrow> registry) \<Rightarrow> runtime \<Rightarrow> runtime" where
  "map_registry f rt = rt\<lparr>rt_registry := f (rt_registry rt)\<rparr>"

definition edit_task :: "task_id \<Rightarrow> (entry \<Rightarrow> entry) \<Rightarrow> runtime \<Rightarrow> runtime" where
  "edit_task i f = map_registry (\<lambda>r. r\<lparr>rg_tasks := AList.map_entry i f (rg_tasks r)\<rparr>)"

definition send :: "task_event \<Rightarrow> runtime \<Rightarrow> runtime" where
  "send ev rt = rt\<lparr>rt_events := rt_events rt @ [ev]\<rparr>"

definition notify_waiters :: "runtime \<Rightarrow> runtime" where
  "notify_waiters rt = rt\<lparr>rt_notifications := rt_notifications rt + 1\<rparr>"

abbreviation et_state :: "entry \<Rightarrow> task_state" where
  "et_state e \<equiv> ti_state (et_info e)"

definition put_state :: "task_state \<Rightarrow> entry \<Rightarrow> entry" where
  "put_state s e = e\<lparr>et_info := (et_info e)\<lparr>ti_state := s\<rparr>\<rparr>"

definition add_child :: "task_id \<Rightarrow> entry \<Rightarrow> entry" where
  "add_child i e = e\<lparr>et_children := et_children e @ [i], et_live_children := et_live_children e + 1\<rparr>"

definition lose_child :: "entry \<Rightarrow> entry" where
  "lose_child e = e\<lparr>et_live_children := et_live_children e - 1\<rparr>"

section \<open>Operations\<close>

definition new_info :: "task_id \<Rightarrow> task_descriptor \<Rightarrow> task_id option \<Rightarrow> system_time \<Rightarrow> task_info" where
  "new_info i descriptor parent now =
     \<lparr>ti_id = i, ti_parent = parent, ti_descriptor = descriptor, ti_submitted = now,
      ti_settled = None, ti_state = Queued None, ti_progress = progress_default\<rparr>"

definition new_entry :: "nat \<Rightarrow> task_info \<Rightarrow> token \<Rightarrow> entry" where
  "new_entry seq info token =
     \<lparr>et_seq = seq, et_info = info, et_children = [], et_live_children = 0, et_token = token,
      et_throttle = throttle_default\<rparr>"

definition start ::
  "task_id \<Rightarrow> task_descriptor \<Rightarrow> resource_id list \<Rightarrow> task_id option \<Rightarrow> token \<Rightarrow> system_time
   \<Rightarrow> runtime \<Rightarrow> ticket \<times> runtime" where
  "start i descriptor requires parent token now rt =
     (let scope = (td_admission descriptor, case requires of [] \<Rightarrow> None | r # _ \<Rightarrow> Some r);
          queued = (parent = None \<and> config_cap (rt_config rt) (fst scope) \<noteq> None);
          info = new_info i descriptor parent now;
          seq = rg_next_seq (rt_registry rt);
          rt1 = map_registry (\<lambda>r. r\<lparr>rg_next_seq := seq + 1\<rparr>) rt;
          rt2 = (if queued
                 then map_registry (\<lambda>r. r\<lparr>rg_queues := AList.update scope
                        (insort_insert seq (case map_of (rg_queues r) scope of None \<Rightarrow> [] | Some q \<Rightarrow> q))
                        (rg_queues r)\<rparr>) rt1
                 else rt1);
          rt3 = (case parent of
                   None \<Rightarrow> rt2
                 | Some p \<Rightarrow> edit_task p (add_child i) rt2);
          rt4 = map_registry (\<lambda>r. r\<lparr>rg_tasks := AList.update i
                  (new_entry seq info token) (rg_tasks r)\<rparr>) rt3
      in (\<lparr>tk_seq = seq, tk_scope = scope, tk_queued = queued\<rparr>, send (Submitted info) rt4))"

definition submit ::
  "task_id \<Rightarrow> task_descriptor \<Rightarrow> resource_id list \<Rightarrow> system_time \<Rightarrow> runtime \<Rightarrow> ticket \<times> runtime" where
  "submit i descriptor requires now rt = start i descriptor requires None (token_new i) now rt"

definition submit_child ::
  "task_id \<Rightarrow> token \<Rightarrow> task_id \<Rightarrow> task_descriptor \<Rightarrow> resource_id list \<Rightarrow> system_time
   \<Rightarrow> runtime \<Rightarrow> ticket \<times> runtime" where
  "submit_child parent parent_token i descriptor requires now rt =
     start i descriptor requires (Some parent) (child_token parent_token i) now rt"

definition cancel :: "task_id \<Rightarrow> runtime \<Rightarrow> runtime" where
  "cancel i rt =
     (case get_task rt i of
        Some e \<Rightarrow> if is_terminal (et_state e) then rt
                  else rt\<lparr>rt_cancelled := token_cancel (et_token e) (rt_cancelled rt)\<rparr>
      | None \<Rightarrow> rt)"

definition cancel_all :: "runtime \<Rightarrow> runtime" where
  "cancel_all rt =
     rt\<lparr>rt_cancelled := fold (\<lambda>e. if is_terminal (et_state e) then id else token_cancel (et_token e))
          (map snd (rg_tasks (rt_registry rt))) (rt_cancelled rt)\<rparr>"

definition busy :: "runtime \<Rightarrow> bool" where
  "busy rt \<longleftrightarrow> list_ex (\<lambda>e. \<not> is_terminal (et_state e)) (map snd (rg_tasks (rt_registry rt)))"

definition tasks :: "runtime \<Rightarrow> task_info list" where
  "tasks rt = map et_info (sort_key et_seq (map snd (rg_tasks (rt_registry rt))))"

definition task :: "runtime \<Rightarrow> task_id \<Rightarrow> task_info option" where
  "task rt i = map_option et_info (get_task rt i)"

definition add_resource :: "resource_id \<Rightarrow> resource_state \<Rightarrow> runtime \<Rightarrow> runtime" where
  "add_resource i state rt =
     notify_waiters (map_registry (\<lambda>r. r\<lparr>rg_resources :=
       AList.update i \<lparr>rs_state = state, rs_value = None\<rparr> (rg_resources r)\<rparr>) rt)"

definition set_resource_state :: "resource_id \<Rightarrow> resource_state \<Rightarrow> runtime \<Rightarrow> runtime" where
  "set_resource_state i state rt =
     notify_waiters (map_registry (\<lambda>r. r\<lparr>rg_resources :=
       AList.map_entry i (\<lambda>res. if state \<noteq> Ready then \<lparr>rs_state = state, rs_value = None\<rparr>
                               else res\<lparr>rs_state := state\<rparr>) (rg_resources r)\<rparr>) rt)"

definition set_resource_ready :: "resource_id \<Rightarrow> any_value \<Rightarrow> runtime \<Rightarrow> runtime" where
  "set_resource_ready i v rt =
     notify_waiters (map_registry (\<lambda>r. r\<lparr>rg_resources :=
       AList.map_entry i (\<lambda>res. \<lparr>rs_state = Ready, rs_value = Some v\<rparr>) (rg_resources r)\<rparr>) rt)"

definition resource_value :: "nat \<Rightarrow> resource_id \<Rightarrow> runtime \<Rightarrow> nat option" where
  "resource_value ty i rt =
     (case map_of (rg_resources (rt_registry rt)) i of
        None \<Rightarrow> None
      | Some res \<Rightarrow>
          if rs_state res \<noteq> Ready then None
          else (case rs_value res of
                  None \<Rightarrow> None
                | Some v \<Rightarrow> if av_type v = ty then Some (av_data v) else None))"

section \<open>Progress\<close>

definition put_progress :: "progress \<Rightarrow> entry \<Rightarrow> entry" where
  "put_progress p e = e\<lparr>et_info := (et_info e)\<lparr>ti_progress := p\<rparr>\<rparr>"

definition map_throttle :: "(throttle \<Rightarrow> throttle) \<Rightarrow> entry \<Rightarrow> entry" where
  "map_throttle f e = e\<lparr>et_throttle := f (et_throttle e)\<rparr>"

definition report_progress :: "task_id \<Rightarrow> progress \<Rightarrow> instant \<Rightarrow> runtime \<Rightarrow> runtime" where
  "report_progress i p now rt =
     (let interval = progress_interval (rt_config rt) in
      case get_task rt i of
        None \<Rightarrow> rt
      | Some e \<Rightarrow>
          if is_terminal (et_state e) then rt
          else
            (let th = et_throttle e;
                 rt1 = edit_task i (put_progress p) rt;
                 due = (case th_last_sent th of None \<Rightarrow> True | Some sent \<Rightarrow> now - sent \<ge> interval)
             in if due
                then send (Progressed i p)
                       (edit_task i (map_throttle (\<lambda>t. t\<lparr>th_last_sent := Some now, th_pending := False\<rparr>)) rt1)
                else if th_flush_scheduled th
                then edit_task i (map_throttle (\<lambda>t. t\<lparr>th_pending := True\<rparr>)) rt1
                else
                  (let wait = interval - (case th_last_sent th of None \<Rightarrow> 0 | Some sent \<Rightarrow> now - sent);
                       rt2 = edit_task i (map_throttle (\<lambda>t. t\<lparr>th_pending := True, th_flush_scheduled := True\<rparr>)) rt1
                   in rt2\<lparr>rt_flushes := (i, now + wait) # rt_flushes rt2\<rparr>)))"

definition flush_progress :: "task_id \<Rightarrow> instant \<Rightarrow> runtime \<Rightarrow> runtime" where
  "flush_progress i now rt =
     (case get_task rt i of
        None \<Rightarrow> rt
      | Some e \<Rightarrow>
          (let rt1 = edit_task i (map_throttle (\<lambda>t. t\<lparr>th_flush_scheduled := False\<rparr>)) rt in
           if th_pending (et_throttle e) \<and> \<not> is_terminal (et_state e)
           then send (Progressed i (ti_progress (et_info e)))
                  (edit_task i (map_throttle (\<lambda>t. t\<lparr>th_pending := False, th_last_sent := Some now\<rparr>)) rt1)
           else rt1))"

section \<open>Admission\<close>

fun required :: "registry \<Rightarrow> resource_id list \<Rightarrow> admission_decision option" where
  "required reg [] = None"
| "required reg (r # rs) =
     (case map_option rs_state (map_of (rg_resources reg) r) of
        Some Ready \<Rightarrow> required reg rs
      | Some Pending \<Rightarrow> Some (Wait (Some r))
      | Some Closing \<Rightarrow> Some (Wait (Some r))
      | Some Gone \<Rightarrow> Some (Fail (io_error_new Io_NotConnected ''a resource this task requires is gone''))
      | None \<Rightarrow> Some (Fail (io_error_new Io_NotFound ''a resource this task requires does not exist'')))"

definition admission :: "registry \<Rightarrow> resource_id list \<Rightarrow> ticket \<Rightarrow> nat option \<Rightarrow> admission_decision" where
  "admission reg requires ticket cap =
     (case required reg requires of
        Some decision \<Rightarrow> decision
      | None \<Rightarrow>
          (case cap of
             None \<Rightarrow> Admit
           | Some cap \<Rightarrow>
               (let admitted = (case map_of (rg_admitted reg) (tk_scope ticket) of None \<Rightarrow> 0 | Some n \<Rightarrow> n);
                    first = (case map_of (rg_queues reg) (tk_scope ticket) of
                               None \<Rightarrow> None
                             | Some [] \<Rightarrow> None
                             | Some (s # _) \<Rightarrow> Some s)
                in if admitted < cap \<and> first = Some (tk_seq ticket) then Admit else Wait None)))"

definition dequeue :: "ticket \<Rightarrow> registry \<Rightarrow> registry" where
  "dequeue ticket reg =
     (case map_of (rg_queues reg) (tk_scope ticket) of
        None \<Rightarrow> reg
      | Some queue \<Rightarrow>
          (let queue' = remove1 (tk_seq ticket) queue in
           if queue' = [] then reg\<lparr>rg_queues := AList.delete (tk_scope ticket) (rg_queues reg)\<rparr>
           else reg\<lparr>rg_queues := AList.update (tk_scope ticket) queue' (rg_queues reg)\<rparr>))"

definition admission_cap :: "config \<Rightarrow> ticket \<Rightarrow> nat option" where
  "admission_cap c ticket = (if tk_queued ticket then config_cap c (fst (tk_scope ticket)) else None)"

text \<open>The critical section of the admission loop: decide and, when admitted, take the place.\<close>

definition try_admit :: "resource_id list \<Rightarrow> ticket \<Rightarrow> runtime \<Rightarrow> admission_decision \<times> runtime" where
  "try_admit requires ticket rt =
     (let decision = admission (rt_registry rt) requires ticket (admission_cap (rt_config rt) ticket) in
      (decision,
       if tk_queued ticket \<and> decision = Admit
       then map_registry (\<lambda>r. dequeue ticket (r\<lparr>rg_admitted := AList.update (tk_scope ticket)
              ((case map_of (rg_admitted r) (tk_scope ticket) of None \<Rightarrow> 0 | Some n \<Rightarrow> n) + 1)
              (rg_admitted r)\<rparr>)) rt
       else rt))"

definition drop_slot :: "scope \<Rightarrow> runtime \<Rightarrow> runtime" where
  "drop_slot scope rt =
     notify_waiters (map_registry (\<lambda>r. r\<lparr>rg_admitted :=
       AList.map_entry scope (\<lambda>n. n - 1) (rg_admitted r)\<rparr>) rt)"

definition leave_queue :: "ticket \<Rightarrow> runtime \<Rightarrow> runtime" where
  "leave_queue ticket rt = notify_waiters (map_registry (dequeue ticket) rt)"

definition set_queued :: "task_id \<Rightarrow> resource_id option \<Rightarrow> runtime \<Rightarrow> runtime" where
  "set_queued i on rt =
     (case get_task rt i of
        None \<Rightarrow> rt
      | Some e \<Rightarrow>
          if et_state e = Queued on then rt
          else send (StateChanged i (Queued on)) (edit_task i (put_state (Queued on)) rt))"

definition set_state :: "task_id \<Rightarrow> task_state \<Rightarrow> runtime \<Rightarrow> runtime" where
  "set_state i state rt =
     (case get_task rt i of
        None \<Rightarrow> rt
      | Some e \<Rightarrow> send (StateChanged i state) (edit_task i (put_state state) rt))"

section \<open>Settling and retention\<close>

lemma length_delete_less: "map_of ts i = Some e \<Longrightarrow> length (AList.delete i ts) < length ts"
proof -
  assume "map_of ts i = Some e"
  then have "i \<in> fst ` set ts" by (metis domI dom_map_of_conv_image_fst)
  then have "\<exists>kv \<in> set ts. \<not> (case kv of (k, v) \<Rightarrow> i \<noteq> k)" by auto
  then show ?thesis unfolding AList.delete_eq using length_filter_less by fastforce
qed

text \<open>
  \<open>remove_subtree\<close> recurses through the children of an entry it has just removed; the calls
  still to make are a list here. It ends because the table shrinks.
\<close>

function remove_subtrees :: "task_id list \<Rightarrow> (task_id \<times> entry) list \<Rightarrow> (task_id \<times> entry) list" where
  "remove_subtrees [] ts = ts"
| "remove_subtrees (i # rest) ts =
     (case map_of ts i of
        None \<Rightarrow> remove_subtrees rest ts
      | Some e \<Rightarrow> remove_subtrees (et_children e @ rest) (AList.delete i ts))"
  by pat_completeness auto

termination remove_subtrees
  by (relation "measures [\<lambda>(is, ts). length ts, \<lambda>(is, ts). length is]")
     (auto simp: length_delete_less)

definition remove_subtree :: "task_id \<Rightarrow> (task_id \<times> entry) list \<Rightarrow> (task_id \<times> entry) list" where
  "remove_subtree i ts = remove_subtrees [i] ts"

fun retire :: "nat \<Rightarrow> task_id list \<Rightarrow> (task_id \<times> entry) list \<Rightarrow> task_id list \<times> (task_id \<times> entry) list" where
  "retire keep [] ts = ([], ts)"
| "retire keep (oldest # roots) ts =
     (if length (oldest # roots) > keep then retire keep roots (remove_subtree oldest ts)
      else (oldest # roots, ts))"

definition settle_entry :: "task_state \<Rightarrow> system_time \<Rightarrow> entry \<Rightarrow> entry" where
  "settle_entry state now e =
     e\<lparr>et_throttle := (et_throttle e)\<lparr>th_pending := False\<rparr>,
       et_info := (et_info e)\<lparr>ti_state := state, ti_settled := Some now\<rparr>\<rparr>"

definition settle :: "task_id \<Rightarrow> task_state \<Rightarrow> system_time \<Rightarrow> runtime \<Rightarrow> runtime" where
  "settle i state now rt =
     (case get_task rt i of
        None \<Rightarrow> rt
      | Some e \<Rightarrow>
          (let rt1 = (if th_pending (et_throttle e)
                      then send (Progressed i (ti_progress (et_info e))) rt else rt);
               rt2 = send (StateChanged i state) (edit_task i (settle_entry state now) rt1);
               rt3 = (case ti_parent (et_info e) of
                        Some p \<Rightarrow>
                          edit_task p lose_child rt2
                      | None \<Rightarrow>
                          map_registry (\<lambda>r.
                            (case retire (retained_roots (rt_config rt2)) (rg_settled_roots r @ [i]) (rg_tasks r) of
                               (roots, ts) \<Rightarrow> r\<lparr>rg_settled_roots := roots, rg_tasks := ts\<rparr>)) rt2)
           in notify_waiters rt3))"

text \<open>The pass of \<open>finish_children\<close>: done, or the live children cancelled and waited for.\<close>

definition finish_pass :: "task_id \<Rightarrow> runtime \<Rightarrow> bool \<times> runtime" where
  "finish_pass i rt =
     (case get_task rt i of
        None \<Rightarrow> (True, rt)
      | Some e \<Rightarrow>
          if et_live_children e = 0 then (True, rt)
          else (False, rt\<lparr>rt_cancelled := fold
                 (\<lambda>c C. case get_task rt c of
                          None \<Rightarrow> C
                        | Some ce \<Rightarrow> if is_terminal (et_state ce) then C else token_cancel (et_token ce) C)
                 (et_children e) (rt_cancelled rt)\<rparr>))"

section \<open>How a body's end settles the task\<close>

datatype 'o join = Joined "(io_error, 'o) result" | Panicked bytes

definition outcome_of :: "bool \<Rightarrow> 'o join \<Rightarrow> (task_error, 'o) result" where
  "outcome_of cancelled joined =
     (case joined of
        Joined (Inr output) \<Rightarrow> Ok output
      | Joined (Inl error) \<Rightarrow>
          if cancelled \<and> io_kind error = Io_Interrupted then Err TE_Cancelled
          else Err (TE_Failed error)
      | Panicked why \<Rightarrow> Err (TE_Failed (io_error_new Io_Other (''the task panicked: '' @ why))))"

definition state_of_outcome :: "(task_error, 'o) result \<Rightarrow> task_state" where
  "state_of_outcome out = (case out of Inr _ \<Rightarrow> Succeeded | Inl error \<Rightarrow> state_of error)"

section \<open>What the operations do to a task's entry\<close>

lemma map_of_map_entry [simp, alist_simps]:
  "map_of (AList.map_entry k f m) = (map_of m)(k := map_option f (map_of m k))"
  by (induction m) (auto simp: fun_eq_iff)

lemma get_map_registry: "get_task (map_registry f rt) i = map_of (rg_tasks (f (rt_registry rt))) i"
  by (simp add: get_task_def map_registry_def)

lemma get_edit_task [simp]:
  "get_task (edit_task i f rt) = (get_task rt)(i := map_option f (get_task rt i))"
  by (rule ext) (simp add: get_task_def edit_task_def map_registry_def)

lemma get_task_updates [simp]:
  "get_task (send ev rt) = get_task rt"
  "get_task (notify_waiters rt) = get_task rt"
  "get_task (rt\<lparr>rt_cancelled := C\<rparr>) = get_task rt"
  "get_task (rt\<lparr>rt_flushes := F\<rparr>) = get_task rt"
  by (auto simp: get_task_def send_def notify_waiters_def)

lemma updates_elsewhere [simp]:
  "rt_config (send ev rt) = rt_config rt" "rt_config (notify_waiters rt) = rt_config rt"
  "rt_config (edit_task i f rt) = rt_config rt" "rt_config (map_registry g rt) = rt_config rt"
  "rt_registry (send ev rt) = rt_registry rt" "rt_registry (notify_waiters rt) = rt_registry rt"
  "rt_registry (map_registry g rt) = g (rt_registry rt)"
  "rt_events (notify_waiters rt) = rt_events rt" "rt_events (edit_task i f rt) = rt_events rt"
  "rt_events (map_registry g rt) = rt_events rt" "rt_events (send ev rt) = rt_events rt @ [ev]"
  "rt_notifications (send ev rt) = rt_notifications rt"
  "rt_notifications (edit_task i f rt) = rt_notifications rt"
  "rt_notifications (map_registry g rt) = rt_notifications rt"
  "rt_notifications (notify_waiters rt) = rt_notifications rt + 1"
  "rt_cancelled (send ev rt) = rt_cancelled rt" "rt_cancelled (notify_waiters rt) = rt_cancelled rt"
  "rt_cancelled (edit_task i f rt) = rt_cancelled rt" "rt_cancelled (map_registry g rt) = rt_cancelled rt"
  "rt_flushes (send ev rt) = rt_flushes rt" "rt_flushes (notify_waiters rt) = rt_flushes rt"
  "rt_flushes (edit_task i f rt) = rt_flushes rt" "rt_flushes (map_registry g rt) = rt_flushes rt"
  by (simp_all add: send_def notify_waiters_def edit_task_def map_registry_def)

text \<open>The part of the registry admission looks at.\<close>

definition gate :: "registry \<Rightarrow> (resource_id \<times> resource) list \<times> (scope \<times> nat) list \<times> (scope \<times> nat list) list" where
  "gate r = (rg_resources r, rg_admitted r, rg_queues r)"

lemma gate_simps [simp]:
  "gate (r\<lparr>rg_tasks := t\<rparr>) = gate r" "gate (r\<lparr>rg_settled_roots := l\<rparr>) = gate r"
  "gate (r\<lparr>rg_next_seq := n\<rparr>) = gate r"
  by (simp_all add: gate_def)

lemma gate_edit_task [simp]: "gate (rt_registry (edit_task i f rt)) = gate (rt_registry rt)"
  by (simp add: edit_task_def)

lemma required_gate: "gate r = gate r' \<Longrightarrow> required r rs = required r' rs"
  by (induction rs) (auto simp: gate_def split: option.split resource_state.split)

lemma admission_gate: "gate r = gate r' \<Longrightarrow> admission r rs t c = admission r' rs t c"
  using required_gate [of r r' rs] by (auto simp: admission_def gate_def split: option.split)

end
