(* ===== verification/TaskDriver.thy ===== *)
theory TaskDriver
  imports TaskRegistry
begin

text \<open>
  \<open>src/task/runtime.rs\<close>, its drivers: every task has one, which admits it, runs its body, waits
  for its children and settles it. Drivers interleave at their awaits and at the registry's
  lock. A driver is the place it has reached in \<open>drive\<close> and \<open>admit\<close>; one step is one critical
  section, one wait that ends, or the body's end. The bodies, the clients and the clock are
  the environment.
\<close>

section \<open>Drivers\<close>

datatype phase =
    Entering                                  \<comment> \<open>the top of \<open>admit\<close>'s loop\<close>
  | Deciding nat                              \<comment> \<open>its wake-up enabled at that count\<close>
  | Queueing nat "resource_id option"         \<comment> \<open>decided to wait\<close>
  | Waiting nat                               \<comment> \<open>in \<open>select!\<close>\<close>
  | Admitted                                  \<comment> \<open>holds its place, has not told the others\<close>
  | Leaving task_error                        \<comment> \<open>\<open>admit\<close> returned an error\<close>
  | Starting
  | Body
  | Joining                                   \<comment> \<open>cancelled, awaiting the body\<close>
  | Dropping "unit join"                      \<comment> \<open>the body ended; the place still held\<close>
  | Finishing "unit join"                     \<comment> \<open>the top of \<open>finish_children\<close>'s loop\<close>
  | Finish_check nat "unit join"
  | Finish_wait nat "unit join"
  | Concluding "unit join"
  | Settling task_state
  | Done

record driver =
  dv_requires :: "resource_id list"
  dv_ticket :: ticket
  dv_token :: token
  dv_parent :: "task_id option"
  dv_phase :: phase

record sys =
  sy_rt :: runtime
  sy_drivers :: "task_id \<Rightarrow> driver option"

definition sys_new :: "config \<Rightarrow> sys" where
  "sys_new c = \<lparr>sy_rt = runtime_new c, sy_drivers = (\<lambda>_. None)\<rparr>"

text \<open>One step of the driver of task \<open>i\<close>, made from the runtime and its phase.\<close>

inductive drive :: "task_id \<Rightarrow> driver \<Rightarrow> runtime \<Rightarrow> phase \<Rightarrow> runtime \<Rightarrow> phase \<Rightarrow> bool"
  for i :: task_id and d :: driver where
  dr_enable: "drive i d rt Entering rt (Deciding (rt_notifications rt))"
| dr_admit: "try_admit (dv_requires d) (dv_ticket d) rt = (Admit, rt') \<Longrightarrow>
    drive i d rt (Deciding n) rt' Admitted"
| dr_refuse: "try_admit (dv_requires d) (dv_ticket d) rt = (Fail e, rt') \<Longrightarrow>
    drive i d rt (Deciding n) rt' (Leaving (TE_Failed e))"
| dr_wait: "try_admit (dv_requires d) (dv_ticket d) rt = (Wait on, rt') \<Longrightarrow>
    drive i d rt (Deciding n) rt' (Queueing n on)"
| dr_queue: "drive i d rt (Queueing n on) (set_queued i on rt) (Waiting n)"
| dr_wake: "n < rt_notifications rt \<Longrightarrow> drive i d rt (Waiting n) rt Entering"
| dr_cancelled: "is_cancelled (rt_cancelled rt) (dv_token d) \<Longrightarrow>
    drive i d rt (Waiting n) rt (Leaving TE_Cancelled)"
| dr_tell: "drive i d rt Admitted (if tk_queued (dv_ticket d) then notify_waiters rt else rt) Starting"
| dr_leave: "drive i d rt (Leaving error)
    (if tk_queued (dv_ticket d) then leave_queue (dv_ticket d) rt else rt) (Settling (state_of error))"
| dr_start: "drive i d rt Starting (set_state i Running rt) Body"
| dr_body: "drive i d rt Body rt (Dropping joined)"
| dr_cancelling: "is_cancelled (rt_cancelled rt) (dv_token d) \<Longrightarrow>
    drive i d rt Body (set_state i Cancelling rt) Joining"
| dr_joined: "drive i d rt Joining rt (Dropping joined)"
| dr_drop: "drive i d rt (Dropping joined)
    (if tk_queued (dv_ticket d) then drop_slot (tk_scope (dv_ticket d)) rt else rt) (Finishing joined)"
| dr_finish: "drive i d rt (Finishing joined) rt (Finish_check (rt_notifications rt) joined)"
| dr_children_done: "finish_pass i rt = (True, rt') \<Longrightarrow>
    drive i d rt (Finish_check n joined) rt' (Concluding joined)"
| dr_children_live: "finish_pass i rt = (False, rt') \<Longrightarrow>
    drive i d rt (Finish_check n joined) rt' (Finish_wait n joined)"
| dr_finish_wake: "n < rt_notifications rt \<Longrightarrow>
    drive i d rt (Finish_wait n joined) rt (Finishing joined)"
| dr_conclude: "drive i d rt (Concluding joined) rt
    (Settling (state_of_outcome (outcome_of (is_cancelled (rt_cancelled rt) (dv_token d)) joined)))"
| dr_settle: "drive i d rt (Settling state) (settle i state now rt) Done"

text \<open>A body reaches the runtime through its context only while it runs.\<close>

definition body_runs :: "sys \<Rightarrow> task_id \<Rightarrow> bool" where
  "body_runs s i \<longleftrightarrow> (\<exists>d. sy_drivers s i = Some d \<and> dv_phase d \<in> {Body, Joining})"

definition new_driver :: "resource_id list \<Rightarrow> ticket \<Rightarrow> token \<Rightarrow> task_id option \<Rightarrow> driver" where
  "new_driver requires ticket token parent =
     \<lparr>dv_requires = requires, dv_ticket = ticket, dv_token = token, dv_parent = parent,
      dv_phase = Entering\<rparr>"

text \<open>A step of the whole: of a driver, of a client, of a running body, or of a scheduled flush.\<close>

inductive step :: "sys \<Rightarrow> sys \<Rightarrow> bool" where
  st_drive: "sy_drivers s i = Some d \<Longrightarrow> drive i d (sy_rt s) (dv_phase d) rt ph \<Longrightarrow>
    step s \<lparr>sy_rt = rt, sy_drivers = (sy_drivers s)(i \<mapsto> d\<lparr>dv_phase := ph\<rparr>)\<rparr>"
| st_submit: "sy_drivers s i = None \<Longrightarrow> submit i desc requires now (sy_rt s) = (ticket, rt) \<Longrightarrow>
    step s \<lparr>sy_rt = rt,
            sy_drivers = (sy_drivers s)(i \<mapsto> new_driver requires ticket (token_new i) None)\<rparr>"
| st_spawn: "sy_drivers s i = None \<Longrightarrow> body_runs s p \<Longrightarrow> sy_drivers s p = Some pd \<Longrightarrow>
    submit_child p (dv_token pd) i desc requires now (sy_rt s) = (ticket, rt) \<Longrightarrow>
    step s \<lparr>sy_rt = rt,
            sy_drivers = (sy_drivers s)(i \<mapsto> new_driver requires ticket (child_token (dv_token pd) i) (Some p))\<rparr>"
| st_progress: "body_runs s i \<Longrightarrow> step s (s\<lparr>sy_rt := report_progress i pr now (sy_rt s)\<rparr>)"
| st_flush: "(i, due) \<in> set (rt_flushes (sy_rt s)) \<Longrightarrow> due \<le> now \<Longrightarrow>
    step s (s\<lparr>sy_rt := flush_progress i now ((sy_rt s)\<lparr>rt_flushes := remove1 (i, due) (rt_flushes (sy_rt s))\<rparr>)\<rparr>)"
| st_cancel: "step s (s\<lparr>sy_rt := cancel i (sy_rt s)\<rparr>)"
| st_cancel_all: "step s (s\<lparr>sy_rt := cancel_all (sy_rt s)\<rparr>)"
| st_add_resource: "map_of (rg_resources (rt_registry (sy_rt s))) r = None \<Longrightarrow>
    step s (s\<lparr>sy_rt := add_resource r rs (sy_rt s)\<rparr>)"
| st_set_resource: "step s (s\<lparr>sy_rt := set_resource_state r rs (sy_rt s)\<rparr>)"
| st_ready_resource: "step s (s\<lparr>sy_rt := set_resource_ready r v (sy_rt s)\<rparr>)"

inductive reachable :: "config \<Rightarrow> sys \<Rightarrow> bool" for c :: config where
  reachable_new: "reachable c (sys_new c)"
| reachable_step: "reachable c s \<Longrightarrow> step s s' \<Longrightarrow> reachable c s'"

inductive_cases stepE [consumes 1]: "step s s'"

end
