(* ===== verification/TaskTree.thy ===== *)
theory TaskTree
  imports TaskDriver
begin

text \<open>
  The tree of tasks and their lifecycle: every reachable state's registry agrees with its
  drivers, a parent's count of live children is true, a settled task has only settled
  descendants, and what retention evicts is a settled root with its whole subtree.
\<close>

section \<open>The invariant\<close>

fun phase_state :: "phase \<Rightarrow> task_state \<Rightarrow> bool" where
  "phase_state Body st = (st = Running)"
| "phase_state Joining st = (st = Cancelling)"
| "phase_state (Dropping _) st = (st = Running \<or> st = Cancelling)"
| "phase_state (Finishing _) st = (st = Running \<or> st = Cancelling)"
| "phase_state (Finish_check _ _) st = (st = Running \<or> st = Cancelling)"
| "phase_state (Finish_wait _ _) st = (st = Running \<or> st = Cancelling)"
| "phase_state (Concluding _) st = (st = Running \<or> st = Cancelling)"
| "phase_state (Settling end_state) st = (\<not> is_terminal st \<and> is_terminal end_state)"
| "phase_state Done st = is_terminal st"
| "phase_state _ st = (\<exists>w. st = Queued w)"

text \<open>Before the body there are no children; from its conclusion on there are no live ones.\<close>

fun before_body :: "phase \<Rightarrow> bool" where
  "before_body Entering = True"
| "before_body (Deciding _) = True"
| "before_body (Queueing _ _) = True"
| "before_body (Waiting _) = True"
| "before_body Admitted = True"
| "before_body (Leaving _) = True"
| "before_body Starting = True"
| "before_body _ = False"

fun after_children :: "phase \<Rightarrow> bool" where
  "after_children (Concluding _) = True"
| "after_children (Settling _) = True"
| "after_children Done = True"
| "after_children _ = False"

type_synonym task_map = "task_id \<Rightarrow> entry option"

abbreviation et_parent :: "entry \<Rightarrow> task_id option" where
  "et_parent e \<equiv> ti_parent (et_info e)"

definition live :: "task_map \<Rightarrow> task_id \<Rightarrow> bool" where
  "live T i \<longleftrightarrow> (\<exists>e. T i = Some e \<and> \<not> is_terminal (et_state e))"

definition phase_ok :: "phase \<Rightarrow> entry \<Rightarrow> bool" where
  "phase_ok ph e \<longleftrightarrow> phase_state ph (et_state e)
     \<and> (before_body ph \<longrightarrow> et_children e = []) \<and> (after_children ph \<longrightarrow> et_live_children e = 0)"

definition counted :: "task_map \<Rightarrow> entry \<Rightarrow> bool" where
  "counted T e \<longleftrightarrow> distinct (et_children e)
     \<and> et_live_children e = length (filter (live T) (et_children e))"

definition driven :: "(task_id \<Rightarrow> driver option) \<Rightarrow> task_id \<Rightarrow> entry \<Rightarrow> bool" where
  "driven D i e \<longleftrightarrow> (\<exists>d. D i = Some d \<and> et_token e = dv_token d \<and> et_parent e = dv_parent d
     \<and> phase_ok (dv_phase d) e)"

definition tree_inv :: "task_map \<Rightarrow> (task_id \<Rightarrow> driver option) \<Rightarrow> bool" where
  "tree_inv T D \<longleftrightarrow>
     (\<forall>i e. T i = Some e \<longrightarrow> driven D i e \<and> counted T e)
   \<and> (\<forall>i d. D i = Some d \<and> dv_phase d \<noteq> Done \<longrightarrow> T i \<noteq> None)
   \<and> (\<forall>p e c. T p = Some e \<and> c \<in> set (et_children e) \<longrightarrow> (\<exists>ce. T c = Some ce \<and> et_parent ce = Some p))
   \<and> (\<forall>c ce p. T c = Some ce \<and> et_parent ce = Some p \<longrightarrow> (\<exists>e. T p = Some e \<and> c \<in> set (et_children e)))"

lemma tree_invI:
  assumes "\<And>i e. T i = Some e \<Longrightarrow> driven D i e" and "\<And>i e. T i = Some e \<Longrightarrow> counted T e"
    and "\<And>i d. D i = Some d \<Longrightarrow> dv_phase d \<noteq> Done \<Longrightarrow> T i \<noteq> None"
    and "\<And>p e c. T p = Some e \<Longrightarrow> c \<in> set (et_children e) \<Longrightarrow> \<exists>ce. T c = Some ce \<and> et_parent ce = Some p"
    and "\<And>c ce p. T c = Some ce \<Longrightarrow> et_parent ce = Some p \<Longrightarrow> \<exists>e. T p = Some e \<and> c \<in> set (et_children e)"
  shows "tree_inv T D"
  unfolding tree_inv_def using assms by blast

lemma tree_inv_driven: "tree_inv T D \<Longrightarrow> T i = Some e \<Longrightarrow> driven D i e"
  by (simp add: tree_inv_def)

lemma tree_inv_counted: "tree_inv T D \<Longrightarrow> T i = Some e \<Longrightarrow> counted T e"
  by (simp add: tree_inv_def)

lemma tree_inv_known: "tree_inv T D \<Longrightarrow> D i = Some d \<Longrightarrow> dv_phase d \<noteq> Done \<Longrightarrow> \<exists>e. T i = Some e"
  by (auto simp: tree_inv_def)

lemma tree_inv_child:
  "tree_inv T D \<Longrightarrow> T p = Some e \<Longrightarrow> c \<in> set (et_children e) \<Longrightarrow> \<exists>ce. T c = Some ce \<and> et_parent ce = Some p"
  by (simp add: tree_inv_def)

lemma tree_inv_parent:
  "tree_inv T D \<Longrightarrow> T c = Some ce \<Longrightarrow> et_parent ce = Some p \<Longrightarrow> \<exists>e. T p = Some e \<and> c \<in> set (et_children e)"
  by (simp add: tree_inv_def)

lemma tree_inv_phase:
  assumes "tree_inv T D" "T i = Some e" "D i = Some d"
  shows "phase_ok (dv_phase d) e" "et_token e = dv_token d" "et_parent e = dv_parent d"
  using tree_inv_driven [OF assms(1,2)] assms(3) by (auto simp: driven_def)

text \<open>A task is settled exactly when its driver is done; all its children are then settled.\<close>

lemma settled_iff_done:
  assumes "tree_inv T D" "T i = Some e" "D i = Some d"
  shows "is_terminal (et_state e) \<longleftrightarrow> dv_phase d = Done"
  using tree_inv_phase(1) [OF assms] by (cases "dv_phase d") (auto simp: phase_ok_def)

lemma settled_children:
  assumes "tree_inv T D" "T p = Some e" "is_terminal (et_state e)" "c \<in> set (et_children e)"
  shows "\<exists>ce. T c = Some ce \<and> is_terminal (et_state ce)"
proof -
  obtain d where "D p = Some d" using tree_inv_driven [OF assms(1,2)] by (auto simp: driven_def)
  with assms settled_iff_done tree_inv_phase(1) have "et_live_children e = 0"
    by (fastforce simp: phase_ok_def)
  with tree_inv_counted [OF assms(1,2)] assms(4) have "\<not> live T c"
    by (auto simp: counted_def filter_empty_conv)
  with tree_inv_child [OF assms(1,2,4)] show ?thesis by (auto simp: live_def)
qed

section \<open>An entry edited in place\<close>

definition same_shape :: "entry \<Rightarrow> entry \<Rightarrow> bool" where
  "same_shape e e' \<longleftrightarrow> et_children e' = et_children e \<and> et_live_children e' = et_live_children e
     \<and> et_token e' = et_token e \<and> et_parent e' = et_parent e
     \<and> is_terminal (et_state e') = is_terminal (et_state e)"

lemma live_edit: "T i = Some e \<Longrightarrow> same_shape e e' \<Longrightarrow> live (T(i \<mapsto> e')) = live T"
  by (rule ext) (auto simp: live_def same_shape_def)

lemma tree_inv_edit:
  assumes inv: "tree_inv T D" and i: "T i = Some e" "D i = Some d" and shape: "same_shape e e'"
    and ph: "phase_ok ph e'" and d': "d' = d\<lparr>dv_phase := ph\<rparr>"
  shows "tree_inv (T(i \<mapsto> e')) (D(i \<mapsto> d'))"
proof (rule tree_invI)
  fix j x assume "(T(i \<mapsto> e')) j = Some x"
  then show "driven (D(i \<mapsto> d')) j x"
    using tree_inv_driven [OF inv] tree_inv_phase [OF inv i] shape ph i d'
    by (cases "j = i") (auto simp: driven_def same_shape_def)
next
  fix j x assume x: "(T(i \<mapsto> e')) j = Some x"
  have "counted T e" using tree_inv_counted [OF inv i(1)] .
  with x shape tree_inv_counted [OF inv] show "counted (T(i \<mapsto> e')) x"
    unfolding counted_def live_edit [of T i e e', OF i(1) shape] by (auto simp: same_shape_def split: if_splits)
next
  fix j y assume "(D(i \<mapsto> d')) j = Some y" "dv_phase y \<noteq> Done"
  with tree_inv_known [OF inv] show "(T(i \<mapsto> e')) j \<noteq> None" by (auto split: if_splits)
next
  fix p x c assume "(T(i \<mapsto> e')) p = Some x" "c \<in> set (et_children x)"
  then obtain y where "T p = Some y" "c \<in> set (et_children y)"
    using i shape by (auto simp: same_shape_def split: if_splits)
  from tree_inv_child [OF inv this] shape i
  show "\<exists>ce. (T(i \<mapsto> e')) c = Some ce \<and> et_parent ce = Some p" by (auto simp: same_shape_def)
next
  fix c ce p assume "(T(i \<mapsto> e')) c = Some ce" "et_parent ce = Some p"
  then obtain y where "T c = Some y" "et_parent y = Some p"
    using i shape by (auto simp: same_shape_def split: if_splits)
  from tree_inv_parent [OF inv this] shape i
  show "\<exists>x. (T(i \<mapsto> e')) p = Some x \<and> c \<in> set (et_children x)" by (auto simp: same_shape_def)
qed

lemma tree_inv_phase_step:
  assumes "tree_inv T D" "D i = Some d" "T i = Some e" "phase_ok ph e"
  shows "tree_inv T (D(i \<mapsto> d\<lparr>dv_phase := ph\<rparr>))"
proof -
  have "T(i \<mapsto> e) = T" using assms(3) by auto
  with tree_inv_edit [OF assms(1,3,2) _ assms(4) refl] show ?thesis
    by (simp add: same_shape_def)
qed

section \<open>A new task\<close>

definition blank_entry :: "task_id option \<Rightarrow> entry \<Rightarrow> bool" where
  "blank_entry parent e \<longleftrightarrow> et_children e = [] \<and> et_live_children e = 0 \<and> et_parent e = parent
     \<and> et_state e = Queued None"

lemma add_child_simps [simp]:
  "et_children (add_child i e) = et_children e @ [i]"
  "et_live_children (add_child i e) = et_live_children e + 1"
  "et_info (add_child i e) = et_info e" "et_token (add_child i e) = et_token e"
  by (simp_all add: add_child_def)

lemma tree_inv_new: "tree_inv T D \<Longrightarrow> D i = None \<Longrightarrow> T i = None"
  using tree_inv_driven [of T D i] by (cases "T i") (auto simp: driven_def)

lemma tree_inv_submit:
  assumes inv: "tree_inv T D" and new: "D i = None" and e: "blank_entry None e"
    and d: "dv_phase d = Entering" "dv_parent d = None" "dv_token d = et_token e"
  shows "tree_inv (T(i \<mapsto> e)) (D(i \<mapsto> d))"
proof -
  have Ti: "T i = None" by (rule tree_inv_new [OF inv new])
  have away: "i \<notin> set (et_children x)" if "T p = Some x" for p x
    using tree_inv_child [OF inv that, of i] Ti by auto
  have lv: "filter (live (T(i \<mapsto> e))) (et_children x) = filter (live T) (et_children x)" if "T p = Some x" for p x
    using away [OF that] by (intro filter_cong) (auto simp: live_def)
  show ?thesis
  proof (rule tree_invI)
    fix j x assume x: "(T(i \<mapsto> e)) j = Some x"
    show "driven (D(i \<mapsto> d)) j x"
      using x tree_inv_driven [OF inv] e d by (auto simp: driven_def blank_entry_def phase_ok_def split: if_splits)
    show "counted (T(i \<mapsto> e)) x"
    proof (cases "j = i")
      case True
      with x e show ?thesis by (simp add: counted_def blank_entry_def)
    next
      case False
      with x have "T j = Some x" by simp
      with lv tree_inv_counted [OF inv this] show ?thesis by (simp add: counted_def)
    qed
  next
    fix j y assume "(D(i \<mapsto> d)) j = Some y" "dv_phase y \<noteq> Done"
    with tree_inv_known [OF inv] show "(T(i \<mapsto> e)) j \<noteq> None" by (auto split: if_splits)
  next
    fix p x c assume x: "(T(i \<mapsto> e)) p = Some x" "c \<in> set (et_children x)"
    with e have "T p = Some x" by (auto simp: blank_entry_def split: if_splits)
    from tree_inv_child [OF inv this x(2)] away [OF this] x(2)
    show "\<exists>ce. (T(i \<mapsto> e)) c = Some ce \<and> et_parent ce = Some p" by auto
  next
    fix c ce p assume c: "(T(i \<mapsto> e)) c = Some ce" "et_parent ce = Some p"
    with e have "T c = Some ce" by (auto simp: blank_entry_def split: if_splits)
    from tree_inv_parent [OF inv this c(2)] Ti
    show "\<exists>x. (T(i \<mapsto> e)) p = Some x \<and> c \<in> set (et_children x)" by auto
  qed
qed

lemma tree_inv_spawn:
  assumes inv: "tree_inv T D" and new: "D i = None" and e: "blank_entry (Some p) e"
    and d: "dv_phase d = Entering" "dv_parent d = Some p" "dv_token d = et_token e"
    and p: "T p = Some pe" "D p = Some pd" "dv_phase pd \<in> {Body, Joining}"
  shows "tree_inv (T(p \<mapsto> add_child i pe, i \<mapsto> e)) (D(i \<mapsto> d))"
proof -
  let ?T = "T(p \<mapsto> add_child i pe, i \<mapsto> e)"
  have Ti: "T i = None" by (rule tree_inv_new [OF inv new])
  have pi: "p \<noteq> i" using p Ti by auto
  have away: "i \<notin> set (et_children x)" if "T q = Some x" for q x
    using tree_inv_child [OF inv that, of i] Ti by auto
  have lv: "filter (live ?T) (et_children x) = filter (live T) (et_children x)" if "T q = Some x" for q x
    using away [OF that] p(1) by (intro filter_cong) (auto simp: live_def)
  show ?thesis
  proof (rule tree_invI)
    fix j x assume x: "?T j = Some x"
    show "driven (D(i \<mapsto> d)) j x"
      using x tree_inv_driven [OF inv] tree_inv_phase [OF inv p(1,2)] p e d pi
      by (auto simp: driven_def blank_entry_def phase_ok_def split: if_splits)
    show "counted ?T x"
    proof (cases "j = i")
      case True
      with x e show ?thesis by (simp add: counted_def blank_entry_def)
    next
      case False
      have "live ?T i" using e by (simp add: live_def blank_entry_def)
      with False x lv tree_inv_counted [OF inv] p(1) away show ?thesis
        by (auto simp: counted_def split: if_splits)
    qed
  next
    fix j y assume "(D(i \<mapsto> d)) j = Some y" "dv_phase y \<noteq> Done"
    with tree_inv_known [OF inv] show "?T j \<noteq> None" by (auto split: if_splits)
  next
    fix q x c assume x: "?T q = Some x" "c \<in> set (et_children x)"
    show "\<exists>ce. ?T c = Some ce \<and> et_parent ce = Some q"
    proof (cases "q = p \<and> c = i")
      case True
      with e show ?thesis by (simp add: blank_entry_def)
    next
      case False
      with x e pi p(1) obtain y where y: "T q = Some y" "c \<in> set (et_children y)"
        by (auto simp: blank_entry_def split: if_splits)
      from tree_inv_child [OF inv y] away [OF y(1)] y(2) p(1) show ?thesis by auto
    qed
  next
    fix c ce q assume c: "?T c = Some ce" "et_parent ce = Some q"
    show "\<exists>x. ?T q = Some x \<and> c \<in> set (et_children x)"
    proof (cases "c = i")
      case True
      with c e pi show ?thesis by (auto simp: blank_entry_def)
    next
      case False
      with c p(1) obtain y where "T c = Some y" "et_parent y = Some q" by (auto split: if_splits)
      from tree_inv_parent [OF inv this] Ti p(1) show ?thesis by auto
    qed
  qed
qed

section \<open>Settling\<close>

lemma lose_child_simps [simp]:
  "et_children (lose_child e) = et_children e"
  "et_live_children (lose_child e) = et_live_children e - 1"
  "et_info (lose_child e) = et_info e" "et_token (lose_child e) = et_token e"
  by (simp_all add: lose_child_def)

lemma settle_entry_simps [simp]:
  "et_children (settle_entry st now e) = et_children e"
  "et_live_children (settle_entry st now e) = et_live_children e"
  "et_state (settle_entry st now e) = st" "et_parent (settle_entry st now e) = et_parent e"
  "et_token (settle_entry st now e) = et_token e" "et_seq (settle_entry st now e) = et_seq e"
  by (simp_all add: settle_entry_def)

definition settled_map :: "task_map \<Rightarrow> task_id \<Rightarrow> entry \<Rightarrow> task_map" where
  "settled_map T i e' =
     (case et_parent e' of None \<Rightarrow> T(i \<mapsto> e')
      | Some p \<Rightarrow> (T(i \<mapsto> e'))(p := map_option lose_child ((T(i \<mapsto> e')) p)))"

lemma parent_not_self:
  assumes "tree_inv T D" "T i = Some e" "D i = Some d" "dv_phase d = Settling st" "et_parent e = Some p"
  shows "p \<noteq> i"
proof
  assume "p = i"
  with assms tree_inv_parent have "i \<in> set (et_children e)" by fastforce
  moreover from tree_inv_phase(1) [OF assms(1,2,3)] assms(4)
  have "et_live_children e = 0" "\<not> is_terminal (et_state e)" by (auto simp: phase_ok_def)
  ultimately show False
    using tree_inv_counted [OF assms(1,2)] assms(2) by (auto simp: counted_def filter_empty_conv live_def)
qed

lemma filter_lose:
  assumes "distinct xs" "P i" "\<And>x. x \<noteq> i \<Longrightarrow> Q x = P x" "\<not> Q i"
  shows "length (filter Q xs) = length (filter P xs) - (if i \<in> set xs then 1 else 0)"
  using assms(1)
proof (induction xs)
  case (Cons x xs)
  show ?case
  proof (cases "x = i")
    case True
    with Cons.prems have "i \<notin> set xs" by simp
    then have "filter Q xs = filter P xs" using assms(3) by (metis (mono_tags, lifting) filter_cong)
    with True assms show ?thesis by simp
  next
    case False
    have "i \<in> set xs \<Longrightarrow> length (filter P xs) > 0"
      using assms(2) by (auto simp: filter_empty_conv)
    with False Cons assms(3) show ?thesis by auto
  qed
qed simp

lemma tree_inv_settle:
  assumes inv: "tree_inv T D" and i: "T i = Some e" "D i = Some d" "dv_phase d = Settling st"
    and st: "is_terminal st"
  shows "tree_inv (settled_map T i (settle_entry st now e)) (D(i \<mapsto> d\<lparr>dv_phase := Done\<rparr>))"
    (is "tree_inv ?T ?D")
proof -
  let ?e = "settle_entry st now e"
  have ok: "et_live_children e = 0" "\<not> is_terminal (et_state e)"
    using tree_inv_phase(1) [OF inv i(1,2)] i(3) by (auto simp: phase_ok_def)
  note self = parent_not_self [OF inv i]
  have at_i: "?T i = Some ?e" using self by (auto simp: settled_map_def split: option.splits)
  have shape: "\<exists>y. T j = Some y \<and> et_children x = et_children y \<and> et_parent x = et_parent y
      \<and> et_token x = et_token y \<and> (j \<noteq> i \<longrightarrow> et_info x = et_info y)
      \<and> et_live_children x = et_live_children y - (if et_parent e = Some j then 1 else 0)"
    if "?T j = Some x" for j x
    using that i self by (auto simp: settled_map_def split: option.splits if_splits)
  have kept: "\<exists>x. ?T j = Some x \<and> et_children x = et_children y \<and> et_parent x = et_parent y"
    if "T j = Some y" for j y
    using that i self by (auto simp: settled_map_def split: option.splits if_splits)
  have alive: "live ?T j = (if j = i then False else live T j)" for j
    using i self st by (auto simp: live_def settled_map_def split: option.splits)
  have alive_i: "live T i" using ok i by (simp add: live_def)
  have child: "i \<in> set (et_children y) \<longleftrightarrow> et_parent e = Some j" if "T j = Some y" for j y
    using tree_inv_child [OF inv that] tree_inv_parent [OF inv i(1)] i(1) that by fastforce
  show ?thesis
  proof (rule tree_invI)
    fix j x assume x: "?T j = Some x"
    from shape [OF x] obtain y where y: "T j = Some y" "et_children x = et_children y"
      "et_parent x = et_parent y" "et_token x = et_token y" "j \<noteq> i \<longrightarrow> et_info x = et_info y"
      "et_live_children x = et_live_children y - (if et_parent e = Some j then 1 else 0)" by blast
    show "driven ?D j x"
    proof (cases "j = i")
      case True
      with x at_i st ok i tree_inv_phase [OF inv i(1,2)] show ?thesis
        by (auto simp: driven_def phase_ok_def)
    next
      case False
      with y tree_inv_driven [OF inv y(1)] show ?thesis by (auto simp: driven_def phase_ok_def)
    qed
    have "counted T y" by (rule tree_inv_counted [OF inv y(1)])
    moreover from this have "length (filter (live ?T) (et_children y))
        = length (filter (live T) (et_children y)) - (if i \<in> set (et_children y) then 1 else 0)"
      by (intro filter_lose) (auto simp: alive alive_i counted_def)
    ultimately show "counted ?T x" using y child [OF y(1)] by (auto simp: counted_def)
  next
    fix j y assume "?D j = Some y" "dv_phase y \<noteq> Done"
    with tree_inv_known [OF inv] kept show "?T j \<noteq> None" by (auto split: if_splits; blast)
  next
    fix p x c assume x: "?T p = Some x" "c \<in> set (et_children x)"
    from shape [OF x(1)] x(2) obtain y where "T p = Some y" "c \<in> set (et_children y)" by auto
    from tree_inv_child [OF inv this] kept show "\<exists>ce. ?T c = Some ce \<and> et_parent ce = Some p"
      by metis
  next
    fix c ce p assume c: "?T c = Some ce" "et_parent ce = Some p"
    from shape [OF c(1)] c(2) obtain y where "T c = Some y" "et_parent y = Some p" by auto
    from tree_inv_parent [OF inv this] kept show "\<exists>x. ?T p = Some x \<and> c \<in> set (et_children x)"
      by metis
  qed
qed

section \<open>Eviction\<close>

lemma remove_subtrees_facts:
  "(map_of (remove_subtrees is ts) j = None \<or> map_of (remove_subtrees is ts) j = map_of ts j)
   \<and> (j \<in> set is \<longrightarrow> map_of (remove_subtrees is ts) j = None)"
proof (induction "is" ts arbitrary: j rule: remove_subtrees.induct)
  case (2 i rest ts)
  show ?case
  proof (cases "map_of ts i")
    case None
    from 2(1) [OF None, of j] 2(1) [OF None, of i] None show ?thesis by auto
  next
    case (Some e)
    from 2(2) [OF Some, of j] 2(2) [OF Some, of i] Some show ?thesis by auto
  qed
qed simp

lemma remove_subtrees_down:
  "map_of ts j = Some e \<Longrightarrow> map_of (remove_subtrees is ts) j = None \<Longrightarrow> c \<in> set (et_children e)
     \<Longrightarrow> map_of (remove_subtrees is ts) c = None"
proof (induction "is" ts arbitrary: j e c rule: remove_subtrees.induct)
  case (2 i rest ts)
  show ?case
  proof (cases "map_of ts i")
    case None
    with 2 show ?thesis by auto
  next
    case (Some ie)
    show ?thesis
    proof (cases "j = i")
      case True
      with Some 2 remove_subtrees_facts [of "et_children ie @ rest" "AList.delete i ts" c]
      show ?thesis by auto
    next
      case False
      with 2(3) have "map_of (AList.delete i ts) j = Some e" by simp
      from 2(2) [OF Some this] 2(4,5) Some show ?thesis by simp
    qed
  qed
qed simp

lemma remove_subtrees_outside:
  "set is \<subseteq> S \<Longrightarrow> (\<And>k e. k \<in> S \<Longrightarrow> map_of ts k = Some e \<Longrightarrow> set (et_children e) \<subseteq> S) \<Longrightarrow>
     j \<notin> S \<Longrightarrow> map_of (remove_subtrees is ts) j = map_of ts j"
proof (induction "is" ts arbitrary: j rule: remove_subtrees.induct)
  case (2 i rest ts)
  show ?case
  proof (cases "map_of ts i")
    case None
    with 2 show ?thesis by simp
  next
    case (Some ie)
    have "map_of (remove_subtrees (et_children ie @ rest) (AList.delete i ts)) j
        = map_of (AList.delete i ts) j"
      using 2(3,4,5) Some by (intro 2(2) [OF Some]) (auto split: if_splits)
    with 2(3,5) Some show ?thesis by auto
  qed
qed simp

text \<open>Evicting a settled root keeps the tree, and keeps the other roots.\<close>

definition root :: "task_map \<Rightarrow> task_id \<Rightarrow> bool" where
  "root T i \<longleftrightarrow> (\<exists>e. T i = Some e \<and> et_parent e = None \<and> is_terminal (et_state e))"

lemma evict:
  assumes inv: "tree_inv (map_of ts) D" and old: "root (map_of ts) old"
  shows "tree_inv (map_of (remove_subtree old ts)) D"
    and "root (map_of (remove_subtree old ts)) j \<longleftrightarrow> root (map_of ts) j \<and> j \<noteq> old"
    and "map_of ts j = Some e \<Longrightarrow> \<not> is_terminal (et_state e) \<Longrightarrow> map_of (remove_subtree old ts) j = Some e"
    and "map_of (remove_subtree old ts) j = None \<or> map_of (remove_subtree old ts) j = map_of ts j"
proof -
  let ?T = "map_of ts" and ?U = "map_of (remove_subtree old ts)"
  have sub: "?U j = None \<or> ?U j = ?T j" for j
    using remove_subtrees_facts [of "[old]" ts j] by (auto simp: remove_subtree_def)
  show "?U j = None \<or> ?U j = ?T j" by (rule sub)
  have gone: "?U old = None"
    using remove_subtrees_facts [of "[old]" ts old] by (auto simp: remove_subtree_def)
  have down: "?U c = None" if "?T j = Some e" "?U j = None" "c \<in> set (et_children e)" for j e c
    using remove_subtrees_down [OF that(1) that(2) [unfolded remove_subtree_def] that(3)]
    by (simp only: remove_subtree_def)
  have outside: "?U j = ?T j"
    if "old \<in> S" "\<And>k e. k \<in> S \<Longrightarrow> ?T k = Some e \<Longrightarrow> set (et_children e) \<subseteq> S" "j \<notin> S" for S j
    using remove_subtrees_outside [of "[old]" S ts j] that by (simp add: remove_subtree_def)
  have terminal: "is_terminal (et_state e)" if "?T j = Some e" "?U j = None" for j e
  proof (rule ccontr)
    assume live: "\<not> is_terminal (et_state e)"
    have "?U j = ?T j"
    proof (rule outside [of "{k. \<forall>e. ?T k = Some e \<longrightarrow> is_terminal (et_state e)}"])
      fix k x assume k: "k \<in> {k. \<forall>e. ?T k = Some e \<longrightarrow> is_terminal (et_state e)}" "?T k = Some x"
      show "set (et_children x) \<subseteq> {k. \<forall>e. ?T k = Some e \<longrightarrow> is_terminal (et_state e)}"
        using settled_children [OF inv k(2)] k by fastforce
    qed (use old live that in \<open>auto simp: root_def\<close>)
    with that show False by simp
  qed
  then show "?T j = Some e \<Longrightarrow> \<not> is_terminal (et_state e) \<Longrightarrow> ?U j = Some e" using sub [of j] by auto
  have up: "\<exists>p. et_parent e = Some p \<and> ?U p = None" if "?T j = Some e" "?U j = None" "j \<noteq> old" for j e
  proof (rule ccontr)
    assume no: "\<nexists>p. et_parent e = Some p \<and> ?U p = None"
    let ?S = "{k. ?U k = None} - {j}"
    have "?U j = ?T j"
    proof (rule outside [of ?S])
      fix k x assume k: "k \<in> ?S" "?T k = Some x"
      have "j \<notin> set (et_children x)" using tree_inv_child [OF inv k(2), of j] no k that by auto
      with down [OF k(2)] k show "set (et_children x) \<subseteq> ?S" by auto
    qed (use gone that in auto)
    with that show False by simp
  qed
  show "root ?U j \<longleftrightarrow> root ?T j \<and> j \<noteq> old"
  proof
    assume "root ?U j" with sub [of j] gone show "root ?T j \<and> j \<noteq> old" by (auto simp: root_def)
  next
    assume r: "root ?T j \<and> j \<noteq> old"
    then obtain e where "?T j = Some e" "et_parent e = None" by (auto simp: root_def)
    with up [of j e] r have "?U j \<noteq> None" by fastforce
    with sub [of j] r show "root ?U j" by (auto simp: root_def)
  qed
  show "tree_inv ?U D"
  proof (rule tree_invI)
    fix i e assume U: "?U i = Some e"
    with sub [of i] have T: "?T i = Some e" by auto
    show "driven D i e" by (rule tree_inv_driven [OF inv T])
    have "live ?U c = live ?T c" for c
      using terminal [of c] sub [of c] by (cases "?T c") (auto simp: live_def)
    then have "live ?U = live ?T" by (rule ext)
    with tree_inv_counted [OF inv T] show "counted ?U e" by (simp add: counted_def)
  next
    fix i d assume d: "D i = Some d" "dv_phase d \<noteq> Done"
    from tree_inv_known [OF inv this] obtain e where e: "?T i = Some e" by blast
    with settled_iff_done [OF inv e d(1)] d(2) terminal [OF e] show "?U i \<noteq> None" by auto
  next
    fix p e c assume pe: "?U p = Some e" "c \<in> set (et_children e)"
    with sub [of p] have T: "?T p = Some e" by auto
    from tree_inv_child [OF inv T pe(2)] obtain ce where ce: "?T c = Some ce" "et_parent ce = Some p" by blast
    have "c \<noteq> old" using ce old by (auto simp: root_def)
    with up [OF ce(1)] ce pe have "?U c \<noteq> None" by auto
    with sub [of c] ce show "\<exists>ce. ?U c = Some ce \<and> et_parent ce = Some p" by auto
  next
    fix c ce p assume ce: "?U c = Some ce" "et_parent ce = Some p"
    with sub [of c] have T: "?T c = Some ce" by auto
    from tree_inv_parent [OF inv T ce(2)] obtain e where e: "?T p = Some e" "c \<in> set (et_children e)" by blast
    with down [OF e(1) _ e(2)] ce sub [of p] show "\<exists>e. ?U p = Some e \<and> c \<in> set (et_children e)" by auto
  qed
qed

text \<open>The list of settled roots is true of the table, and evicting from its front keeps it so.\<close>

definition roots_inv :: "task_id list \<Rightarrow> task_map \<Rightarrow> bool" where
  "roots_inv roots T \<longleftrightarrow> distinct roots \<and> (\<forall>j. j \<in> set roots \<longleftrightarrow> root T j)"

lemma retire_keeps:
  assumes "tree_inv (map_of ts) D" and "roots_inv roots (map_of ts)"
    and "retire keep roots ts = (roots', ts')"
  shows "tree_inv (map_of ts') D \<and> roots_inv roots' (map_of ts') \<and> length roots' \<le> keep
     \<and> roots' = drop (length roots - keep) roots
     \<and> (\<forall>j e. map_of ts j = Some e \<and> \<not> is_terminal (et_state e) \<longrightarrow> map_of ts' j = Some e)
     \<and> (\<forall>j. map_of ts' j = None \<or> map_of ts' j = map_of ts j)"
  using assms
proof (induction keep roots ts rule: retire.induct)
  case (1 keep ts)
  then show ?case by auto
next
  case (2 keep old roots ts)
  show ?case
  proof (cases "length (old # roots) > keep")
    case True
    have r: "root (map_of ts) old" using 2(3) by (auto simp: roots_inv_def)
    have ri: "roots_inv roots (map_of (remove_subtree old ts))"
      using 2(3) evict(2) [OF 2(2) r] by (auto simp: roots_inv_def)
    have again: "retire keep roots (remove_subtree old ts) = (roots', ts')" using 2(4) True by simp
    from 2(1) [OF True evict(1) [OF 2(2) r] ri again]
    have IH: "tree_inv (map_of ts') D \<and> roots_inv roots' (map_of ts') \<and> length roots' \<le> keep
     \<and> roots' = drop (length roots - keep) roots
     \<and> (\<forall>j e. map_of (remove_subtree old ts) j = Some e \<and> \<not> is_terminal (et_state e) \<longrightarrow> map_of ts' j = Some e)
     \<and> (\<forall>j. map_of ts' j = None \<or> map_of ts' j = map_of (remove_subtree old ts) j)" .
    moreover have "drop (length (old # roots) - keep) (old # roots) = drop (length roots - keep) roots"
      using True by (auto simp: Suc_diff_le)
    ultimately show ?thesis
      using evict(3,4) [OF 2(2) r] by metis
  next
    case False
    with 2 show ?thesis by auto
  qed
qed

section \<open>Every step keeps it\<close>

definition tree_ok :: "sys \<Rightarrow> bool" where
  "tree_ok s \<longleftrightarrow> tree_inv (get_task (sy_rt s)) (sy_drivers s)
     \<and> roots_inv (rg_settled_roots (rt_registry (sy_rt s))) (get_task (sy_rt s))"

lemma roots_edit:
  assumes "roots_inv roots T" "T i = Some e" "same_shape e e'"
  shows "roots_inv roots (T(i \<mapsto> e'))"
  using assms by (auto simp: roots_inv_def root_def same_shape_def)

text \<open>Operations that change at most the entry of one task, and no settled root.\<close>

definition edits_one :: "task_id \<Rightarrow> (entry \<Rightarrow> entry) \<Rightarrow> runtime \<Rightarrow> runtime \<Rightarrow> bool" where
  "edits_one i f rt rt' \<longleftrightarrow> get_task rt' = (get_task rt)(i := map_option f (get_task rt i))
     \<and> rg_settled_roots (rt_registry rt') = rg_settled_roots (rt_registry rt)"

lemma same_shape_refl [simp]: "same_shape e e"
  by (simp add: same_shape_def)

lemma tree_ok_edit:
  assumes "tree_inv T D" "roots_inv roots T" "T i = Some e" "D i = Some d" "same_shape e e'" "phase_ok ph e'"
  shows "tree_inv (T(i \<mapsto> e')) (D(i \<mapsto> d\<lparr>dv_phase := ph\<rparr>)) \<and> roots_inv roots (T(i \<mapsto> e'))"
  using tree_inv_edit [OF assms(1,3,4,5,6) refl] roots_edit [OF assms(2,3,5)] by blast

lemma put_state_simps [simp]:
  "et_children (put_state st e) = et_children e" "et_live_children (put_state st e) = et_live_children e"
  "et_token (put_state st e) = et_token e" "et_parent (put_state st e) = et_parent e"
  "et_state (put_state st e) = st" "et_seq (put_state st e) = et_seq e"
  "et_throttle (put_state st e) = et_throttle e" "ti_progress (et_info (put_state st e)) = ti_progress (et_info e)"
  by (simp_all add: put_state_def)

lemma put_progress_simps [simp]:
  "et_children (put_progress p e) = et_children e" "et_live_children (put_progress p e) = et_live_children e"
  "et_token (put_progress p e) = et_token e" "et_parent (put_progress p e) = et_parent e"
  "et_state (put_progress p e) = et_state e" "et_seq (put_progress p e) = et_seq e"
  "et_throttle (put_progress p e) = et_throttle e" "ti_progress (et_info (put_progress p e)) = p"
  by (simp_all add: put_progress_def)

lemma map_throttle_simps [simp]:
  "et_children (map_throttle f e) = et_children e" "et_live_children (map_throttle f e) = et_live_children e"
  "et_token (map_throttle f e) = et_token e" "et_info (map_throttle f e) = et_info e"
  "et_seq (map_throttle f e) = et_seq e" "et_throttle (map_throttle f e) = f (et_throttle e)"
  by (simp_all add: map_throttle_def)

lemma same_shape_simps [simp]:
  "same_shape e (put_progress p e)" "same_shape e (map_throttle f e)"
  "same_shape e (put_state st e) \<longleftrightarrow> is_terminal st = is_terminal (et_state e)"
  by (simp_all add: same_shape_def)

lemma same_shape_trans: "same_shape a b \<Longrightarrow> same_shape b c \<Longrightarrow> same_shape a c"
  by (simp add: same_shape_def)

lemma phase_ok_edits [simp]:
  "phase_ok ph (put_progress p e) = phase_ok ph e" "phase_ok ph (map_throttle f e) = phase_ok ph e"
  by (simp_all add: phase_ok_def)

lemma roots_unchanged [simp]:
  "rg_settled_roots (rt_registry (edit_task i f rt)) = rg_settled_roots (rt_registry rt)"
  "rg_settled_roots (dequeue t r) = rg_settled_roots r" "rg_tasks (dequeue t r) = rg_tasks r"
  "rg_next_seq (dequeue t r) = rg_next_seq r"
  by (simp_all add: edit_task_def dequeue_def Let_def split: option.split)

lemma try_admit_tasks:
  "try_admit rs t rt = (a, rt') \<Longrightarrow> get_task rt' = get_task rt
     \<and> rg_settled_roots (rt_registry rt') = rg_settled_roots (rt_registry rt)"
  by (auto simp: try_admit_def Let_def get_task_def split: if_splits)

lemma slot_tasks [simp]:
  "get_task (drop_slot sc rt) = get_task rt" "get_task (leave_queue t rt) = get_task rt"
  "rg_settled_roots (rt_registry (drop_slot sc rt)) = rg_settled_roots (rt_registry rt)"
  "rg_settled_roots (rt_registry (leave_queue t rt)) = rg_settled_roots (rt_registry rt)"
  by (simp_all add: drop_slot_def leave_queue_def get_map_registry fun_eq_iff) (simp_all add: get_task_def)

lemma finish_pass_tasks:
  "finish_pass i rt = (b, rt') \<Longrightarrow> get_task rt' = get_task rt
     \<and> rg_settled_roots (rt_registry rt') = rg_settled_roots (rt_registry rt)
     \<and> (b \<longleftrightarrow> (\<forall>e. get_task rt i = Some e \<longrightarrow> et_live_children e = 0))"
  by (auto simp: finish_pass_def split: option.splits if_splits)

lemma settle_tasks:
  assumes i: "get_task rt i = Some e"
  shows "if et_parent e = None
    then (\<exists>roots ts. retire (retained_roots (rt_config rt)) (rg_settled_roots (rt_registry rt) @ [i])
             (rg_tasks (rt_registry (edit_task i (settle_entry st now) rt))) = (roots, ts)
           \<and> get_task (settle i st now rt) = map_of ts
           \<and> rg_settled_roots (rt_registry (settle i st now rt)) = roots)
    else get_task (settle i st now rt) = settled_map (get_task rt) i (settle_entry st now e)
           \<and> rg_settled_roots (rt_registry (settle i st now rt)) = rg_settled_roots (rt_registry rt)"
proof -
  have edit: "rg_tasks (rt_registry (edit_task i f (send ev rt)))
      = rg_tasks (rt_registry (edit_task i f rt))" for f ev
    by (simp add: edit_task_def)
  show ?thesis
    using i
    by (cases "et_parent e")
       (auto simp: settle_def Let_def edit get_map_registry settled_map_def
         split: prod.splits option.splits)
qed

lemma settle_keeps:
  assumes ok: "tree_ok s" and d: "sy_drivers s i = Some d" "dv_phase d = Settling st"
    and st: "is_terminal st"
  shows "tree_ok \<lparr>sy_rt = settle i st now (sy_rt s), sy_drivers = (sy_drivers s)(i \<mapsto> d\<lparr>dv_phase := Done\<rparr>)\<rparr>"
proof -
  let ?rt = "sy_rt s" and ?D = "(sy_drivers s)(i \<mapsto> d\<lparr>dv_phase := Done\<rparr>)"
  have inv: "tree_inv (get_task ?rt) (sy_drivers s)"
    and roots: "roots_inv (rg_settled_roots (rt_registry ?rt)) (get_task ?rt)"
    using ok by (auto simp: tree_ok_def)
  from tree_inv_known [OF inv d(1)] d(2) obtain e where e: "get_task ?rt i = Some e" by auto
  note T = tree_inv_settle [OF inv e d st, of now]
  have live_e: "\<not> is_terminal (et_state e)"
    using tree_inv_phase(1) [OF inv e d(1)] d(2) by (simp add: phase_ok_def)
  show ?thesis
  proof (cases "et_parent e")
    case None
    let ?ts = "rg_tasks (rt_registry (edit_task i (settle_entry st now) ?rt))"
    have ts: "map_of ?ts = settled_map (get_task ?rt) i (settle_entry st now e)"
      using None e by (simp add: settled_map_def edit_task_def get_task_def fun_eq_iff)
    from settle_tasks [OF e, of st now] None obtain roots' ts' where r:
      "retire (retained_roots (rt_config ?rt)) (rg_settled_roots (rt_registry ?rt) @ [i]) ?ts = (roots', ts')"
      "get_task (settle i st now ?rt) = map_of ts'"
      "rg_settled_roots (rt_registry (settle i st now ?rt)) = roots'" by auto
    have "roots_inv (rg_settled_roots (rt_registry ?rt) @ [i]) (map_of ?ts)"
      using roots None e live_e st by (auto simp: roots_inv_def ts settled_map_def root_def)
    from retire_keeps [OF T [folded ts] this r(1)]
    show ?thesis unfolding tree_ok_def sys.select_convs r(2,3) by blast
  next
    case (Some p)
    from settle_tasks [OF e, of st now] Some have r:
      "get_task (settle i st now ?rt) = settled_map (get_task ?rt) i (settle_entry st now e)"
      "rg_settled_roots (rt_registry (settle i st now ?rt)) = rg_settled_roots (rt_registry ?rt)" by auto
    have "roots_inv (rg_settled_roots (rt_registry ?rt)) (settled_map (get_task ?rt) i (settle_entry st now e))"
      using roots Some e by (auto simp: roots_inv_def root_def settled_map_def)
    with T r show ?thesis by (simp add: tree_ok_def)
  qed
qed

lemma new_entry_simps [simp]:
  "et_seq (new_entry n info tok) = n" "et_info (new_entry n info tok) = info"
  "et_children (new_entry n info tok) = []" "et_live_children (new_entry n info tok) = 0"
  "et_token (new_entry n info tok) = tok" "et_throttle (new_entry n info tok) = throttle_default"
  "ti_parent (new_info i desc parent now) = parent" "ti_state (new_info i desc parent now) = Queued None"
  "ti_progress (new_info i desc parent now) = progress_default"
  by (simp_all add: new_entry_def new_info_def)

lemma start_tasks:
  assumes "start i desc rs parent tok now rt = (ticket, rt')"
  shows "get_task rt' = (case parent of
            None \<Rightarrow> get_task rt
          | Some p \<Rightarrow> (get_task rt)(p := map_option (add_child i) (get_task rt p)))
              (i \<mapsto> new_entry (rg_next_seq (rt_registry rt)) (new_info i desc parent now) tok)
     \<and> tk_seq ticket = rg_next_seq (rt_registry rt)
     \<and> rg_settled_roots (rt_registry rt') = rg_settled_roots (rt_registry rt)"
  using assms
  by (auto simp: start_def Let_def get_map_registry fun_eq_iff map_registry_def edit_task_def
      get_task_def send_def split: option.splits)

lemma report_tasks:
  "report_progress i p now rt = rt
   \<or> (\<exists>e g. get_task rt i = Some e \<and> \<not> is_terminal (et_state e)
        \<and> get_task (report_progress i p now rt) = (get_task rt)(i \<mapsto> map_throttle g (put_progress p e))
        \<and> rg_settled_roots (rt_registry (report_progress i p now rt)) = rg_settled_roots (rt_registry rt))"
proof (cases "get_task rt i")
  case (Some e)
  then show ?thesis
    by (auto simp: report_progress_def Let_def)
qed (simp add: report_progress_def)

lemma flush_tasks:
  "flush_progress i now rt = rt
   \<or> (\<exists>e g. get_task rt i = Some e
        \<and> get_task (flush_progress i now rt) = (get_task rt)(i \<mapsto> map_throttle g e)
        \<and> rg_settled_roots (rt_registry (flush_progress i now rt)) = rg_settled_roots (rt_registry rt))"
proof (cases "get_task rt i")
  case (Some e)
  have two: "map_throttle f (map_throttle g x) = map_throttle (f \<circ> g) x" for f g x
    by (simp add: map_throttle_def)
  from Some show ?thesis
    by (auto simp: flush_progress_def Let_def two)
qed (simp add: flush_progress_def)

lemma tree_ok_edit_env:
  assumes ok: "tree_ok s" and e: "get_task (sy_rt s) i = Some e" and shape: "same_shape e e'"
    and ph: "\<And>ph. phase_ok ph e' = phase_ok ph e"
    and rt: "get_task rt = (get_task (sy_rt s))(i \<mapsto> e')"
      "rg_settled_roots (rt_registry rt) = rg_settled_roots (rt_registry (sy_rt s))"
  shows "tree_ok (s\<lparr>sy_rt := rt\<rparr>)"
proof -
  have inv: "tree_inv (get_task (sy_rt s)) (sy_drivers s)"
    and roots: "roots_inv (rg_settled_roots (rt_registry (sy_rt s))) (get_task (sy_rt s))"
    using ok by (auto simp: tree_ok_def)
  from tree_inv_driven [OF inv e] obtain d where d: "sy_drivers s i = Some d"
    and p: "phase_ok (dv_phase d) e" by (auto simp: driven_def)
  have "(sy_drivers s)(i \<mapsto> d\<lparr>dv_phase := dv_phase d\<rparr>) = sy_drivers s" using d by auto
  with tree_ok_edit [OF inv roots e d shape, of "dv_phase d"] p ph rt show ?thesis
    by (simp add: tree_ok_def)
qed

lemma same_tasks_ok:
  "tree_ok s \<Longrightarrow> get_task rt = get_task (sy_rt s) \<Longrightarrow>
     rg_settled_roots (rt_registry rt) = rg_settled_roots (rt_registry (sy_rt s)) \<Longrightarrow>
     tree_ok (s\<lparr>sy_rt := rt\<rparr>)"
  by (simp add: tree_ok_def)

lemma set_queued_tasks:
  "set_queued i on rt = rt \<and> (\<forall>e. get_task rt i = Some e \<longrightarrow> et_state e = Queued on)
   \<or> (\<exists>e. get_task rt i = Some e \<and> get_task (set_queued i on rt) = (get_task rt)(i \<mapsto> put_state (Queued on) e)
        \<and> rg_settled_roots (rt_registry (set_queued i on rt)) = rg_settled_roots (rt_registry rt))"
  by (cases "get_task rt i") (auto simp: set_queued_def)

lemma set_state_tasks:
  "get_task rt i = Some e \<Longrightarrow> get_task (set_state i st rt) = (get_task rt)(i \<mapsto> put_state st e)
     \<and> rg_settled_roots (rt_registry (set_state i st rt)) = rg_settled_roots (rt_registry rt)"
  by (auto simp: set_state_def)

lemma state_of_outcome_terminal [simp]: "is_terminal (state_of_outcome out)"
  by (cases out) (auto simp: state_of_outcome_def)

text \<open>The steps of drivers, settling apart: the phase moves on and the entry's state with it.\<close>

lemma drive_keeps:
  assumes ok: "tree_ok s" and d: "sy_drivers s i = Some d"
    and step: "drive i d (sy_rt s) (dv_phase d) rt ph"
  shows "tree_ok \<lparr>sy_rt = rt, sy_drivers = (sy_drivers s)(i \<mapsto> d\<lparr>dv_phase := ph\<rparr>)\<rparr>"
proof -
  have inv: "tree_inv (get_task (sy_rt s)) (sy_drivers s)"
    and roots: "roots_inv (rg_settled_roots (rt_registry (sy_rt s))) (get_task (sy_rt s))"
    using ok by (auto simp: tree_ok_def)
  have "dv_phase d \<noteq> Done" using step by (auto elim: drive.cases)
  from tree_inv_known [OF inv d this] obtain e where e: "get_task (sy_rt s) i = Some e" by blast
  have p: "phase_ok (dv_phase d) e" by (rule tree_inv_phase(1) [OF inv e d])
  have none: "et_children e = [] \<Longrightarrow> et_live_children e = 0"
    using tree_inv_counted [OF inv e] by (simp add: counted_def)
  have moved: ?thesis if "phase_ok ph e" "get_task rt = get_task (sy_rt s)"
    "rg_settled_roots (rt_registry rt) = rg_settled_roots (rt_registry (sy_rt s))"
    using tree_inv_phase_step [OF inv d e that(1)] roots that(2,3) by (simp add: tree_ok_def)
  have edited: ?thesis if "phase_ok ph (put_state st e)" "\<not> is_terminal st" "\<not> is_terminal (et_state e)"
    "get_task rt = (get_task (sy_rt s))(i \<mapsto> put_state st e)"
    "rg_settled_roots (rt_registry rt) = rg_settled_roots (rt_registry (sy_rt s))" for st
    using tree_ok_edit [OF inv roots e d, of "put_state st e" ph] that by (simp add: tree_ok_def)
  show ?thesis
    using step
  proof cases
    case (dr_queue n on)
    with p set_queued_tasks [of i on "sy_rt s"] e show ?thesis
      by (elim disjE exE conjE) (intro moved edited [of "Queued on"]; auto simp: phase_ok_def)+
  next
    case dr_start
    with p set_state_tasks [OF e, of Running] show ?thesis
      by (intro edited [of Running]) (auto simp: phase_ok_def)
  next
    case dr_cancelling
    with p set_state_tasks [OF e, of Cancelling] show ?thesis
      by (intro edited [of Cancelling]) (auto simp: phase_ok_def)
  next
    case (dr_settle st now)
    with settle_keeps [OF ok d dr_settle(1)] p show ?thesis by (auto simp: phase_ok_def)
  next
    case (dr_children_done n joined)
    with p finish_pass_tasks [OF dr_children_done(3)] e show ?thesis
      by (intro moved) (auto simp: phase_ok_def)
  next
    case (dr_children_live n joined)
    with p finish_pass_tasks [OF dr_children_live(3)] show ?thesis
      by (intro moved) (auto simp: phase_ok_def)
  qed ((rule moved; use p none in \<open>auto simp: phase_ok_def dest: try_admit_tasks split: if_splits\<close>)+)
qed

lemma step_keeps:
  assumes ok: "tree_ok s" and step: "step s s'"
  shows "tree_ok s'"
proof -
  have inv: "tree_inv (get_task (sy_rt s)) (sy_drivers s)"
    and roots: "roots_inv (rg_settled_roots (rt_registry (sy_rt s))) (get_task (sy_rt s))"
    using ok by (auto simp: tree_ok_def)
  have same: "tree_ok (s\<lparr>sy_rt := rt\<rparr>)"
    if "get_task rt = get_task (sy_rt s)"
      "rg_settled_roots (rt_registry rt) = rg_settled_roots (rt_registry (sy_rt s))" for rt
    by (rule same_tasks_ok [OF ok that])
  have resources: "get_task (f rt) = get_task rt \<and>
      rg_settled_roots (rt_registry (f rt)) = rg_settled_roots (rt_registry rt)"
    if "f = add_resource r rs \<or> f = set_resource_state r rs \<or> f = set_resource_ready r v" for f r rs v rt
    using that by (auto simp: add_resource_def set_resource_state_def set_resource_ready_def
        get_map_registry fun_eq_iff) (auto simp: get_task_def)
  show ?thesis
    using step
  proof cases
    case (st_drive i d rt ph)
    with drive_keeps [OF ok] show ?thesis by simp
  next
    case (st_submit i desc rs now ticket rt)
    have Ti: "get_task (sy_rt s) i = None" by (rule tree_inv_new [OF inv st_submit(2)])
    let ?e = "new_entry (rg_next_seq (rt_registry (sy_rt s))) (new_info i desc None now) (token_new i)"
    note T = start_tasks [OF st_submit(3) [unfolded submit_def]]
    have "roots_inv (rg_settled_roots (rt_registry (sy_rt s))) ((get_task (sy_rt s))(i \<mapsto> ?e))"
      using roots Ti by (auto simp: roots_inv_def root_def)
    moreover have "tree_inv ((get_task (sy_rt s))(i \<mapsto> ?e))
        ((sy_drivers s)(i \<mapsto> new_driver rs ticket (token_new i) None))"
      by (rule tree_inv_submit [OF inv st_submit(2)]) (simp_all add: blank_entry_def new_driver_def)
    ultimately show ?thesis using T st_submit(1) by (simp add: tree_ok_def)
  next
    case (st_spawn i p pd desc rs now ticket rt)
    have Ti: "get_task (sy_rt s) i = None" by (rule tree_inv_new [OF inv st_spawn(2)])
    let ?e = "new_entry (rg_next_seq (rt_registry (sy_rt s))) (new_info i desc (Some p) now)
        (child_token (dv_token pd) i)"
    have ph: "dv_phase pd \<in> {Body, Joining}" using st_spawn(3,4) by (auto simp: body_runs_def)
    then have "dv_phase pd \<noteq> Done" by auto
    from tree_inv_known [OF inv st_spawn(4) this] obtain pe where pe: "get_task (sy_rt s) p = Some pe" by blast
    note T = start_tasks [OF st_spawn(5) [unfolded submit_child_def]]
    let ?T = "(get_task (sy_rt s))(p \<mapsto> add_child i pe, i \<mapsto> ?e)"
    have "roots_inv (rg_settled_roots (rt_registry (sy_rt s))) ?T"
      using roots Ti pe by (auto simp: roots_inv_def root_def)
    moreover have "tree_inv ?T ((sy_drivers s)(i \<mapsto> new_driver rs ticket (child_token (dv_token pd) i) (Some p)))"
      by (rule tree_inv_spawn [OF inv st_spawn(2) _ _ _ _ pe st_spawn(4) ph])
         (simp_all add: blank_entry_def new_driver_def)
    ultimately show ?thesis using T st_spawn(1) pe by (simp add: tree_ok_def)
  next
    case (st_progress i pr now)
    from report_tasks [of i pr now "sy_rt s"] show ?thesis
    proof (elim disjE exE conjE)
      fix e g assume "get_task (sy_rt s) i = Some e"
        "get_task (report_progress i pr now (sy_rt s)) = (get_task (sy_rt s))(i \<mapsto> map_throttle g (put_progress pr e))"
        "rg_settled_roots (rt_registry (report_progress i pr now (sy_rt s))) = rg_settled_roots (rt_registry (sy_rt s))"
      with tree_ok_edit_env [OF ok, of i e "map_throttle g (put_progress pr e)"] st_progress(1)
      show ?thesis using same_shape_trans [of e "put_progress pr e"] by simp
    qed (use ok st_progress(1) in simp)
  next
    case (st_flush i due now)
    let ?rt = "(sy_rt s)\<lparr>rt_flushes := remove1 (i, due) (rt_flushes (sy_rt s))\<rparr>"
    have regs: "rt_registry ?rt = rt_registry (sy_rt s)" by simp
    from flush_tasks [of i now ?rt] show ?thesis
    proof (elim disjE exE conjE)
      assume "flush_progress i now ?rt = ?rt"
      with same [of ?rt] st_flush(1) show ?thesis by simp
    next
      fix e g assume "get_task ?rt i = Some e"
        "get_task (flush_progress i now ?rt) = (get_task ?rt)(i \<mapsto> map_throttle g e)"
        "rg_settled_roots (rt_registry (flush_progress i now ?rt)) = rg_settled_roots (rt_registry ?rt)"
      with tree_ok_edit_env [OF ok, of i e "map_throttle g e"] st_flush(1) show ?thesis by simp
    qed
  next
    case (st_cancel i)
    have "get_task (cancel i (sy_rt s)) = get_task (sy_rt s)"
      "rg_settled_roots (rt_registry (cancel i (sy_rt s))) = rg_settled_roots (rt_registry (sy_rt s))"
      by (simp_all add: cancel_def split: option.split)
    with same st_cancel show ?thesis by simp
  next
    case st_cancel_all
    with same [of "cancel_all (sy_rt s)"] show ?thesis by (simp add: cancel_all_def)
  qed (use same resources in \<open>metis\<close>)+
qed

theorem reachable_tree_ok: "reachable c s \<Longrightarrow> tree_ok s"
proof (induction rule: reachable.induct)
  case reachable_new
  show ?case
    by (simp add: tree_ok_def sys_new_def runtime_new_def registry_default_def get_task_def
        tree_inv_def roots_inv_def root_def)
next
  case (reachable_step s s')
  then show ?case by (blast intro: step_keeps)
qed

end
