(* ===== verification/TaskAdmission.thy ===== *)
theory TaskAdmission
  imports TaskTree
begin

text \<open>
  Admission: in every reachable state a scope's count is the number of roots that hold a place
  in it and never exceeds the class's cap, its queue is the roots still waiting for a place in
  the order they were submitted, and a root asleep in the queue is only ever asleep while it
  could not be admitted - or the one that will wake it is about to.
\<close>

section \<open>Who waits and who holds a place\<close>

fun in_queue :: "phase \<Rightarrow> bool" where
  "in_queue Entering = True"
| "in_queue (Deciding _) = True"
| "in_queue (Queueing _ _) = True"
| "in_queue (Waiting _) = True"
| "in_queue (Leaving _) = True"
| "in_queue _ = False"

fun holds_place :: "phase \<Rightarrow> bool" where
  "holds_place Admitted = True"
| "holds_place Starting = True"
| "holds_place Body = True"
| "holds_place Joining = True"
| "holds_place (Dropping _) = True"
| "holds_place _ = False"

definition capped_in :: "scope \<Rightarrow> driver \<Rightarrow> bool" where
  "capped_in sc d \<longleftrightarrow> tk_queued (dv_ticket d) \<and> tk_scope (dv_ticket d) = sc"

definition waiters :: "(task_id \<Rightarrow> driver option) \<Rightarrow> scope \<Rightarrow> task_id set" where
  "waiters D sc = {i. \<exists>d. D i = Some d \<and> capped_in sc d \<and> in_queue (dv_phase d)}"

definition holders :: "(task_id \<Rightarrow> driver option) \<Rightarrow> scope \<Rightarrow> task_id set" where
  "holders D sc = {i. \<exists>d. D i = Some d \<and> capped_in sc d \<and> holds_place (dv_phase d)}"

definition queue_of :: "registry \<Rightarrow> scope \<Rightarrow> nat list" where
  "queue_of r sc = (case map_of (rg_queues r) sc of None \<Rightarrow> [] | Some q \<Rightarrow> q)"

definition admitted_of :: "registry \<Rightarrow> scope \<Rightarrow> nat" where
  "admitted_of r sc = (case map_of (rg_admitted r) sc of None \<Rightarrow> 0 | Some n \<Rightarrow> n)"

definition seq_of :: "(task_id \<Rightarrow> driver option) \<Rightarrow> task_id \<Rightarrow> nat" where
  "seq_of D i = tk_seq (dv_ticket (the (D i)))"

definition gate_inv :: "config \<Rightarrow> registry \<Rightarrow> (task_id \<Rightarrow> driver option) \<Rightarrow> bool" where
  "gate_inv c r D \<longleftrightarrow>
     (\<forall>sc. sorted (queue_of r sc) \<and> distinct (queue_of r sc) \<and> set (queue_of r sc) = seq_of D ` waiters D sc)
   \<and> (\<forall>i d. D i = Some d \<longrightarrow> tk_seq (dv_ticket d) < rg_next_seq r
        \<and> tk_queued (dv_ticket d) = (dv_parent d = None \<and> config_cap c (fst (tk_scope (dv_ticket d))) \<noteq> None))
   \<and> (\<forall>i j d d'. D i = Some d \<and> D j = Some d' \<and> tk_seq (dv_ticket d) = tk_seq (dv_ticket d') \<longrightarrow> i = j)
   \<and> finite (dom D)
   \<and> (\<forall>sc. admitted_of r sc = card (holders D sc))
   \<and> (\<forall>sc cap. config_cap c (fst sc) = Some cap \<longrightarrow> card (holders D sc) \<le> cap)"

lemma gate_invD:
  assumes "gate_inv c r D"
  shows "sorted (queue_of r sc)" "distinct (queue_of r sc)" "set (queue_of r sc) = seq_of D ` waiters D sc"
    "D i = Some d \<Longrightarrow> tk_seq (dv_ticket d) < rg_next_seq r"
    "D i = Some d \<Longrightarrow> tk_queued (dv_ticket d) = (dv_parent d = None \<and> config_cap c (fst (tk_scope (dv_ticket d))) \<noteq> None)"
    "D i = Some d \<Longrightarrow> D j = Some d' \<Longrightarrow> tk_seq (dv_ticket d) = tk_seq (dv_ticket d') \<Longrightarrow> i = j"
    "finite (dom D)" "admitted_of r sc = card (holders D sc)"
    "config_cap c (fst sc) = Some cap \<Longrightarrow> card (holders D sc) \<le> cap"
  using assms unfolding gate_inv_def by blast+

lemma gate_invI:
  assumes "\<And>sc. sorted (queue_of r sc)" "\<And>sc. distinct (queue_of r sc)"
    "\<And>sc. set (queue_of r sc) = seq_of D ` waiters D sc"
    "\<And>i d. D i = Some d \<Longrightarrow> tk_seq (dv_ticket d) < rg_next_seq r"
    "\<And>i d. D i = Some d \<Longrightarrow> tk_queued (dv_ticket d) = (dv_parent d = None \<and> config_cap c (fst (tk_scope (dv_ticket d))) \<noteq> None)"
    "\<And>i j d d'. D i = Some d \<Longrightarrow> D j = Some d' \<Longrightarrow> tk_seq (dv_ticket d) = tk_seq (dv_ticket d') \<Longrightarrow> i = j"
    "finite (dom D)" "\<And>sc. admitted_of r sc = card (holders D sc)"
    "\<And>sc cap. config_cap c (fst sc) = Some cap \<Longrightarrow> card (holders D sc) \<le> cap"
  shows "gate_inv c r D"
  unfolding gate_inv_def
  by (intro conjI allI impI; (elim conjE)?;
      (rule assms(1,2,3,7,8) | erule assms(4,5,9) | erule (2) assms(6)))

lemma holders_finite: "finite (dom D) \<Longrightarrow> finite (holders D sc)"
  by (rule finite_subset [of _ "dom D"]) (auto simp: holders_def)

section \<open>A driver that moves\<close>

lemma waiters_move:
  assumes "D i = Some d"
  shows "waiters (D(i \<mapsto> d\<lparr>dv_phase := ph\<rparr>)) sc =
    (if capped_in sc d then (if in_queue ph then insert i (waiters D sc) else waiters D sc - {i})
     else waiters D sc)"
  using assms by (auto simp: waiters_def capped_in_def split: if_splits)

lemma holders_move:
  assumes "D i = Some d"
  shows "holders (D(i \<mapsto> d\<lparr>dv_phase := ph\<rparr>)) sc =
    (if capped_in sc d then (if holds_place ph then insert i (holders D sc) else holders D sc - {i})
     else holders D sc)"
  using assms by (auto simp: holders_def capped_in_def split: if_splits)

lemma seq_of_move: "D i = Some d \<Longrightarrow> seq_of (D(i \<mapsto> d\<lparr>dv_phase := ph\<rparr>)) = seq_of D"
  by (rule ext) (simp add: seq_of_def)

text \<open>
  One lemma for every move: the queues lose the root's number when it leaves its queue, and the
  counts follow the places taken and given back.
\<close>

lemma gate_inv_move:
  assumes inv: "gate_inv c r D" and d: "D i = Some d"
    and queue: "\<And>sc. queue_of r' sc = (if capped_in sc d \<and> in_queue (dv_phase d) \<and> \<not> in_queue ph
                   then remove1 (tk_seq (dv_ticket d)) (queue_of r sc) else queue_of r sc)"
    and stays_out: "in_queue ph \<Longrightarrow> in_queue (dv_phase d)"
    and count: "\<And>sc. admitted_of r' sc = (if capped_in sc d
                   then (if holds_place ph \<and> \<not> holds_place (dv_phase d) then admitted_of r sc + 1
                         else if \<not> holds_place ph \<and> holds_place (dv_phase d) then admitted_of r sc - 1
                         else admitted_of r sc)
                   else admitted_of r sc)"
    and room: "\<And>sc cap. capped_in sc d \<Longrightarrow> holds_place ph \<Longrightarrow> \<not> holds_place (dv_phase d) \<Longrightarrow>
                   config_cap c (fst sc) = Some cap \<Longrightarrow> admitted_of r sc < cap"
    and seq: "rg_next_seq r' = rg_next_seq r"
  shows "gate_inv c r' (D(i \<mapsto> d\<lparr>dv_phase := ph\<rparr>))"
proof -
  note I = gate_invD [OF inv]
  let ?D = "D(i \<mapsto> d\<lparr>dv_phase := ph\<rparr>)"
  have i_waits: "i \<in> waiters D sc \<longleftrightarrow> capped_in sc d \<and> in_queue (dv_phase d)" for sc
    using d by (auto simp: waiters_def)
  have i_holds: "i \<in> holders D sc \<longleftrightarrow> capped_in sc d \<and> holds_place (dv_phase d)" for sc
    using d by (auto simp: holders_def)
  have seq_i: "seq_of D i = tk_seq (dv_ticket d)" using d by (simp add: seq_of_def)
  have inj: "inj_on (seq_of D) (insert i (waiters D sc))" for sc
    by (rule inj_onI) (use I(6) d in \<open>auto simp: seq_of_def waiters_def\<close>)
  have waits: "seq_of D ` (waiters D sc - {i}) = seq_of D ` waiters D sc - {seq_of D i}" for sc
    using inj [of sc] by (auto simp: inj_on_def)
  have cards: "card (holders ?D sc) = (if capped_in sc d
                   then (if holds_place ph \<and> \<not> holds_place (dv_phase d) then admitted_of r sc + 1
                         else if \<not> holds_place ph \<and> holds_place (dv_phase d) then admitted_of r sc - 1
                         else admitted_of r sc)
                   else admitted_of r sc)" for sc
    using holders_move [of D, OF d, of ph sc] i_holds [of sc] I(8) [of sc] holders_finite [OF I(7), of sc]
    by (auto simp: insert_absorb)
  show ?thesis
  proof (rule gate_invI)
    fix sc
    show "sorted (queue_of r' sc)" using I(1) by (simp add: queue sorted_remove1)
    show "distinct (queue_of r' sc)" using I(2) by (simp add: queue)
    show "set (queue_of r' sc) = seq_of ?D ` waiters ?D sc"
      unfolding seq_of_move [of D, OF d] waiters_move [of D, OF d]
      using I(2) [of sc] I(3) [of sc] stays_out i_waits [of sc] waits [of sc] seq_i
      by (auto simp: queue insert_absorb)
    show "admitted_of r' sc = card (holders ?D sc)" unfolding cards count ..
    fix cap assume cap: "config_cap c (fst sc) = Some cap"
    show "card (holders ?D sc) \<le> cap"
      using I(9) [OF cap] I(8) [of sc] room [of sc, OF _ _ _ cap] unfolding cards by auto
  next
    fix j y assume y: "?D j = Some y"
    show "tk_seq (dv_ticket y) < rg_next_seq r'"
      using y I(4) d seq by (auto split: if_splits)
    show "tk_queued (dv_ticket y) = (dv_parent y = None \<and> config_cap c (fst (tk_scope (dv_ticket y))) \<noteq> None)"
      using y I(5) d by (auto split: if_splits)
    fix k z assume "?D k = Some z" "tk_seq (dv_ticket y) = tk_seq (dv_ticket z)"
    with y I(6) d show "j = k" by (auto split: if_splits)
  next
    show "finite (dom ?D)" using I(7) by simp
  qed
qed

section \<open>What the operations do to queues and counts\<close>

lemma gate_views: "gate r = gate r' \<Longrightarrow> queue_of r = queue_of r' \<and> admitted_of r = admitted_of r'"
  by (auto simp: gate_def queue_of_def admitted_of_def fun_eq_iff)

lemma dequeue_views:
  "queue_of (dequeue t r) sc = (if sc = tk_scope t then remove1 (tk_seq t) (queue_of r sc) else queue_of r sc)"
  "admitted_of (dequeue t r) sc = admitted_of r sc"
  by (auto simp: dequeue_def queue_of_def admitted_of_def Let_def split: option.split)

lemma required_not_admit: "required r rs = Some a \<Longrightarrow> a \<noteq> Admit"
  by (induction rs) (auto split: option.splits resource_state.splits)

lemma admission_Admit:
  assumes "admission r rs t (Some cap) = Admit"
  shows "admitted_of r (tk_scope t) < cap \<and> (\<exists>q. queue_of r (tk_scope t) = tk_seq t # q)"
proof -
  from assms have "required r rs = None"
    by (cases "required r rs") (auto simp: admission_def dest: required_not_admit)
  with assms show ?thesis
    by (auto simp: admission_def Let_def admitted_of_def queue_of_def split: if_splits option.splits list.splits)
qed

lemma try_admit_views:
  assumes "try_admit rs t rt = (a, rt')"
  shows "a = admission (rt_registry rt) rs t (admission_cap (rt_config rt) t)"
    and "rt_config rt' = rt_config rt" "rt_notifications rt' = rt_notifications rt"
    and "rg_next_seq (rt_registry rt') = rg_next_seq (rt_registry rt)"
    and "rt_cancelled rt' = rt_cancelled rt" "rt_events rt' = rt_events rt" "rt_flushes rt' = rt_flushes rt"
    and "\<not> (tk_queued t \<and> a = Admit) \<Longrightarrow> rt' = rt"
    and "tk_queued t \<Longrightarrow> a = Admit \<Longrightarrow>
      queue_of (rt_registry rt') sc = (if sc = tk_scope t then remove1 (tk_seq t) (queue_of (rt_registry rt) sc)
                                       else queue_of (rt_registry rt) sc)
      \<and> admitted_of (rt_registry rt') sc = admitted_of (rt_registry rt) sc + (if sc = tk_scope t then 1 else 0)"
    and "rg_resources (rt_registry rt') = rg_resources (rt_registry rt)"
  using assms
  by (auto simp: try_admit_def Let_def dequeue_views split: if_splits)
     (auto simp: admitted_of_def queue_of_def dequeue_def Let_def split: option.splits)

lemma drop_slot_views:
  "queue_of (rt_registry (drop_slot sc rt)) sc' = queue_of (rt_registry rt) sc'"
  "admitted_of (rt_registry (drop_slot sc rt)) sc' =
     (if sc' = sc then admitted_of (rt_registry rt) sc' - 1 else admitted_of (rt_registry rt) sc')"
  "rt_config (drop_slot sc rt) = rt_config rt"
  "rg_next_seq (rt_registry (drop_slot sc rt)) = rg_next_seq (rt_registry rt)"
  by (auto simp: drop_slot_def queue_of_def admitted_of_def split: option.split)

lemma leave_queue_views:
  "queue_of (rt_registry (leave_queue t rt)) sc =
     (if sc = tk_scope t then remove1 (tk_seq t) (queue_of (rt_registry rt) sc) else queue_of (rt_registry rt) sc)"
  "admitted_of (rt_registry (leave_queue t rt)) sc = admitted_of (rt_registry rt) sc"
  "rt_config (leave_queue t rt) = rt_config rt"
  "rg_next_seq (rt_registry (leave_queue t rt)) = rg_next_seq (rt_registry rt)"
  by (auto simp: leave_queue_def dequeue_views)

text \<open>Operations that leave admission alone: the gate, the next number and the configuration.\<close>

definition keeps_gate :: "runtime \<Rightarrow> runtime \<Rightarrow> bool" where
  "keeps_gate rt rt' \<longleftrightarrow> gate (rt_registry rt') = gate (rt_registry rt)
     \<and> rg_next_seq (rt_registry rt') = rg_next_seq (rt_registry rt) \<and> rt_config rt' = rt_config rt"

lemma edit_task_next [simp]: "rg_next_seq (rt_registry (edit_task i f rt)) = rg_next_seq (rt_registry rt)"
  by (simp add: edit_task_def)

lemma keeps_gate_ops [simp, intro]:
  "keeps_gate rt rt"
  "keeps_gate rt (notify_waiters rt)"
  "keeps_gate rt (set_queued i on rt)" "keeps_gate rt (set_state i st rt)"
  "keeps_gate rt (settle i st now rt)" "keeps_gate rt (report_progress i p at rt)"
  "keeps_gate rt (flush_progress i at (rt\<lparr>rt_flushes := F\<rparr>))" "keeps_gate rt (cancel i rt)" "keeps_gate rt (cancel_all rt)"
  "finish_pass i rt = (b, rt') \<Longrightarrow> keeps_gate rt rt'"
  by (auto simp: keeps_gate_def set_queued_def set_state_def settle_def report_progress_def flush_progress_def
      cancel_def cancel_all_def finish_pass_def Let_def split: option.splits prod.splits if_splits)

lemma resources_views:
  assumes "rt' = add_resource r rs rt \<or> rt' = set_resource_state r rs rt \<or> rt' = set_resource_ready r v rt"
  shows "queue_of (rt_registry rt') = queue_of (rt_registry rt) \<and> admitted_of (rt_registry rt') = admitted_of (rt_registry rt)
    \<and> rg_next_seq (rt_registry rt') = rg_next_seq (rt_registry rt) \<and> rt_config rt' = rt_config rt
    \<and> rt_notifications rt' = rt_notifications rt + 1"
  using assms
  by (auto simp: add_resource_def set_resource_state_def set_resource_ready_def queue_of_def admitted_of_def fun_eq_iff)

section \<open>Every step keeps it\<close>

definition admit_ok :: "config \<Rightarrow> sys \<Rightarrow> bool" where
  "admit_ok c s \<longleftrightarrow> rt_config (sy_rt s) = c \<and> gate_inv c (rt_registry (sy_rt s)) (sy_drivers s)"

lemma admit_ok_move:
  assumes ok: "admit_ok c s" and d: "sy_drivers s i = Some d" and keep: "keeps_gate (sy_rt s) rt"
    and same: "\<And>sc. capped_in sc d \<Longrightarrow> in_queue ph = in_queue (dv_phase d) \<and> holds_place ph = holds_place (dv_phase d)"
  shows "admit_ok c \<lparr>sy_rt = rt, sy_drivers = (sy_drivers s)(i \<mapsto> d\<lparr>dv_phase := ph\<rparr>)\<rparr>"
proof -
  have g: "queue_of (rt_registry rt) = queue_of (rt_registry (sy_rt s))"
    "admitted_of (rt_registry rt) = admitted_of (rt_registry (sy_rt s))"
    using keep gate_views unfolding keeps_gate_def by blast+
  have inv: "gate_inv c (rt_registry (sy_rt s)) (sy_drivers s)" using ok by (simp add: admit_ok_def)
  show ?thesis
  proof (cases "tk_queued (dv_ticket d)")
    case True
    then have "in_queue ph = in_queue (dv_phase d) \<and> holds_place ph = holds_place (dv_phase d)"
      using same by (auto simp: capped_in_def)
    then have "gate_inv c (rt_registry rt) ((sy_drivers s)(i \<mapsto> d\<lparr>dv_phase := ph\<rparr>))"
      by (intro gate_inv_move [OF inv d]) (use keep in \<open>auto simp: g keeps_gate_def\<close>)
    with ok keep show ?thesis by (simp add: admit_ok_def keeps_gate_def)
  next
    case False
    let ?D = "(sy_drivers s)(i \<mapsto> d\<lparr>dv_phase := ph\<rparr>)"
    have "waiters ?D sc = waiters (sy_drivers s) sc" "holders ?D sc = holders (sy_drivers s) sc" for sc
      using waiters_move [of "sy_drivers s", OF d] holders_move [of "sy_drivers s", OF d] False
      by (auto simp: capped_in_def)
    with inv have "gate_inv c (rt_registry rt) ?D"
      using d keep unfolding gate_inv_def seq_of_move [of "sy_drivers s", OF d] g
      by (auto simp: keeps_gate_def)
    with ok keep show ?thesis by (simp add: admit_ok_def keeps_gate_def)
  qed
qed

lemma drive_admit_ok:
  assumes ok: "admit_ok c s" and d: "sy_drivers s i = Some d"
    and step: "drive i d (sy_rt s) (dv_phase d) rt ph"
  shows "admit_ok c \<lparr>sy_rt = rt, sy_drivers = (sy_drivers s)(i \<mapsto> d\<lparr>dv_phase := ph\<rparr>)\<rparr>"
proof -
  have conf: "rt_config (sy_rt s) = c" and inv: "gate_inv c (rt_registry (sy_rt s)) (sy_drivers s)"
    using ok by (auto simp: admit_ok_def)
  note move = gate_inv_move [OF inv d]
  show ?thesis
    using step
  proof cases
    case (dr_admit n)
    show ?thesis
    proof (cases "tk_queued (dv_ticket d)")
      case True
      obtain cap where cap: "config_cap c (fst (tk_scope (dv_ticket d))) = Some cap"
        using gate_invD(5) [OF inv d] True by auto
      have adm: "admission (rt_registry (sy_rt s)) (dv_requires d) (dv_ticket d) (Some cap) = Admit"
        using try_admit_views(1) [OF dr_admit(3)] True cap conf by (simp add: admission_cap_def)
      have "gate_inv c (rt_registry rt) ((sy_drivers s)(i \<mapsto> d\<lparr>dv_phase := ph\<rparr>))"
        by (rule move) (use try_admit_views(4,9) [OF dr_admit(3)] True dr_admit(1,2)
            admission_Admit [OF adm] cap in \<open>auto simp: capped_in_def\<close>)
      with conf try_admit_views(2) [OF dr_admit(3)] show ?thesis by (simp add: admit_ok_def)
    next
      case False
      with try_admit_views(8) [OF dr_admit(3)] admit_ok_move [OF ok d, of rt ph] dr_admit(1,2)
      show ?thesis by (auto simp: capped_in_def)
    qed
  next
    case (dr_leave error)
    show ?thesis
    proof (cases "tk_queued (dv_ticket d)")
      case True
      have "gate_inv c (rt_registry rt) ((sy_drivers s)(i \<mapsto> d\<lparr>dv_phase := ph\<rparr>))"
        by (rule move) (use dr_leave True in \<open>auto simp: leave_queue_views capped_in_def\<close>)
      with conf dr_leave True show ?thesis by (simp add: admit_ok_def leave_queue_views)
    next
      case False
      with admit_ok_move [OF ok d, of rt ph] dr_leave show ?thesis by (auto simp: capped_in_def)
    qed
  next
    case (dr_drop joined)
    show ?thesis
    proof (cases "tk_queued (dv_ticket d)")
      case True
      have "gate_inv c (rt_registry rt) ((sy_drivers s)(i \<mapsto> d\<lparr>dv_phase := ph\<rparr>))"
        by (rule move) (use dr_drop True in \<open>auto simp: drop_slot_views capped_in_def\<close>)
      with conf dr_drop True show ?thesis by (simp add: admit_ok_def drop_slot_views)
    next
      case False
      with admit_ok_move [OF ok d, of rt ph] dr_drop show ?thesis by (auto simp: capped_in_def)
    qed
  next
    case (dr_refuse e n)
    with try_admit_views(8) [OF dr_refuse(3)] show ?thesis by (intro admit_ok_move [OF ok d]) auto
  next
    case (dr_wait on n)
    with try_admit_views(8) [OF dr_wait(3)] show ?thesis by (intro admit_ok_move [OF ok d]) auto
  qed (auto intro!: admit_ok_move [OF ok d])
qed

lemma start_registry:
  assumes "start i desc rs parent tok now rt = (ticket, rt')"
  shows "tk_seq ticket = rg_next_seq (rt_registry rt)
    \<and> tk_queued ticket = (parent = None \<and> config_cap (rt_config rt) (fst (tk_scope ticket)) \<noteq> None)
    \<and> rt_config rt' = rt_config rt \<and> rt_notifications rt' = rt_notifications rt
    \<and> rt_cancelled rt' = rt_cancelled rt \<and> rt_flushes rt' = rt_flushes rt
    \<and> rg_next_seq (rt_registry rt') = rg_next_seq (rt_registry rt) + 1
    \<and> rg_admitted (rt_registry rt') = rg_admitted (rt_registry rt)
    \<and> rg_resources (rt_registry rt') = rg_resources (rt_registry rt)
    \<and> rg_queues (rt_registry rt') = (if tk_queued ticket then
         AList.update (tk_scope ticket) (insort_insert (tk_seq ticket) (queue_of (rt_registry rt) (tk_scope ticket)))
           (rg_queues (rt_registry rt))
       else rg_queues (rt_registry rt))"
  using assms
  by (cases parent) (auto simp: start_def Let_def queue_of_def send_def edit_task_def map_registry_def)

lemma start_views:
  assumes "start i desc rs parent tok now rt = (ticket, rt')"
  shows "queue_of (rt_registry rt') sc = (if tk_queued ticket \<and> sc = tk_scope ticket
        then insort_insert (tk_seq ticket) (queue_of (rt_registry rt) sc) else queue_of (rt_registry rt) sc)"
    "admitted_of (rt_registry rt') = admitted_of (rt_registry rt)"
proof -
  note S = start_registry [OF assms]
  show "queue_of (rt_registry rt') sc = (if tk_queued ticket \<and> sc = tk_scope ticket
        then insort_insert (tk_seq ticket) (queue_of (rt_registry rt) sc) else queue_of (rt_registry rt) sc)"
    using S by (simp add: queue_of_def)
  show "admitted_of (rt_registry rt') = admitted_of (rt_registry rt)"
    using S by (simp add: admitted_of_def fun_eq_iff)
qed

lemma start_admit_ok:
  assumes ok: "admit_ok c s" and new: "sy_drivers s i = None"
    and start: "start i desc rs parent tok now (sy_rt s) = (ticket, rt)"
  shows "admit_ok c \<lparr>sy_rt = rt, sy_drivers = (sy_drivers s)(i \<mapsto> new_driver rs ticket tok parent)\<rparr>"
proof -
  let ?D = "sy_drivers s" and ?r = "rt_registry (sy_rt s)" and ?d = "new_driver rs ticket tok parent"
  have conf: "rt_config (sy_rt s) = c" and inv: "gate_inv c ?r ?D"
    using ok by (auto simp: admit_ok_def)
  note I = gate_invD [OF inv] and S = start_registry [OF start] and V = start_views [OF start]
  have d: "dv_ticket ?d = ticket" "dv_phase ?d = Entering" "dv_parent ?d = parent"
    by (simp_all add: new_driver_def)
  have num: "tk_seq ticket = rg_next_seq ?r" "rg_next_seq (rt_registry rt) = rg_next_seq ?r + 1"
    and queued: "tk_queued ticket = (parent = None \<and> config_cap (rt_config (sy_rt s)) (fst (tk_scope ticket)) \<noteq> None)"
    and conf': "rt_config rt = rt_config (sy_rt s)"
    using S by blast+
  have below: "x < tk_seq ticket" if "x \<in> set (queue_of ?r sc)" for x sc
    using that I(3) [of sc] I(4) num by (auto simp: waiters_def seq_of_def)
  have seqs: "seq_of (?D(i \<mapsto> ?d)) j = (if j = i then tk_seq ticket else seq_of ?D j)" for j
    by (simp add: seq_of_def d)
  have W: "waiters (?D(i \<mapsto> ?d)) sc = (if capped_in sc ?d then insert i (waiters ?D sc) else waiters ?D sc)" for sc
    using new by (auto simp: waiters_def d capped_in_def split: if_splits)
  have i_new: "i \<notin> waiters ?D sc" for sc using new by (auto simp: waiters_def)
  have H: "holders (?D(i \<mapsto> ?d)) sc = holders ?D sc" for sc
    using new by (auto simp: holders_def d split: if_splits)
  have "gate_inv c (rt_registry rt) (?D(i \<mapsto> ?d))"
  proof (rule gate_invI)
    fix sc
    show "sorted (queue_of (rt_registry rt) sc)" "distinct (queue_of (rt_registry rt) sc)"
      using I(1,2) by (simp_all add: V sorted_insort_insert distinct_insort_insert)
    have img: "seq_of (?D(i \<mapsto> ?d)) ` A = seq_of ?D ` A" if "i \<notin> A" for A
      using that by (intro image_cong) (auto simp: seqs)
    show "set (queue_of (rt_registry rt) sc) = seq_of (?D(i \<mapsto> ?d)) ` waiters (?D(i \<mapsto> ?d)) sc"
      using I(3) [of sc] img [OF i_new [of sc]] by (auto simp: V W capped_in_def d seqs set_insort_insert)
    show "admitted_of (rt_registry rt) sc = card (holders (?D(i \<mapsto> ?d)) sc)"
      using I(8) by (simp add: V H)
    fix cap assume "config_cap c (fst sc) = Some cap"
    with I(9) show "card (holders (?D(i \<mapsto> ?d)) sc) \<le> cap" by (simp add: H)
  next
    fix j y assume y: "(?D(i \<mapsto> ?d)) j = Some y"
    show "tk_seq (dv_ticket y) < rg_next_seq (rt_registry rt)"
      using y I(4) [of j y] num d by (cases "j = i") auto
    show "tk_queued (dv_ticket y) = (dv_parent y = None \<and> config_cap c (fst (tk_scope (dv_ticket y))) \<noteq> None)"
      using y I(5) [of j y] queued conf d by (cases "j = i") auto
    fix k z assume z: "(?D(i \<mapsto> ?d)) k = Some z" and eq: "tk_seq (dv_ticket y) = tk_seq (dv_ticket z)"
    have old: "x = tk_seq ticket \<longleftrightarrow> j = i" if "(?D(i \<mapsto> ?d)) j = Some w" "tk_seq (dv_ticket w) = x" for j w x
      using that I(4) [of j w] num(1) d(1) by (cases "j = i") auto
    show "j = k"
    proof (cases "j = i")
      case True
      with old [OF y refl] old [OF z refl] eq show ?thesis by simp
    next
      case False
      with old [OF y refl] old [OF z refl] eq have "k \<noteq> i" by simp
      with False y z I(6) [OF _ _ eq] show ?thesis by simp
    qed
  next
    show "finite (dom (?D(i \<mapsto> ?d)))" using I(7) by simp
  qed
  with conf' conf show ?thesis by (simp add: admit_ok_def)
qed

lemma step_admit_ok:
  assumes ok: "admit_ok c s" and step: "step s s'"
  shows "admit_ok c s'"
proof -
  have kept: "admit_ok c (s\<lparr>sy_rt := rt\<rparr>)" if "keeps_gate (sy_rt s) rt" for rt
    using ok that gate_views [of "rt_registry rt" "rt_registry (sy_rt s)"]
    by (auto simp: admit_ok_def keeps_gate_def gate_inv_def)
  have views: "admit_ok c (s\<lparr>sy_rt := rt\<rparr>)"
    if "rt = add_resource r rs (sy_rt s) \<or> rt = set_resource_state r rs (sy_rt s) \<or> rt = set_resource_ready r v (sy_rt s)"
    for rt r rs v
    using ok resources_views [OF that] by (auto simp: admit_ok_def gate_inv_def)
  show ?thesis
    using step
  proof cases
    case (st_drive i d rt ph)
    with drive_admit_ok [OF ok] show ?thesis by simp
  next
    case (st_submit i desc rs now ticket rt)
    with start_admit_ok [OF ok] show ?thesis by (simp add: submit_def)
  next
    case (st_spawn i p pd desc rs now ticket rt)
    with start_admit_ok [OF ok] show ?thesis by (simp add: submit_child_def)
  next
    case (st_add_resource r rs)
    with views show ?thesis by blast
  next
    case (st_set_resource r rs)
    with views show ?thesis by blast
  next
    case (st_ready_resource r v)
    with views show ?thesis by blast
  qed (use kept in auto)
qed

theorem reachable_admit_ok: "reachable c s \<Longrightarrow> admit_ok c s"
proof (induction rule: reachable.induct)
  case reachable_new
  show ?case
    by (simp add: admit_ok_def sys_new_def runtime_new_def registry_default_def gate_inv_def
        queue_of_def admitted_of_def waiters_def holders_def)
next
  case (reachable_step s s')
  then show ?case by (blast intro: step_admit_ok)
qed

end
