(* ===== verification/TaskWake.thy ===== *)
theory TaskWake
  imports TaskAdmission
begin

text \<open>
  No lost wake-up: a driver registers for the next notification before it looks, so whatever it
  waits for is either still so or it has been woken, and a parent waits only for live children.
\<close>

definition decision_of :: "runtime \<Rightarrow> driver \<Rightarrow> admission_decision" where
  "decision_of rt d = admission (rt_registry rt) (dv_requires d) (dv_ticket d) (admission_cap (rt_config rt) (dv_ticket d))"

definition telling :: "(task_id \<Rightarrow> driver option) \<Rightarrow> bool" where
  "telling D \<longleftrightarrow> (\<exists>k d. D k = Some d \<and> dv_phase d = Admitted \<and> tk_queued (dv_ticket d))"

definition must_wait :: "runtime \<Rightarrow> driver \<Rightarrow> bool" where
  "must_wait rt d \<longleftrightarrow> (\<exists>on. decision_of rt d = Wait on)"

fun asleep_at :: "phase \<Rightarrow> nat option" where
  "asleep_at (Queueing n on) = Some n"
| "asleep_at (Waiting n) = Some n"
| "asleep_at _ = None"

fun parent_asleep_at :: "phase \<Rightarrow> nat option" where
  "parent_asleep_at (Finish_wait n joined) = Some n"
| "parent_asleep_at _ = None"

fun enabled_at :: "phase \<Rightarrow> nat option" where
  "enabled_at (Deciding n) = Some n"
| "enabled_at (Queueing n on) = Some n"
| "enabled_at (Waiting n) = Some n"
| "enabled_at (Finish_check n joined) = Some n"
| "enabled_at (Finish_wait n joined) = Some n"
| "enabled_at _ = None"

definition wake_inv :: "sys \<Rightarrow> bool" where
  "wake_inv s \<longleftrightarrow>
     (\<forall>i d n. sy_drivers s i = Some d \<and> enabled_at (dv_phase d) = Some n \<longrightarrow> n \<le> rt_notifications (sy_rt s))
   \<and> (\<forall>i d. sy_drivers s i = Some d \<and> asleep_at (dv_phase d) = Some (rt_notifications (sy_rt s)) \<longrightarrow>
        must_wait (sy_rt s) d \<or> telling (sy_drivers s))
   \<and> (\<forall>i d. sy_drivers s i = Some d \<and> parent_asleep_at (dv_phase d) = Some (rt_notifications (sy_rt s)) \<longrightarrow>
        (\<exists>e. get_task (sy_rt s) i = Some e \<and> et_live_children e > 0))"

lemma asleep_enabled: "asleep_at ph = Some n \<Longrightarrow> enabled_at ph = Some n"
  "parent_asleep_at ph = Some n \<Longrightarrow> enabled_at ph = Some n"
  by (cases ph; simp)+

text \<open>A step that notifies, and gives no driver a later registration, keeps it.\<close>

lemma wake_inv_notified:
  assumes "wake_inv s" and "rt_notifications (sy_rt s) < rt_notifications (sy_rt s')"
    and "\<And>i d n. sy_drivers s' i = Some d \<Longrightarrow> enabled_at (dv_phase d) = Some n \<Longrightarrow>
       (\<exists>d0. sy_drivers s i = Some d0 \<and> enabled_at (dv_phase d0) = Some n)"
  shows "wake_inv s'"
  using assms asleep_enabled unfolding wake_inv_def by (smt (verit) leD le_trans less_imp_le)

text \<open>A step that does not notify keeps it when the sleepers still have to wait.\<close>

definition children_kept :: "runtime \<Rightarrow> runtime \<Rightarrow> bool" where
  "children_kept rt rt' \<longleftrightarrow> (\<forall>i e. get_task rt i = Some e \<longrightarrow>
     (\<exists>e'. get_task rt' i = Some e' \<and> et_live_children e \<le> et_live_children e'))"

lemma wake_inv_quiet:
  assumes inv: "wake_inv s" and n: "rt_notifications rt = rt_notifications (sy_rt s)"
    and kids: "children_kept (sy_rt s) rt"
    and drivers: "\<And>j d. D j = Some d \<Longrightarrow> j \<noteq> i \<Longrightarrow> sy_drivers s j = Some d"
    and sleepers: "\<And>j d. D j = Some d \<Longrightarrow> asleep_at (dv_phase d) = Some (rt_notifications (sy_rt s)) \<Longrightarrow> j \<noteq> i \<Longrightarrow>
       must_wait (sy_rt s) d \<Longrightarrow> must_wait rt d \<or> telling D"
    and tell: "telling (sy_drivers s) \<Longrightarrow> telling D"
    and self: "\<And>d. D i = Some d \<Longrightarrow> (\<forall>m. enabled_at (dv_phase d) = Some m \<longrightarrow> m \<le> rt_notifications rt)
       \<and> (asleep_at (dv_phase d) = Some (rt_notifications rt) \<longrightarrow> must_wait rt d \<or> telling D)
       \<and> (parent_asleep_at (dv_phase d) = Some (rt_notifications rt) \<longrightarrow>
            (\<exists>e. get_task rt i = Some e \<and> et_live_children e > 0))"
  shows "wake_inv \<lparr>sy_rt = rt, sy_drivers = D\<rparr>"
  unfolding wake_inv_def sys.select_convs
proof (intro conjI allI impI; elim conjE)
  fix j d m assume j: "D j = Some d" "enabled_at (dv_phase d) = Some m"
  show "m \<le> rt_notifications rt"
  proof (cases "j = i")
    case False
    with inv drivers [OF j(1)] j(2) n show ?thesis unfolding wake_inv_def by metis
  qed (use self j in blast)
next
  fix j d assume j: "D j = Some d" "asleep_at (dv_phase d) = Some (rt_notifications rt)"
  show "must_wait rt d \<or> telling D"
  proof (cases "j = i")
    case False
    with inv drivers [OF j(1)] j(2) n have "must_wait (sy_rt s) d \<or> telling (sy_drivers s)"
      unfolding wake_inv_def by metis
    with sleepers [OF j(1)] j(2) n False tell show ?thesis by auto
  qed (use self j in blast)
next
  fix j d assume j: "D j = Some d" "parent_asleep_at (dv_phase d) = Some (rt_notifications rt)"
  show "\<exists>e. get_task rt j = Some e \<and> et_live_children e > 0"
  proof (cases "j = i")
    case False
    with inv drivers [OF j(1)] j(2) n obtain e where "get_task (sy_rt s) j = Some e" "et_live_children e > 0"
      unfolding wake_inv_def by metis
    with kids show ?thesis unfolding children_kept_def by (meson less_le_trans)
  qed (use self j in blast)
qed

lemma admission_views:
  "admission r rs t cap = (case required r rs of Some a \<Rightarrow> a
     | None \<Rightarrow> (case cap of None \<Rightarrow> Admit
         | Some k \<Rightarrow> if admitted_of r (tk_scope t) < k \<and> (\<exists>q. queue_of r (tk_scope t) = tk_seq t # q)
                    then Admit else Wait None))"
  by (auto simp: admission_def Let_def admitted_of_def queue_of_def split: option.splits list.splits)

lemma required_resources: "rg_resources r = rg_resources r' \<Longrightarrow> required r rs = required r' rs"
  by (induction rs) (auto split: option.split resource_state.split)

lemma must_wait_gate: "keeps_gate rt rt' \<Longrightarrow> must_wait rt' d = must_wait rt d"
  unfolding must_wait_def decision_of_def keeps_gate_def by (metis admission_gate)

lemma children_kept_same: "get_task rt' = get_task rt \<Longrightarrow> children_kept rt rt'"
  by (simp add: children_kept_def)

lemma children_kept_edit:
  "get_task rt i = Some e \<Longrightarrow> get_task rt' = (get_task rt)(i \<mapsto> e') \<Longrightarrow> et_live_children e \<le> et_live_children e' \<Longrightarrow>
     children_kept rt rt'"
  by (auto simp: children_kept_def)

lemma telling_move:
  assumes "telling D" "D i = Some d" "dv_phase d \<noteq> Admitted \<or> \<not> tk_queued (dv_ticket d)"
  shows "telling (D(i \<mapsto> d'))"
proof -
  from assms(1) obtain k dk where k: "D k = Some dk" "dv_phase dk = Admitted" "tk_queued (dv_ticket dk)"
    by (auto simp: telling_def)
  with assms(2,3) have "k \<noteq> i" by auto
  with k show ?thesis unfolding telling_def by (intro exI [of _ k] exI [of _ dk]) simp
qed

text \<open>A driver's step that neither notifies nor takes a place from others.\<close>

lemma wake_inv_drive_quiet:
  assumes inv: "wake_inv s" and d: "sy_drivers s i = Some d"
    and keep: "keeps_gate (sy_rt s) rt" "rt_notifications rt = rt_notifications (sy_rt s)" "children_kept (sy_rt s) rt"
    and told: "dv_phase d \<noteq> Admitted \<or> \<not> tk_queued (dv_ticket d)"
    and en: "\<And>m. enabled_at ph = Some m \<Longrightarrow> enabled_at (dv_phase d) = Some m \<or> m = rt_notifications (sy_rt s)"
    and sleep: "\<And>m. asleep_at ph = Some m \<Longrightarrow> asleep_at (dv_phase d) = Some m \<or> must_wait rt d"
    and kids: "\<And>m. parent_asleep_at ph = Some m \<Longrightarrow> \<exists>e. get_task rt i = Some e \<and> et_live_children e > 0"
  shows "wake_inv \<lparr>sy_rt = rt, sy_drivers = (sy_drivers s)(i \<mapsto> d\<lparr>dv_phase := ph\<rparr>)\<rparr>"
proof (rule wake_inv_quiet [OF inv keep(2,3), where i = i])
  have tell: "telling (sy_drivers s) \<Longrightarrow> telling ((sy_drivers s)(i \<mapsto> d\<lparr>dv_phase := ph\<rparr>))"
    by (rule telling_move [of "sy_drivers s" i d, OF _ d told])
  then show "telling (sy_drivers s) \<Longrightarrow> telling ((sy_drivers s)(i \<mapsto> d\<lparr>dv_phase := ph\<rparr>))" .
  fix d' assume d': "((sy_drivers s)(i \<mapsto> d\<lparr>dv_phase := ph\<rparr>)) i = Some d'"
  have same: "must_wait rt d' = must_wait rt d"
    using d' by (auto simp: must_wait_def decision_of_def)
  have old: "asleep_at (dv_phase d) = Some (rt_notifications (sy_rt s)) \<Longrightarrow> must_wait rt d \<or> telling (sy_drivers s)"
    using inv d must_wait_gate [OF keep(1)] unfolding wake_inv_def by blast
  have "\<And>m. enabled_at (dv_phase d) = Some m \<Longrightarrow> m \<le> rt_notifications rt"
    using inv d keep(2) unfolding wake_inv_def by metis
  then show "(\<forall>m. enabled_at (dv_phase d') = Some m \<longrightarrow> m \<le> rt_notifications rt)
       \<and> (asleep_at (dv_phase d') = Some (rt_notifications rt) \<longrightarrow>
           must_wait rt d' \<or> telling ((sy_drivers s)(i \<mapsto> d\<lparr>dv_phase := ph\<rparr>)))
       \<and> (parent_asleep_at (dv_phase d') = Some (rt_notifications rt) \<longrightarrow>
            (\<exists>e. get_task rt i = Some e \<and> et_live_children e > 0))"
    using d' en sleep kids old tell keep(2) same by auto
qed (use must_wait_gate [OF keep(1)] in \<open>auto split: if_splits\<close>)

lemma wake_inv_drive_notify:
  assumes "wake_inv s" "sy_drivers s i = Some d" "rt_notifications (sy_rt s) < rt_notifications rt"
    and "enabled_at ph = None"
  shows "wake_inv \<lparr>sy_rt = rt, sy_drivers = (sy_drivers s)(i \<mapsto> d\<lparr>dv_phase := ph\<rparr>)\<rparr>"
  by (rule wake_inv_notified [OF assms(1)]) (use assms in \<open>auto split: if_splits\<close>)

lemma settle_notifies:
  "get_task rt i = Some e \<Longrightarrow> rt_notifications (settle i st now rt) = rt_notifications rt + 1"
  by (auto simp: settle_def Let_def split: option.split)

lemma quiet_ops [simp]:
  "rt_notifications (set_queued i on rt) = rt_notifications rt"
  "rt_notifications (set_state i st rt) = rt_notifications rt"
  "rt_notifications (report_progress i p now rt) = rt_notifications rt"
  "rt_notifications (flush_progress i now rt) = rt_notifications rt"
  "rt_notifications (cancel i rt) = rt_notifications rt"
  "rt_notifications (cancel_all rt) = rt_notifications rt"
  by (auto simp: set_queued_def set_state_def report_progress_def flush_progress_def cancel_def cancel_all_def
      Let_def split: option.split)

lemma children_kept_states:
  "children_kept rt (set_queued i on rt)" "get_task rt i = Some e \<Longrightarrow> children_kept rt (set_state i st rt)"
proof -
  show "children_kept rt (set_queued i on rt)"
    using set_queued_tasks [of i on rt]
    by (elim disjE exE conjE) (auto intro: children_kept_same children_kept_edit)
  show "get_task rt i = Some e \<Longrightarrow> children_kept rt (set_state i st rt)"
    using set_state_tasks [of rt i e st] by (auto intro: children_kept_edit)
qed

lemma drive_wake:
  assumes inv: "wake_inv s" and d: "sy_drivers s i = Some d"
    and known: "get_task (sy_rt s) i = Some e"
    and step: "drive i d (sy_rt s) (dv_phase d) rt ph"
  shows "wake_inv \<lparr>sy_rt = rt, sy_drivers = (sy_drivers s)(i \<mapsto> d\<lparr>dv_phase := ph\<rparr>)\<rparr>"
proof -
  note quiet = wake_inv_drive_quiet [OF inv d]
  note notify = wake_inv_drive_notify [OF inv d]
  show ?thesis
    using step
  proof cases
    case (dr_admit n)
    note V = try_admit_views [OF dr_admit(3)]
    show ?thesis
    proof (cases "tk_queued (dv_ticket d)")
      case True
      let ?D = "(sy_drivers s)(i \<mapsto> d\<lparr>dv_phase := ph\<rparr>)"
      have tell: "telling ?D"
        unfolding telling_def using True dr_admit(2)
        by (intro exI [of _ i] exI [of _ "d\<lparr>dv_phase := ph\<rparr>"]) simp
      show ?thesis
        by (rule wake_inv_quiet [OF inv, where i = i])
           (use V(3) tell try_admit_tasks [OF dr_admit(3)] dr_admit(2) in
             \<open>auto intro: children_kept_same split: if_splits\<close>)
    next
      case False
      with V(8) have "rt = sy_rt s" by simp
      with dr_admit show ?thesis by (intro quiet) (auto intro: children_kept_same)
    qed
  next
    case (dr_refuse e n)
    with try_admit_views(8) [OF dr_refuse(3)] show ?thesis
      by (intro quiet) (auto intro: children_kept_same)
  next
    case (dr_wait on n)
    have "rt = sy_rt s" using try_admit_views(8) [OF dr_wait(3)] by simp
    moreover have "must_wait (sy_rt s) d"
      using try_admit_views(1) [OF dr_wait(3), symmetric] unfolding must_wait_def decision_of_def by blast
    ultimately show ?thesis using dr_wait by (intro quiet) (auto intro: children_kept_same)
  next
    case dr_tell
    show ?thesis
    proof (cases "tk_queued (dv_ticket d)")
      case True
      with dr_tell show ?thesis by (intro notify) auto
    next
      case False
      with dr_tell show ?thesis by (intro quiet) (auto intro: children_kept_same)
    qed
  next
    case (dr_leave error)
    show ?thesis
    proof (cases "tk_queued (dv_ticket d)")
      case True
      with dr_leave show ?thesis by (intro notify) (auto simp: leave_queue_def)
    next
      case False
      with dr_leave show ?thesis by (intro quiet) (auto intro: children_kept_same)
    qed
  next
    case (dr_drop joined)
    show ?thesis
    proof (cases "tk_queued (dv_ticket d)")
      case True
      with dr_drop show ?thesis by (intro notify) (auto simp: drop_slot_def)
    next
      case False
      with dr_drop show ?thesis by (intro quiet) (auto intro: children_kept_same)
    qed
  next
    case (dr_settle st now)
    with settle_notifies [OF known] show ?thesis by (intro notify) auto
  next
    case (dr_children_live n joined)
    with finish_pass_tasks [OF dr_children_live(3)] known
    have "\<exists>e. get_task rt i = Some e \<and> et_live_children e > 0" by auto
    moreover have "rt_notifications rt = rt_notifications (sy_rt s)"
      using dr_children_live(3) by (auto simp: finish_pass_def split: option.splits if_splits)
    ultimately show ?thesis
      using dr_children_live finish_pass_tasks [OF dr_children_live(3)]
      by (intro quiet) (auto intro: children_kept_same keeps_gate_ops)
  next
    case (dr_children_done n joined)
    moreover have "rt_notifications rt = rt_notifications (sy_rt s)"
      using dr_children_done(3) by (auto simp: finish_pass_def split: option.splits if_splits)
    ultimately show ?thesis
      using finish_pass_tasks [OF dr_children_done(3)]
      by (intro quiet) (auto intro: children_kept_same keeps_gate_ops)
  qed (use known in \<open>(intro quiet; auto intro: children_kept_same children_kept_states)\<close>)+
qed

text \<open>A new task queues behind everyone, so it changes nobody's turn.\<close>

lemma insort_last: "\<forall>x \<in> set xs. x < (n :: nat) \<Longrightarrow> insort_insert n xs = xs @ [n]"
proof -
  assume less: "\<forall>x \<in> set xs. x < n"
  then have "n \<notin> set xs" by auto
  moreover from less have "insort n xs = xs @ [n]" by (induction xs) auto
  ultimately show ?thesis by (simp add: insort_insert_insort)
qed

lemma start_turns:
  assumes ok: "admit_ok c s" and start: "start i desc rs parent tok now (sy_rt s) = (ticket, rt)"
    and d: "sy_drivers s j = Some d" and asleep: "asleep_at (dv_phase d) = Some n"
    and wait: "must_wait (sy_rt s) d"
  shows "must_wait rt d"
proof -
  let ?r = "rt_registry (sy_rt s)" and ?t = "dv_ticket d"
  note S = start_registry [OF start] and V = start_views [OF start]
  have inv: "gate_inv c ?r (sy_drivers s)" using ok by (simp add: admit_ok_def)
  have conf: "rt_config rt = rt_config (sy_rt s)" and res: "rg_resources (rt_registry rt) = rg_resources ?r"
    and num: "tk_seq ticket = rg_next_seq ?r"
    using S by blast+
  have behind: "\<forall>x \<in> set (queue_of ?r sc). x < tk_seq ticket" for sc
    using gate_invD(3) [OF inv, of sc] gate_invD(4) [OF inv] num by (auto simp: waiters_def seq_of_def)
  have head: "(\<exists>q. queue_of (rt_registry rt) (tk_scope ?t) = tk_seq ?t # q)
      = (\<exists>q. queue_of ?r (tk_scope ?t) = tk_seq ?t # q)" if "tk_queued ?t"
  proof -
    have "j \<in> waiters (sy_drivers s) (tk_scope ?t)"
      using d asleep that by (cases "dv_phase d") (auto simp: waiters_def capped_in_def)
    with gate_invD(3) [OF inv, of "tk_scope ?t"] have "queue_of ?r (tk_scope ?t) \<noteq> []" by auto
    then show ?thesis
      using insort_last [OF behind] by (cases "queue_of ?r (tk_scope ?t)") (auto simp: V)
  qed
  have req: "required (rt_registry rt) (dv_requires d) = required ?r (dv_requires d)"
    by (rule required_resources [OF res])
  show ?thesis
  proof (cases "tk_queued ?t")
    case True
    with wait head show ?thesis
      unfolding must_wait_def decision_of_def admission_views req V(2) conf
      by (auto split: option.splits if_splits)
  next
    case False
    with wait show ?thesis
      unfolding must_wait_def decision_of_def admission_views req conf admission_cap_def
      by (auto split: option.splits)
  qed
qed

lemma start_wake:
  assumes inv: "wake_inv s" and ok: "admit_ok c s" and tree: "tree_ok s" and new: "sy_drivers s i = None"
    and start: "start i desc rs parent tok now (sy_rt s) = (ticket, rt)"
  shows "wake_inv \<lparr>sy_rt = rt, sy_drivers = (sy_drivers s)(i \<mapsto> new_driver rs ticket tok parent)\<rparr>"
proof (rule wake_inv_quiet [OF inv, where i = i])
  show "rt_notifications rt = rt_notifications (sy_rt s)" using start_registry [OF start] by blast
  have Ti: "get_task (sy_rt s) i = None"
    using tree new tree_inv_new by (auto simp: tree_ok_def)
  show "children_kept (sy_rt s) rt"
    using start_tasks [OF start] Ti by (auto simp: children_kept_def split: option.splits)
  show "telling (sy_drivers s) \<Longrightarrow> telling ((sy_drivers s)(i \<mapsto> new_driver rs ticket tok parent))"
    using new unfolding telling_def by (metis fun_upd_apply option.distinct(1))
  fix j d assume "((sy_drivers s)(i \<mapsto> new_driver rs ticket tok parent)) j = Some d" "j \<noteq> i"
    "asleep_at (dv_phase d) = Some (rt_notifications (sy_rt s))" "must_wait (sy_rt s) d"
  with start_turns [OF ok start]
  show "must_wait rt d \<or> telling ((sy_drivers s)(i \<mapsto> new_driver rs ticket tok parent))" by auto
qed (auto simp: new_driver_def split: if_splits)

lemma env_wake:
  assumes inv: "wake_inv s" and "keeps_gate (sy_rt s) rt" "rt_notifications rt = rt_notifications (sy_rt s)"
    "children_kept (sy_rt s) rt"
  shows "wake_inv (s\<lparr>sy_rt := rt\<rparr>)"
  using assms must_wait_gate [OF assms(2)] unfolding wake_inv_def children_kept_def
  by (simp; meson less_le_trans)

lemma step_wake:
  assumes inv: "wake_inv s" and ok: "admit_ok c s" and tree: "tree_ok s" and step: "step s s'"
  shows "wake_inv s'"
proof -
  have more: "wake_inv (s\<lparr>sy_rt := rt\<rparr>)"
    if "rt = add_resource r rs (sy_rt s) \<or> rt = set_resource_state r rs (sy_rt s) \<or> rt = set_resource_ready r v (sy_rt s)"
    for rt r rs v
    by (rule wake_inv_notified [OF inv]) (use resources_views [OF that] in auto)
  show ?thesis
    using step
  proof cases
    case (st_drive i d rt ph)
    have "dv_phase d \<noteq> Done" using st_drive(3) by (auto elim: drive.cases)
    moreover have "tree_inv (get_task (sy_rt s)) (sy_drivers s)" using tree by (simp add: tree_ok_def)
    ultimately obtain e where "get_task (sy_rt s) i = Some e" using tree_inv_known st_drive(2) by blast
    with drive_wake [OF inv st_drive(2) _ st_drive(3)] st_drive(1) show ?thesis by simp
  next
    case (st_submit i desc rs now ticket rt)
    with start_wake [OF inv ok tree] show ?thesis by (simp add: submit_def)
  next
    case (st_spawn i p pd desc rs now ticket rt)
    with start_wake [OF inv ok tree] show ?thesis by (simp add: submit_child_def)
  next
    case (st_progress i pr now)
    have "children_kept (sy_rt s) (report_progress i pr now (sy_rt s))"
      using report_tasks [of i pr now "sy_rt s"]
      by (elim disjE exE conjE) (auto intro: children_kept_same children_kept_edit)
    with env_wake [OF inv] st_progress show ?thesis by auto
  next
    case (st_flush i due now)
    let ?rt = "(sy_rt s)\<lparr>rt_flushes := remove1 (i, due) (rt_flushes (sy_rt s))\<rparr>"
    have "children_kept (sy_rt s) (flush_progress i now ?rt)"
      using flush_tasks [of i now ?rt]
      by (elim disjE exE conjE) (auto intro: children_kept_same children_kept_edit)
    with env_wake [OF inv, of "flush_progress i now ?rt"] st_flush show ?thesis by auto
  next
    case (st_cancel i)
    have "children_kept (sy_rt s) (cancel i (sy_rt s))"
      by (rule children_kept_same) (simp add: cancel_def split: option.split)
    with env_wake [OF inv] st_cancel show ?thesis by auto
  next
    case st_cancel_all
    have "children_kept (sy_rt s) (cancel_all (sy_rt s))"
      by (rule children_kept_same) (simp add: cancel_all_def)
    with env_wake [OF inv] st_cancel_all show ?thesis by auto
  next
    case (st_add_resource r rs)
    with more show ?thesis by blast
  next
    case (st_set_resource r rs)
    with more show ?thesis by blast
  next
    case (st_ready_resource r v)
    with more show ?thesis by blast
  qed
qed

theorem reachable_wake: "reachable c s \<Longrightarrow> wake_inv s"
proof (induction rule: reachable.induct)
  case reachable_new
  show ?case by (simp add: wake_inv_def sys_new_def)
next
  case (reachable_step s s')
  then show ?case using step_wake reachable_admit_ok reachable_tree_ok by blast
qed

end
