(* ===== verification/TaskLog.thy ===== *)
theory TaskLog
  imports TaskTree
begin

text \<open>
  The events: what an observer who reads them in order knows of a task. Each change of state is
  announced, and what was reported last is announced before a task's end and nothing after it.
\<close>

section \<open>Reading the log\<close>

fun about :: "task_id \<Rightarrow> task_event \<Rightarrow> bool" where
  "about i (Submitted info) = (ti_id info = i)"
| "about i (StateChanged j st) = (j = i)"
| "about i (Progressed j p) = (j = i)"

fun told :: "progress \<Rightarrow> task_event list \<Rightarrow> progress" where
  "told p [] = p"
| "told p (Progressed j q # evs) = told q evs"
| "told p (Submitted info # evs) = told p evs"
| "told p (StateChanged j st # evs) = told p evs"

abbreviation heard :: "task_event list \<Rightarrow> task_id \<Rightarrow> task_event list" where
  "heard evs i \<equiv> filter (about i) evs"

lemma told_append: "told p (xs @ ys) = told (told p xs) ys"
  by (induction p xs rule: told.induct) auto

text \<open>Where an entry stands to what has been heard of it.\<close>

definition log_at :: "task_event list \<Rightarrow> task_state \<Rightarrow> progress \<Rightarrow> bool \<Rightarrow> task_id \<Rightarrow> bool" where
  "log_at evs st p pending i \<longleftrightarrow>
     (if is_terminal st
      then (\<exists>pre. evs = pre @ [StateChanged i st] \<and> told progress_default pre = p)
      else (\<not> pending \<longrightarrow> told progress_default evs = p))"

definition entry_log :: "task_event list \<Rightarrow> task_id \<Rightarrow> entry \<Rightarrow> bool" where
  "entry_log evs i e = log_at (heard evs i) (et_state e) (ti_progress (et_info e)) (th_pending (et_throttle e)) i"

definition log_ok :: "sys \<Rightarrow> bool" where
  "log_ok s \<longleftrightarrow>
     (\<forall>i. sy_drivers s i = None \<longrightarrow> heard (rt_events (sy_rt s)) i = [])
   \<and> (\<forall>i e. get_task (sy_rt s) i = Some e \<longrightarrow> entry_log (rt_events (sy_rt s)) i e)"

definition same_log :: "entry \<Rightarrow> entry \<Rightarrow> bool" where
  "same_log e e' \<longleftrightarrow> et_info e' = et_info e \<and> et_throttle e' = et_throttle e"

lemma same_log_refl [simp]: "same_log e e"
  by (simp add: same_log_def)

text \<open>A step that speaks of one task only, and leaves the others' entries alike.\<close>

lemma log_ok_one:
  assumes ok: "log_ok s" and evs: "rt_events rt = rt_events (sy_rt s) @ new" and only: "\<forall>ev \<in> set new. about i ev"
    and known: "D i \<noteq> None" and dom: "\<And>j. j \<noteq> i \<Longrightarrow> D j = None \<Longrightarrow> sy_drivers s j = None"
    and others: "\<And>j e'. j \<noteq> i \<Longrightarrow> get_task rt j = Some e' \<Longrightarrow> \<exists>e. get_task (sy_rt s) j = Some e \<and> same_log e e'"
    and self: "\<And>e'. get_task rt i = Some e' \<Longrightarrow> entry_log (rt_events (sy_rt s) @ new) i e'"
  shows "log_ok \<lparr>sy_rt = rt, sy_drivers = D\<rparr>"
proof -
  have unheard: "heard new j = []" if "j \<noteq> i" for j
  proof -
    have "\<not> (about i ev \<and> about j ev)" for ev using that by (cases ev) auto
    with only show ?thesis by (auto simp: filter_empty_conv)
  qed
  show ?thesis
    unfolding log_ok_def sys.select_convs evs
  proof (intro conjI allI impI)
    fix j assume "D j = None"
    with known dom ok unheard show "heard (rt_events (sy_rt s) @ new) j = []"
      by (cases "j = i") (auto simp: log_ok_def)
  next
    fix j e' assume e': "get_task rt j = Some e'"
    show "entry_log (rt_events (sy_rt s) @ new) j e'"
    proof (cases "j = i")
      case False
      from others [OF False e'] obtain e where "get_task (sy_rt s) j = Some e" "same_log e e'" by blast
      with ok unheard [OF False] show ?thesis by (simp add: log_ok_def entry_log_def same_log_def)
    qed (use self e' in simp)
  qed
qed

lemma log_ok_quiet:
  assumes ok: "log_ok s" and evs: "rt_events rt = rt_events (sy_rt s)"
    and dom: "\<And>j. D j = None \<Longrightarrow> sy_drivers s j = None"
    and tasks: "get_task rt = get_task (sy_rt s)"
  shows "log_ok \<lparr>sy_rt = rt, sy_drivers = D\<rparr>"
  using ok dom unfolding log_ok_def by (simp add: evs tasks)

section \<open>Settling\<close>

lemma settle_events:
  "get_task rt i = Some e \<Longrightarrow> rt_events (settle i st now rt) = rt_events rt
     @ (if th_pending (et_throttle e) then [Progressed i (ti_progress (et_info e))] else []) @ [StateChanged i st]"
  by (auto simp: settle_def Let_def split: option.split)

lemma lose_child_log [simp]: "et_throttle (lose_child e) = et_throttle e"
  by (simp add: lose_child_def)

lemma settle_entries:
  assumes ok: "tree_ok s" and d: "sy_drivers s i = Some d" "dv_phase d = Settling st"
    and st: "is_terminal st" and e: "get_task (sy_rt s) i = Some e"
    and e': "get_task (settle i st now (sy_rt s)) j = Some e'"
  shows "if j = i then et_info e' = et_info (settle_entry st now e) \<and> et_throttle e' = et_throttle (settle_entry st now e)
    else (\<exists>x. get_task (sy_rt s) j = Some x \<and> same_log x e')"
proof -
  let ?rt = "sy_rt s"
  have inv: "tree_inv (get_task ?rt) (sy_drivers s)"
    and roots: "roots_inv (rg_settled_roots (rt_registry ?rt)) (get_task ?rt)"
    using ok by (auto simp: tree_ok_def)
  note T = tree_inv_settle [OF inv e d st, of now]
  have live_e: "\<not> is_terminal (et_state e)"
    using tree_inv_phase(1) [OF inv e d(1)] d(2) by (simp add: phase_ok_def)
  have "settled_map (get_task ?rt) i (settle_entry st now e) j = Some e'"
  proof (cases "et_parent e")
    case None
    let ?ts = "rg_tasks (rt_registry (edit_task i (settle_entry st now) ?rt))"
    have ts: "map_of ?ts = settled_map (get_task ?rt) i (settle_entry st now e)"
      using None e by (simp add: settled_map_def edit_task_def get_task_def fun_eq_iff)
    from settle_tasks [OF e, of st now] None obtain roots' ts' where r:
      "retire (retained_roots (rt_config ?rt)) (rg_settled_roots (rt_registry ?rt) @ [i]) ?ts = (roots', ts')"
      "get_task (settle i st now ?rt) = map_of ts'" by auto
    have "roots_inv (rg_settled_roots (rt_registry ?rt) @ [i]) (map_of ?ts)"
      using roots None e live_e st by (auto simp: roots_inv_def ts settled_map_def root_def)
    with retire_keeps [OF T [folded ts] _ r(1)] have "map_of ts' j = None \<or> map_of ts' j = map_of ?ts j" by blast
    with e' r(2) ts show ?thesis by auto
  next
    case (Some p)
    with settle_tasks [OF e, of st now] e' show ?thesis by auto
  qed
  with parent_not_self [OF inv e d] show ?thesis
    by (auto simp: settled_map_def same_log_def split: option.splits if_splits)
qed

lemma settle_entry_log [simp]:
  "th_pending (et_throttle (settle_entry st now e)) = False"
  "ti_progress (et_info (settle_entry st now e)) = ti_progress (et_info e)"
  by (simp_all add: settle_entry_def)

lemma settle_log:
  assumes log: "log_ok s" and tree: "tree_ok s" and d: "sy_drivers s i = Some d" "dv_phase d = Settling st"
    and st: "is_terminal st" and e: "get_task (sy_rt s) i = Some e"
  shows "log_ok \<lparr>sy_rt = settle i st now (sy_rt s), sy_drivers = (sy_drivers s)(i \<mapsto> d')\<rparr>"
proof (rule log_ok_one [OF log settle_events [OF e], where i = i])
  fix j e' assume "j \<noteq> i" "get_task (settle i st now (sy_rt s)) j = Some e'"
  with settle_entries [OF tree d st e] show "\<exists>e. get_task (sy_rt s) j = Some e \<and> same_log e e'" by auto
next
  fix e' assume e': "get_task (settle i st now (sy_rt s)) i = Some e'"
  have inv: "tree_inv (get_task (sy_rt s)) (sy_drivers s)" using tree by (simp add: tree_ok_def)
  have "\<not> is_terminal (et_state e)"
    using tree_inv_phase(1) [OF inv e d(1)] d(2) by (simp add: phase_ok_def)
  moreover have "entry_log (rt_events (sy_rt s)) i e" using log e by (simp add: log_ok_def)
  ultimately show "entry_log (rt_events (sy_rt s) @
      (if th_pending (et_throttle e) then [Progressed i (ti_progress (et_info e))] else []) @ [StateChanged i st]) i e'"
    using settle_entries [OF tree d st e e'] st
    by (auto simp: entry_log_def log_at_def told_append)
qed auto

section \<open>Every step keeps it\<close>

lemma put_state_log:
  "entry_log evs i e \<Longrightarrow> \<not> is_terminal (et_state e) \<Longrightarrow> \<not> is_terminal st \<Longrightarrow>
     entry_log (evs @ [StateChanged i st]) i (put_state st e)"
  by (auto simp: entry_log_def log_at_def told_append)

lemma report_log:
  assumes log: "log_ok s" and d: "sy_drivers s i \<noteq> None"
  shows "log_ok (s\<lparr>sy_rt := report_progress i p now (sy_rt s)\<rparr>)"
proof (cases "\<exists>e. get_task (sy_rt s) i = Some e \<and> \<not> is_terminal (et_state e)")
  case False
  then have "report_progress i p now (sy_rt s) = sy_rt s"
    by (cases "get_task (sy_rt s) i") (auto simp: report_progress_def Let_def)
  with log show ?thesis by simp
next
  case True
  then obtain e where e: "get_task (sy_rt s) i = Some e" "\<not> is_terminal (et_state e)" by blast
  have one: "log_ok \<lparr>sy_rt = rt, sy_drivers = sy_drivers s\<rparr>"
    if "rt_events rt = rt_events (sy_rt s) @ new" "new = [] \<or> new = [Progressed i p]"
      "get_task rt = (get_task (sy_rt s))(i \<mapsto> map_throttle g (put_progress p e))"
      "new = [] \<longrightarrow> th_pending (g (et_throttle e))" for rt new g
    using that d e
    by (intro log_ok_one [OF log that(1), where i = i])
       (auto simp: entry_log_def log_at_def told_append)
  have "\<exists>new g. rt_events (report_progress i p now (sy_rt s)) = rt_events (sy_rt s) @ new
      \<and> (new = [] \<or> new = [Progressed i p])
      \<and> get_task (report_progress i p now (sy_rt s)) = (get_task (sy_rt s))(i \<mapsto> map_throttle g (put_progress p e))
      \<and> (new = [] \<longrightarrow> th_pending (g (et_throttle e)))"
    using e by (auto simp: report_progress_def Let_def)
  with one show ?thesis by (metis sys.surjective sys.update_convs(1) old.unit.exhaust)
qed

lemma flush_log:
  assumes log: "log_ok s" and d: "sy_drivers s i \<noteq> None \<or> get_task (sy_rt s) i = None"
    and rt0: "rt_events rt0 = rt_events (sy_rt s)" "get_task rt0 = get_task (sy_rt s)"
  shows "log_ok (s\<lparr>sy_rt := flush_progress i now rt0\<rparr>)"
proof (cases "get_task rt0 i")
  case None
  with log rt0 show ?thesis by (simp add: flush_progress_def log_ok_def)
next
  case (Some e)
  let ?e = "map_throttle (\<lambda>t. t\<lparr>th_flush_scheduled := False\<rparr>) e"
  let ?f = "map_throttle (\<lambda>t. t\<lparr>th_pending := False, th_last_sent := Some now\<rparr>) ?e"
  have old: "entry_log (rt_events (sy_rt s)) i e" using log Some rt0 by (simp add: log_ok_def)
  have shape: "s\<lparr>sy_rt := rt\<rparr> = \<lparr>sy_rt = rt, sy_drivers = sy_drivers s\<rparr>" for rt by simp
  show ?thesis
  proof (cases "th_pending (et_throttle e) \<and> \<not> is_terminal (et_state e)")
    case True
    then have "rt_events (flush_progress i now rt0) = rt_events (sy_rt s) @ [Progressed i (ti_progress (et_info e))]"
      "get_task (flush_progress i now rt0) = (get_task (sy_rt s))(i \<mapsto> ?f)"
      using Some rt0 by (auto simp: flush_progress_def Let_def)
    with True Some rt0 d show ?thesis
      unfolding shape
      by (intro log_ok_one [OF log, where i = i])
         (auto simp: entry_log_def log_at_def told_append)
  next
    case False
    then have "rt_events (flush_progress i now rt0) = rt_events (sy_rt s) @ []"
      "get_task (flush_progress i now rt0) = (get_task (sy_rt s))(i \<mapsto> ?e)"
      using Some rt0 by (auto simp: flush_progress_def Let_def)
    with False Some rt0 d old show ?thesis
      unfolding shape
      by (intro log_ok_one [OF log, where i = i]) (auto simp: entry_log_def)
  qed
qed

lemma start_log:
  assumes log: "log_ok s" and tree: "tree_ok s" and new: "sy_drivers s i = None"
    and start: "start i desc rs parent tok now (sy_rt s) = (ticket, rt)"
  shows "log_ok \<lparr>sy_rt = rt, sy_drivers = (sy_drivers s)(i \<mapsto> d)\<rparr>"
proof -
  have evs: "rt_events rt = rt_events (sy_rt s) @ [Submitted (new_info i desc parent now)]"
    using start by (cases parent) (auto simp: start_def Let_def)
  have id: "ti_id (new_info i desc parent now) = i" by (simp add: new_info_def)
  have quiet: "heard (rt_events (sy_rt s)) i = []" using log new by (simp add: log_ok_def)
  show ?thesis
  proof (rule log_ok_one [OF log evs, where i = i])
    fix e' assume "get_task rt i = Some e'"
    with start_tasks [OF start] have "e' = new_entry (rg_next_seq (rt_registry (sy_rt s))) (new_info i desc parent now) tok"
      by simp
    with quiet id show "entry_log (rt_events (sy_rt s) @ [Submitted (new_info i desc parent now)]) i e'"
      by (simp add: entry_log_def log_at_def)
  next
    fix j e' assume "j \<noteq> i" "get_task rt j = Some e'"
    with start_tasks [OF start] show "\<exists>e. get_task (sy_rt s) j = Some e \<and> same_log e e'"
      by (auto simp: same_log_def add_child_def split: option.splits if_splits)
  qed (use id in auto)
qed

lemma drive_events:
  assumes step: "drive i d rt ph rt' ph'" and going: "\<forall>st. ph \<noteq> Settling st"
    and e: "get_task rt i = Some e"
  shows "rt_events rt' = rt_events rt \<and> get_task rt' = get_task rt
     \<or> (\<exists>st. \<not> is_terminal st \<and> rt_events rt' = rt_events rt @ [StateChanged i st]
          \<and> get_task rt' = (get_task rt)(i \<mapsto> put_state st e))"
  using step
proof cases
  case (dr_queue n on)
  with e show ?thesis by (auto simp: set_queued_def intro: exI [of _ "Queued on"])
next
  case dr_start
  with e show ?thesis by (auto simp: set_state_def intro: exI [of _ Running])
next
  case dr_cancelling
  with e show ?thesis by (auto simp: set_state_def intro: exI [of _ Cancelling])
next
  case (dr_children_done n joined)
  then show ?thesis by (auto simp: finish_pass_def split: option.splits if_splits)
next
  case (dr_children_live n joined)
  then show ?thesis by (auto simp: finish_pass_def split: option.splits if_splits)
next
  case (dr_leave error)
  have "rt_events (leave_queue t rt) = rt_events rt" for t by (simp add: leave_queue_def)
  with dr_leave show ?thesis by simp
next
  case (dr_drop joined)
  have "rt_events (drop_slot sc rt) = rt_events rt" for sc by (simp add: drop_slot_def)
  with dr_drop show ?thesis by simp
next
  case (dr_admit n)
  have "rt_events rt' = rt_events rt"
    using dr_admit(3) by (auto simp: try_admit_def Let_def split: if_splits)
  with try_admit_tasks [OF dr_admit(3)] show ?thesis by simp
next
  case (dr_refuse err n)
  then show ?thesis by (auto simp: try_admit_def Let_def split: if_splits)
next
  case (dr_wait on n)
  then show ?thesis by (auto simp: try_admit_def Let_def split: if_splits)
qed (use going in auto)

lemma drive_log:
  assumes log: "log_ok s" and tree: "tree_ok s" and d: "sy_drivers s i = Some d"
    and step: "drive i d (sy_rt s) (dv_phase d) rt ph"
  shows "log_ok \<lparr>sy_rt = rt, sy_drivers = (sy_drivers s)(i \<mapsto> d\<lparr>dv_phase := ph\<rparr>)\<rparr>"
proof -
  have inv: "tree_inv (get_task (sy_rt s)) (sy_drivers s)" using tree by (simp add: tree_ok_def)
  have "dv_phase d \<noteq> Done" using step by (auto elim: drive.cases)
  from tree_inv_known [OF inv d this] obtain e where e: "get_task (sy_rt s) i = Some e" by blast
  have ph: "phase_ok (dv_phase d) e" by (rule tree_inv_phase(1) [OF inv e d])
  show ?thesis
  proof (cases "\<exists>st. dv_phase d = Settling st")
    case True
    then obtain st where st: "dv_phase d = Settling st" by blast
    with ph have "is_terminal st" by (simp add: phase_ok_def)
    moreover from step st obtain now where "rt = settle i st now (sy_rt s)" by (auto elim: drive.cases)
    ultimately show ?thesis using settle_log [OF log tree d st _ e] by simp
  next
    case False
    then have going: "\<forall>st. dv_phase d \<noteq> Settling st" by blast
    have live: "\<not> is_terminal (et_state e)"
      using ph False \<open>dv_phase d \<noteq> Done\<close> by (cases "dv_phase d") (auto simp: phase_ok_def)
    have old: "entry_log (rt_events (sy_rt s)) i e" using log e by (simp add: log_ok_def)
    from drive_events [OF step going e] show ?thesis
    proof (elim disjE exE conjE)
      assume "rt_events rt = rt_events (sy_rt s)" "get_task rt = get_task (sy_rt s)"
      then show ?thesis by (intro log_ok_quiet [OF log]) (auto split: if_splits)
    next
      fix st assume st: "\<not> is_terminal st" "rt_events rt = rt_events (sy_rt s) @ [StateChanged i st]"
        "get_task rt = (get_task (sy_rt s))(i \<mapsto> put_state st e)"
      show ?thesis
        by (rule log_ok_one [OF log st(2), where i = i])
           (use st put_state_log [OF old live st(1)] in auto)
    qed
  qed
qed

lemma step_log:
  assumes log: "log_ok s" and tree: "tree_ok s" and step: "step s s'"
  shows "log_ok s'"
proof -
  have quiet: "log_ok (s\<lparr>sy_rt := rt\<rparr>)"
    if "rt_events rt = rt_events (sy_rt s)" "get_task rt = get_task (sy_rt s)" for rt
    using log that by (simp add: log_ok_def)
  show ?thesis
    using step
  proof cases
    case (st_drive i d rt ph)
    with drive_log [OF log tree] show ?thesis by simp
  next
    case (st_submit i desc rs now ticket rt)
    with start_log [OF log tree] show ?thesis by (simp add: submit_def)
  next
    case (st_spawn i p pd desc rs now ticket rt)
    with start_log [OF log tree] show ?thesis by (simp add: submit_child_def)
  next
    case (st_progress i pr now)
    then have "sy_drivers s i \<noteq> None" by (auto simp: body_runs_def)
    with report_log [OF log] st_progress show ?thesis by simp
  next
    case (st_flush i due now)
    have inv: "tree_inv (get_task (sy_rt s)) (sy_drivers s)" using tree by (simp add: tree_ok_def)
    have "sy_drivers s i \<noteq> None \<or> get_task (sy_rt s) i = None" using tree_inv_new [OF inv, of i] by (cases "sy_drivers s i") auto
    with flush_log [OF log] st_flush(1) show ?thesis by simp
  next
    case (st_cancel i)
    with quiet [of "cancel i (sy_rt s)"] show ?thesis by (simp add: cancel_def split: option.splits)
  next
    case st_cancel_all
    with quiet [of "cancel_all (sy_rt s)"] show ?thesis by (simp add: cancel_all_def)
  next
    case (st_add_resource r rs)
    with quiet [of "add_resource r rs (sy_rt s)"] show ?thesis
      by (simp add: add_resource_def get_map_registry fun_eq_iff get_task_def)
  next
    case (st_set_resource r rs)
    with quiet [of "set_resource_state r rs (sy_rt s)"] show ?thesis
      by (simp add: set_resource_state_def get_map_registry fun_eq_iff get_task_def)
  next
    case (st_ready_resource r v)
    with quiet [of "set_resource_ready r v (sy_rt s)"] show ?thesis
      by (simp add: set_resource_ready_def get_map_registry fun_eq_iff get_task_def)
  qed
qed

theorem reachable_log: "reachable c s \<Longrightarrow> log_ok s"
proof (induction rule: reachable.induct)
  case reachable_new
  show ?case by (simp add: log_ok_def sys_new_def runtime_new_def registry_default_def get_task_def)
next
  case (reachable_step s s')
  then show ?case using step_log reachable_tree_ok by blast
qed

end
