(* ===== verification/TaskRun.thy ===== *)
theory TaskRun
  imports TaskWake TaskLog
begin

text \<open>
  The drivers, executed: a schedule of actions run by a function, every result of which is a
  reachable state. Examples of the properties are computed with it.
\<close>

datatype action =
    Act_submit task_id task_descriptor "resource_id list"
  | Act_spawn task_id task_id task_descriptor
  | Act_cancel task_id
  | Act_progress task_id progress instant
  | Act_flush task_id instant instant
  | Act_drive task_id bool "unit join"

text \<open>One step of a driver; the flag prefers the cancellation where both branches are ready.\<close>

fun drive_next :: "bool \<Rightarrow> unit join \<Rightarrow> task_id \<Rightarrow> driver \<Rightarrow> phase \<Rightarrow> runtime \<Rightarrow> (runtime \<times> phase) option" where
  "drive_next b j i d Entering rt = Some (rt, Deciding (rt_notifications rt))"
| "drive_next b j i d (Deciding n) rt =
     (case try_admit (dv_requires d) (dv_ticket d) rt of
        (Admit, rt') \<Rightarrow> Some (rt', Admitted)
      | (Fail e, rt') \<Rightarrow> Some (rt', Leaving (TE_Failed e))
      | (Wait on, rt') \<Rightarrow> Some (rt', Queueing n on))"
| "drive_next b j i d (Queueing n on) rt = Some (set_queued i on rt, Waiting n)"
| "drive_next b j i d (Waiting n) rt =
     (if b \<and> is_cancelled (rt_cancelled rt) (dv_token d) then Some (rt, Leaving TE_Cancelled)
      else if n < rt_notifications rt then Some (rt, Entering) else None)"
| "drive_next b j i d Admitted rt =
     Some (if tk_queued (dv_ticket d) then notify_waiters rt else rt, Starting)"
| "drive_next b j i d (Leaving error) rt =
     Some (if tk_queued (dv_ticket d) then leave_queue (dv_ticket d) rt else rt, Settling (state_of error))"
| "drive_next b j i d Starting rt = Some (set_state i Running rt, Body)"
| "drive_next b j i d Body rt =
     (if b then (if is_cancelled (rt_cancelled rt) (dv_token d) then Some (set_state i Cancelling rt, Joining) else None)
      else Some (rt, Dropping j))"
| "drive_next b j i d Joining rt = Some (rt, Dropping j)"
| "drive_next b j i d (Dropping joined) rt =
     Some (if tk_queued (dv_ticket d) then drop_slot (tk_scope (dv_ticket d)) rt else rt, Finishing joined)"
| "drive_next b j i d (Finishing joined) rt = Some (rt, Finish_check (rt_notifications rt) joined)"
| "drive_next b j i d (Finish_check n joined) rt =
     (case finish_pass i rt of (True, rt') \<Rightarrow> Some (rt', Concluding joined)
      | (False, rt') \<Rightarrow> Some (rt', Finish_wait n joined))"
| "drive_next b j i d (Finish_wait n joined) rt =
     (if n < rt_notifications rt then Some (rt, Finishing joined) else None)"
| "drive_next b j i d (Concluding joined) rt =
     Some (rt, Settling (state_of_outcome (outcome_of (is_cancelled (rt_cancelled rt) (dv_token d)) joined)))"
| "drive_next b j i d (Settling state) rt = Some (settle i state 0 rt, Done)"
| "drive_next b j i d Done rt = None"

lemma drive_next_sound:
  "drive_next b j i d ph rt = Some (rt', ph') \<Longrightarrow> drive i d rt ph rt' ph'"
  using dr_tell [of i d rt] dr_leave [of i d rt] dr_drop [of i d rt]
  by (cases ph) (auto intro: drive.intros split: prod.splits admission_decision.splits if_splits bool.splits)

definition act :: "action \<Rightarrow> sys \<Rightarrow> sys option" where
  "act a s = (case a of
      Act_submit i desc rs \<Rightarrow>
        (if sy_drivers s i \<noteq> None then None
         else (case submit i desc rs 0 (sy_rt s) of (ticket, rt) \<Rightarrow>
           Some \<lparr>sy_rt = rt, sy_drivers = (sy_drivers s)(i \<mapsto> new_driver rs ticket (token_new i) None)\<rparr>))
    | Act_spawn p i desc \<Rightarrow>
        (case sy_drivers s p of
           None \<Rightarrow> None
         | Some pd \<Rightarrow>
             if dv_phase pd \<notin> {Body, Joining} \<or> sy_drivers s i \<noteq> None then None
             else (case submit_child p (dv_token pd) i desc [] 0 (sy_rt s) of (ticket, rt) \<Rightarrow>
               Some \<lparr>sy_rt = rt, sy_drivers =
                 (sy_drivers s)(i \<mapsto> new_driver [] ticket (child_token (dv_token pd) i) (Some p))\<rparr>))
    | Act_cancel i \<Rightarrow> Some (s\<lparr>sy_rt := cancel i (sy_rt s)\<rparr>)
    | Act_progress i p now \<Rightarrow>
        (case sy_drivers s i of
           None \<Rightarrow> None
         | Some d \<Rightarrow> if dv_phase d \<in> {Body, Joining}
                     then Some (s\<lparr>sy_rt := report_progress i p now (sy_rt s)\<rparr>) else None)
    | Act_flush i due now \<Rightarrow>
        (if (i, due) \<in> set (rt_flushes (sy_rt s)) \<and> due \<le> now
         then Some (s\<lparr>sy_rt := flush_progress i now
                ((sy_rt s)\<lparr>rt_flushes := remove1 (i, due) (rt_flushes (sy_rt s))\<rparr>)\<rparr>)
         else None)
    | Act_drive i b j \<Rightarrow>
        (case sy_drivers s i of
           None \<Rightarrow> None
         | Some d \<Rightarrow>
             (case drive_next b j i d (dv_phase d) (sy_rt s) of
                None \<Rightarrow> None
              | Some (rt, ph) \<Rightarrow>
                  Some \<lparr>sy_rt = rt, sy_drivers = (sy_drivers s)(i \<mapsto> d\<lparr>dv_phase := ph\<rparr>)\<rparr>)))"

lemma act_step: "act a s = Some s' \<Longrightarrow> step s s'"
proof (cases a)
  case (Act_drive i b j)
  assume "act a s = Some s'"
  with Act_drive show ?thesis
    by (auto simp: act_def split: option.splits intro!: st_drive dest: drive_next_sound)
qed (auto simp: act_def body_runs_def split: option.splits if_splits prod.splits
       intro: st_submit st_spawn st_cancel st_progress st_flush)

fun run :: "action list \<Rightarrow> sys \<Rightarrow> sys option" where
  "run [] s = Some s"
| "run (a # as) s = (case act a s of None \<Rightarrow> None | Some s' \<Rightarrow> run as s')"

lemma run_reachable_from: "reachable c s \<Longrightarrow> run as s = Some s' \<Longrightarrow> reachable c s'"
  by (induction "as" arbitrary: s) (auto split: option.splits dest: act_step intro: reachable_step)

lemma run_reachable: "run as (sys_new c) = Some s \<Longrightarrow> reachable c s"
  by (rule run_reachable_from [OF reachable_new])

text \<open>The examples run under the default caps, with a short interval and little retention.\<close>

definition example_config :: config where
  "example_config =
     \<lparr>interactive_cap = None, transfer_cap = Some 2, background_cap = Some 1, retained_roots = 2,
      progress_interval = 10, item_buffer = 1, event_buffer = 1\<rparr>"

definition after :: "action list \<Rightarrow> sys" where
  "after as = (case run as (sys_new example_config) of Some s \<Rightarrow> s | None \<Rightarrow> sys_new example_config)"

lemma after_reachable: "reachable example_config (after as)"
  by (auto simp: after_def split: option.split intro: run_reachable reachable_new)

definition go :: "task_id \<Rightarrow> nat \<Rightarrow> action list" where
  "go i n = replicate n (Act_drive i False (Joined (Inr ())))"

definition job :: "admission_class \<Rightarrow> task_descriptor" where
  "job cls = task_descriptor_new ''job'' cls"

definition phase_after :: "action list \<Rightarrow> task_id \<Rightarrow> phase option" where
  "phase_after as i = map_option dv_phase (sy_drivers (after as) i)"

text \<open>Two background jobs under a cap of one: the first runs, the second sleeps in the queue.\<close>

definition two_jobs :: "action list" where
  "two_jobs = [Act_submit 1 (job Background) [], Act_submit 2 (job Background) []] @ go 1 5 @ go 2 3"

lemma two_jobs_phases:
  "phase_after two_jobs 1 = Some (Dropping (Joined (Inr ()))) \<and> phase_after two_jobs 2 = Some (Waiting 1)"
  by code_simp

end
