(* ===== verification/TaskProperties.thy ===== *)
theory TaskProperties
  imports TaskRun
begin

text \<open>What the runtime promises of its tasks, over every interleaving of their drivers.\<close>

section \<open>Admission\<close>



text \<open>
  C4. A capped scope is first in, first out: the root that is admitted was submitted before
  every other that is still waiting for a place in its scope.
\<close>

theorem admission_is_fifo:
  assumes "reachable c s" and "sy_drivers s i = Some d" and "tk_queued (dv_ticket d)"
    and "drive i d (sy_rt s) (dv_phase d) rt Admitted"
    and "j \<in> waiters (sy_drivers s) (tk_scope (dv_ticket d))" and "j \<noteq> i"
  shows "seq_of (sy_drivers s) i < seq_of (sy_drivers s) j"
proof -
  let ?r = "rt_registry (sy_rt s)" and ?D = "sy_drivers s" and ?sc = "tk_scope (dv_ticket d)"
  have conf: "rt_config (sy_rt s) = c" and inv: "gate_inv c ?r ?D"
    using reachable_admit_ok [OF assms(1)] by (auto simp: admit_ok_def)
  note I = gate_invD [OF inv]
  obtain cap where cap: "config_cap c (fst ?sc) = Some cap" using I(5) [OF assms(2)] assms(3) by auto
  have "try_admit (dv_requires d) (dv_ticket d) (sy_rt s) = (Admit, rt)"
    using assms(4) by (auto elim: drive.cases)
  from try_admit_views(1) [OF this] assms(3) cap conf
  have "admission ?r (dv_requires d) (dv_ticket d) (Some cap) = Admit" by (simp add: admission_cap_def)
  from admission_Admit [OF this] obtain q where q: "queue_of ?r ?sc = tk_seq (dv_ticket d) # q" by blast
  from assms(5) I(3) [of ?sc] have "seq_of ?D j \<in> set (queue_of ?r ?sc)" by blast
  moreover have "seq_of ?D j \<noteq> seq_of ?D i"
    using assms(2,5,6) I(6) [of i d j] by (auto simp: seq_of_def waiters_def)
  moreover have "seq_of ?D i = tk_seq (dv_ticket d)" using assms(2) by (simp add: seq_of_def)
  ultimately show ?thesis using q I(1) [of ?sc] by (auto simp: order.strict_iff_order)
qed

theorem admission_is_fifo_witness:
  "seq_of (sy_drivers (after [Act_submit 1 (job Background) [], Act_submit 2 (job Background) [], Act_drive 1 False (Joined (Inr ()))])) 1
     < seq_of (sy_drivers (after [Act_submit 1 (job Background) [], Act_submit 2 (job Background) [], Act_drive 1 False (Joined (Inr ()))])) 2"
proof -
  let ?s = "after [Act_submit 1 (job Background) [], Act_submit 2 (job Background) [], Act_drive 1 False (Joined (Inr ()))]"
  let ?d = "the (sy_drivers ?s 1)"
  let ?rt = "fst (the (drive_next False (Joined (Inr ())) 1 ?d (dv_phase ?d) (sy_rt ?s)))"
  have "sy_drivers ?s 1 \<noteq> None" by code_simp
  then have d: "sy_drivers ?s 1 = Some ?d" by simp
  have queued: "tk_queued (dv_ticket ?d)" by code_simp
  have "drive_next False (Joined (Inr ())) 1 ?d (dv_phase ?d) (sy_rt ?s) \<noteq> None
      \<and> snd (the (drive_next False (Joined (Inr ())) 1 ?d (dv_phase ?d) (sy_rt ?s))) = Admitted" by code_simp
  then have "drive_next False (Joined (Inr ())) 1 ?d (dv_phase ?d) (sy_rt ?s) = Some (?rt, Admitted)"
    by (metis option.exhaust_sel prod.exhaust_sel)
  from drive_next_sound [OF this] have step: "drive 1 ?d (sy_rt ?s) (dv_phase ?d) ?rt Admitted" .
  have "sy_drivers ?s 2 \<noteq> None \<and> capped_in (tk_scope (dv_ticket ?d)) (the (sy_drivers ?s 2))
      \<and> in_queue (dv_phase (the (sy_drivers ?s 2)))" by code_simp
  then have "2 \<in> waiters (sy_drivers ?s) (tk_scope (dv_ticket ?d))" by (auto simp: waiters_def)
  from admission_is_fifo [OF after_reachable d queued step this] show ?thesis by simp
qed



section \<open>The tree\<close>

definition child_of :: "task_map \<Rightarrow> (task_id \<times> task_id) set" where
  "child_of T = {(p, c). \<exists>e. T p = Some e \<and> c \<in> set (et_children e)}"

text \<open>
  C6. A child cannot outlive its parent: in every reachable state a task's count of live children
  is the number of its children that have not settled, and once a task has settled every task
  below it in the tree has settled, at any depth.
\<close>

theorem settled_with_its_subtree:
  assumes "reachable c s" and "get_task (sy_rt s) p = Some e"
  shows "et_live_children e = length (filter (live (get_task (sy_rt s))) (et_children e))
    \<and> (is_terminal (et_state e) \<longrightarrow> (\<forall>q. (p, q) \<in> (child_of (get_task (sy_rt s)))\<^sup>* \<longrightarrow>
         (\<exists>qe. get_task (sy_rt s) q = Some qe \<and> is_terminal (et_state qe))))"
proof -
  have inv: "tree_inv (get_task (sy_rt s)) (sy_drivers s)"
    using reachable_tree_ok [OF assms(1)] by (simp add: tree_ok_def)
  have "\<exists>qe. get_task (sy_rt s) q = Some qe \<and> is_terminal (et_state qe)"
    if "(p, q) \<in> (child_of (get_task (sy_rt s)))\<^sup>*" "is_terminal (et_state e)" for q
    using that(1)
  proof (induction rule: rtrancl_induct)
    case base
    with assms(2) that(2) show ?case by blast
  next
    case (step y z)
    then obtain ye where "get_task (sy_rt s) y = Some ye" "is_terminal (et_state ye)" "z \<in> set (et_children ye)"
      by (auto simp: child_of_def)
    with settled_children [OF inv] show ?case by blast
  qed
  with tree_inv_counted [OF inv assms(2)] show ?thesis by (auto simp: counted_def)
qed

text \<open>A parent whose body ends while its child runs: it waits, and settles after it.\<close>

definition family :: "action list" where
  "family = [Act_submit 1 (job Interactive) []] @ go 1 4 @ [Act_spawn 1 2 (job Interactive)] @ go 2 4 @ go 1 4"

lemma family_phases:
  "phase_after family 1 = Some (Finish_wait 0 (Joined (Inr ()))) \<and> phase_after family 2 = Some Body"
  by code_simp

definition family_done :: "action list" where
  "family_done = family @ go 2 6 @ go 1 5"

theorem settled_with_its_subtree_witness:
  "\<exists>e. get_task (sy_rt (after family_done)) 1 = Some e \<and> is_terminal (et_state e) \<and> et_children e = [2]
     \<and> (\<exists>ce. get_task (sy_rt (after family_done)) 2 = Some ce \<and> is_terminal (et_state ce))"
proof -
  let ?T = "get_task (sy_rt (after family_done))"
  have "?T 1 \<noteq> None \<and> et_state (the (?T 1)) = Succeeded \<and> et_children (the (?T 1)) = [2]" by code_simp
  then obtain e where e: "?T 1 = Some e" "et_state e = Succeeded" "et_children e = [2]" by auto
  then have "(1, 2) \<in> (child_of ?T)\<^sup>*" by (auto simp: child_of_def)
  with settled_with_its_subtree [OF after_reachable e(1)] e show ?thesis by auto
qed

section \<open>Cancellation\<close>

text \<open>A task's token hangs from its parent's.\<close>

definition token_ok :: "(task_id \<Rightarrow> driver option) \<Rightarrow> task_id \<Rightarrow> driver \<Rightarrow> bool" where
  "token_ok D i d \<longleftrightarrow>
     (case dv_parent d of
        None \<Rightarrow> dv_token d = [i]
      | Some p \<Rightarrow> (\<exists>pd. D p = Some pd \<and> dv_token d = i # dv_token pd))"

definition tokens_ok :: "(task_id \<Rightarrow> driver option) \<Rightarrow> bool" where
  "tokens_ok D \<longleftrightarrow> (\<forall>i d. D i = Some d \<longrightarrow> token_ok D i d)"

definition same_tokens :: "(task_id \<Rightarrow> driver option) \<Rightarrow> (task_id \<Rightarrow> driver option) \<Rightarrow> bool" where
  "same_tokens D D' \<longleftrightarrow> (\<forall>p pd. D p = Some pd \<longrightarrow> (\<exists>pd'. D' p = Some pd' \<and> dv_token pd' = dv_token pd))"

lemma token_ok_later:
  "token_ok D i d \<Longrightarrow> same_tokens D D' \<Longrightarrow> dv_parent d' = dv_parent d \<Longrightarrow> dv_token d' = dv_token d \<Longrightarrow>
     token_ok D' i d'"
  by (fastforce simp: token_ok_def same_tokens_def split: option.splits)

lemma same_tokens_updates:
  "D i = Some d \<Longrightarrow> same_tokens D (D(i \<mapsto> d\<lparr>dv_phase := ph\<rparr>))" "D i = None \<Longrightarrow> same_tokens D (D(i \<mapsto> d))"
  by (simp_all add: same_tokens_def)

lemma tokens_ok_move:
  assumes "tokens_ok D" "D i = Some d"
  shows "tokens_ok (D(i \<mapsto> d\<lparr>dv_phase := ph\<rparr>))"
  unfolding tokens_ok_def
proof (intro allI impI)
  fix j y assume "(D(i \<mapsto> d\<lparr>dv_phase := ph\<rparr>)) j = Some y"
  then obtain x where "D j = Some x" "dv_parent y = dv_parent x" "dv_token y = dv_token x"
    using assms(2) by (auto split: if_splits)
  with assms token_ok_later [OF _ same_tokens_updates(1)] show "token_ok (D(i \<mapsto> d\<lparr>dv_phase := ph\<rparr>)) j y"
    unfolding tokens_ok_def by blast
qed

lemma tokens_ok_new:
  assumes "tokens_ok D" "D i = None" "token_ok D i d"
  shows "tokens_ok (D(i \<mapsto> d))"
  unfolding tokens_ok_def
proof (intro allI impI)
  fix j y assume "(D(i \<mapsto> d)) j = Some y"
  with assms have "token_ok D j y" by (auto simp: tokens_ok_def split: if_splits)
  with token_ok_later [OF _ same_tokens_updates(2) [of D, OF assms(2)]] show "token_ok (D(i \<mapsto> d)) j y" by blast
qed

lemma reachable_tokens: "reachable c s \<Longrightarrow> tokens_ok (sy_drivers s)"
proof (induction rule: reachable.induct)
  case reachable_new
  then show ?case by (simp add: tokens_ok_def sys_new_def)
next
  case (reachable_step s s')
  from reachable_step(2) show ?case
  proof cases
    case (st_drive i d rt ph)
    from tokens_ok_move [OF reachable_step.IH st_drive(2)] show ?thesis
      unfolding st_drive(1) sys.select_convs .
  next
    case (st_submit i desc rs now ticket rt)
    have "token_ok (sy_drivers s) i (new_driver rs ticket (token_new i) None)"
      by (simp add: token_ok_def new_driver_def token_new_def)
    from tokens_ok_new [OF reachable_step.IH st_submit(2) this] show ?thesis
      unfolding st_submit(1) sys.select_convs .
  next
    case (st_spawn i p pd desc rs now ticket rt)
    have "token_ok (sy_drivers s) i (new_driver rs ticket (child_token (dv_token pd) i) (Some p))"
      using st_spawn(4) by (simp add: token_ok_def new_driver_def child_token_def)
    from tokens_ok_new [OF reachable_step.IH st_spawn(2) this] show ?thesis
      unfolding st_spawn(1) sys.select_convs .
  qed (use reachable_step.IH in simp_all)
qed

lemma token_head: "token_ok D i d \<Longrightarrow> \<exists>rest. dv_token d = i # rest"
  by (auto simp: token_ok_def split: option.splits)

text \<open>
  Cancelling a task cancels its subtree: from a reachable state, the token of every task at
  or below an unsettled task is cancelled after \<open>cancel\<close>; for a task that is settled or unknown
  \<open>cancel\<close> does nothing.
\<close>

theorem cancel_reaches_the_subtree:
  assumes "reachable c s"
  shows "(\<forall>e q qe. get_task (sy_rt s) i = Some e \<and> \<not> is_terminal (et_state e)
        \<and> (i, q) \<in> (child_of (get_task (sy_rt s)))\<^sup>* \<and> get_task (sy_rt s) q = Some qe \<longrightarrow>
        is_cancelled (rt_cancelled (cancel i (sy_rt s))) (et_token qe))
    \<and> ((\<forall>e. get_task (sy_rt s) i = Some e \<longrightarrow> is_terminal (et_state e)) \<longrightarrow> cancel i (sy_rt s) = sy_rt s)"
proof (intro conjI allI impI; (elim conjE)?)
  fix e q qe
  assume e: "get_task (sy_rt s) i = Some e" "\<not> is_terminal (et_state e)"
    and below: "(i, q) \<in> (child_of (get_task (sy_rt s)))\<^sup>*" and qe: "get_task (sy_rt s) q = Some qe"
  have inv: "tree_inv (get_task (sy_rt s)) (sy_drivers s)"
    using reachable_tree_ok [OF assms] by (simp add: tree_ok_def)
  have tokens: "tokens_ok (sy_drivers s)" by (rule reachable_tokens [OF assms])
  have own: "\<exists>rest. et_token x = j # rest" if "get_task (sy_rt s) j = Some x" for j x
    using tree_inv_driven [OF inv that] tokens token_head by (fastforce simp: driven_def tokens_ok_def)
  have "i \<in> set (et_token qe)"
    using below qe
  proof (induction arbitrary: qe rule: rtrancl_induct)
    case base
    with own show ?case by fastforce
  next
    case (step y z)
    then obtain ye where ye: "get_task (sy_rt s) y = Some ye" "z \<in> set (et_children ye)"
      by (auto simp: child_of_def)
    with tree_inv_child [OF inv ye] step.prems have "et_parent qe = Some y" by auto
    moreover obtain d where d: "sy_drivers s z = Some d" "et_token qe = dv_token d" "et_parent qe = dv_parent d"
      using tree_inv_driven [OF inv step.prems] by (auto simp: driven_def)
    ultimately obtain yd where "sy_drivers s y = Some yd" "et_token qe = z # dv_token yd"
      using tokens by (fastforce simp: tokens_ok_def token_ok_def)
    with tree_inv_phase(2) [OF inv ye(1)] step.IH [OF ye(1)] show ?case by auto
  qed
  moreover from own [OF e(1)] have "i \<in> rt_cancelled (cancel i (sy_rt s))"
    using e by (auto simp: cancel_def token_cancel_def)
  ultimately show "is_cancelled (rt_cancelled (cancel i (sy_rt s))) (et_token qe)"
    by (auto simp: is_cancelled_def)
qed (auto simp: cancel_def split: option.split)

theorem cancel_reaches_the_subtree_witness:
  "\<exists>e. get_task (sy_rt (after family)) 2 = Some e
     \<and> is_cancelled (rt_cancelled (cancel 1 (sy_rt (after family)))) (et_token e)
     \<and> cancel 7 (sy_rt (after family)) = sy_rt (after family)"
proof -
  let ?T = "get_task (sy_rt (after family))"
  have "?T 1 \<noteq> None \<and> \<not> is_terminal (et_state (the (?T 1))) \<and> et_children (the (?T 1)) = [2] \<and> ?T 2 \<noteq> None \<and> ?T 7 = None"
    by code_simp
  then obtain e ce where e: "?T 1 = Some e" "\<not> is_terminal (et_state e)" "et_children e = [2]" "?T 2 = Some ce" "?T 7 = None"
    by auto
  then have "(1, 2) \<in> (child_of ?T)\<^sup>*" by (auto simp: child_of_def)
  with cancel_reaches_the_subtree [OF after_reachable, of family 1] e
    cancel_reaches_the_subtree [OF after_reachable, of family 7]
  show ?thesis by auto
qed

text \<open>
  How a body's end settles its task: it succeeded whenever the body returned its output,
  cancelled or not; it is cancelled exactly when the body was interrupted and a cancel had been
  requested; and it failed, with that error or with the panic, in every other case.
\<close>

theorem outcome_table:
  "(state_of_outcome (outcome_of cancelled joined) = Succeeded \<longleftrightarrow> (\<exists>output. joined = Joined (Ok output)))
   \<and> (state_of_outcome (outcome_of cancelled joined) = Cancelled \<longleftrightarrow>
        (\<exists>error. joined = Joined (Err error) \<and> io_kind error = Io_Interrupted \<and> cancelled))
   \<and> (state_of_outcome (outcome_of cancelled joined) = Failed error \<longleftrightarrow>
        joined = Joined (Err error) \<and> \<not> (io_kind error = Io_Interrupted \<and> cancelled)
        \<or> (\<exists>why. joined = Panicked why \<and> error = io_error_new Io_Other (''the task panicked: '' @ why)))"
  by (auto simp: outcome_of_def state_of_outcome_def split: join.splits sum.splits if_splits)

text \<open>
  A cancel that comes before the driver first looks does not stop the body: the task is
  queued and its token cancelled, and its driver, alone, still takes it to its body, because only
  the wait for a place watches the token and a free place is taken without waiting.
\<close>

theorem queued_cancel_can_still_run:
  "\<exists>e d. get_task (sy_rt (after [Act_submit 1 (job Transfer) [], Act_cancel 1])) 1 = Some e
      \<and> et_state e = Queued None
      \<and> is_cancelled (rt_cancelled (sy_rt (after [Act_submit 1 (job Transfer) [], Act_cancel 1]))) (et_token e)
      \<and> sy_drivers (after ([Act_submit 1 (job Transfer) [], Act_cancel 1] @ go 1 4)) 1 = Some d
      \<and> dv_phase d = Body"
proof -
  let ?s = "after [Act_submit 1 (job Transfer) [], Act_cancel 1]"
  have "get_task (sy_rt ?s) 1 \<noteq> None \<and> et_state (the (get_task (sy_rt ?s) 1)) = Queued None
      \<and> is_cancelled (rt_cancelled (sy_rt ?s)) (et_token (the (get_task (sy_rt ?s) 1)))
      \<and> sy_drivers (after ([Act_submit 1 (job Transfer) [], Act_cancel 1] @ go 1 4)) 1 \<noteq> None
      \<and> dv_phase (the (sy_drivers (after ([Act_submit 1 (job Transfer) [], Act_cancel 1] @ go 1 4)) 1)) = Body"
    by code_simp
  then show ?thesis by auto
qed

section \<open>The lifecycle\<close>

fun next_state :: "task_state \<Rightarrow> task_state \<Rightarrow> bool" where
  "next_state (Queued _) (Queued _) = True"
| "next_state (Queued _) Running = True"
| "next_state (Queued _) (Failed _) = True"
| "next_state (Queued _) Cancelled = True"
| "next_state Running Cancelling = True"
| "next_state Running st = is_terminal st"
| "next_state Cancelling st = is_terminal st"
| "next_state _ _ = False"

definition moved_on :: "runtime \<Rightarrow> runtime \<Rightarrow> task_id \<Rightarrow> task_state \<Rightarrow> task_state \<Rightarrow> bool" where
  "moved_on rt rt' i st st' \<longleftrightarrow> st' = st
     \<or> next_state st st' \<and> (\<exists>new. rt_events rt' = rt_events rt @ new \<and> StateChanged i st' \<in> set new)"

lemma not_settled_before:
  assumes "tree_ok s" "sy_drivers s i = Some d" "dv_phase d = Settling st" "get_task (sy_rt s) i = Some e"
  shows "is_terminal st \<and> (next_state (et_state e) st \<or> (\<exists>w. et_state e = Queued w \<and> st = Succeeded))"
proof -
  have "tree_inv (get_task (sy_rt s)) (sy_drivers s)" using assms(1) by (simp add: tree_ok_def)
  from tree_inv_phase(1) [OF this assms(4,2)] assms(3)
  have "\<not> is_terminal (et_state e)" "is_terminal st" by (auto simp: phase_ok_def)
  then show ?thesis by (cases "et_state e"; cases st) auto
qed

text \<open>A task that settles without having run was not one that succeeded.\<close>

definition settling_ok :: "sys \<Rightarrow> bool" where
  "settling_ok s \<longleftrightarrow> (\<forall>i d e w. sy_drivers s i = Some d \<and> dv_phase d = Settling Succeeded
     \<and> get_task (sy_rt s) i = Some e \<longrightarrow> et_state e \<noteq> Queued w)"

lemma state_of_not_succeeded [simp]: "state_of err \<noteq> Succeeded"
  by (cases err) auto

lemma drive_state:
  assumes tree: "tree_ok s" and d: "sy_drivers s i = Some d" and e: "get_task (sy_rt s) i = Some e"
    and step: "drive i d (sy_rt s) (dv_phase d) rt ph" and e': "get_task rt i = Some e'"
    and ok: "settling_ok s"
  shows "moved_on (sy_rt s) rt i (et_state e) (et_state e')
    \<and> (ph = Settling Succeeded \<longrightarrow> (\<forall>w. et_state e' \<noteq> Queued w))"
proof -
  have inv: "tree_inv (get_task (sy_rt s)) (sy_drivers s)" using tree by (simp add: tree_ok_def)
  have ph: "phase_ok (dv_phase d) e" by (rule tree_inv_phase(1) [OF inv e d])
  show ?thesis
    using step
  proof cases
    case (dr_queue n on)
    with e e' ph show ?thesis by (auto simp: moved_on_def set_queued_def phase_ok_def split: if_splits)
  next
    case dr_start
    with e e' ph show ?thesis by (auto simp: moved_on_def set_state_def phase_ok_def)
  next
    case dr_cancelling
    with e e' ph show ?thesis by (auto simp: moved_on_def set_state_def phase_ok_def)
  next
    case (dr_settle st now)
    have st: "is_terminal st" "next_state (et_state e) st"
      using not_settled_before [OF tree d dr_settle(1) e] ok d e dr_settle(1)
      by (auto simp: settling_ok_def)
    have "et_state e' = st"
      using settle_entries [OF tree d dr_settle(1) st(1) e, of now i e'] e' dr_settle(2) by simp
    with settle_events [OF e, of st now] st dr_settle show ?thesis by (auto simp: moved_on_def)
  next
    case (dr_conclude joined)
    with e e' ph show ?thesis by (auto simp: moved_on_def phase_ok_def)
  next
    case (dr_children_done n joined)
    with finish_pass_tasks [OF dr_children_done(3)] e e' show ?thesis by (auto simp: moved_on_def)
  next
    case (dr_children_live n joined)
    with finish_pass_tasks [OF dr_children_live(3)] e e' show ?thesis by (auto simp: moved_on_def)
  qed (use e e' in \<open>auto simp: moved_on_def dest: try_admit_tasks split: if_splits\<close>)
qed

text \<open>Steps that are not the task's own driver's leave its state alone.\<close>

lemma others_state:
  assumes tree: "tree_ok s" and step: "step s s'" and e: "get_task (sy_rt s) i = Some e"
    and e': "get_task (sy_rt s') i = Some e'"
  shows "et_state e' = et_state e
    \<or> (\<exists>d ph. sy_drivers s i = Some d \<and> drive i d (sy_rt s) (dv_phase d) (sy_rt s') ph
         \<and> sy_drivers s' i = Some (d\<lparr>dv_phase := ph\<rparr>))"
proof -
  have inv: "tree_inv (get_task (sy_rt s)) (sy_drivers s)" using tree by (simp add: tree_ok_def)
  show ?thesis
    using step
  proof cases
    case (st_drive j d rt ph)
    show ?thesis
    proof (cases "j = i")
      case True
      with st_drive show ?thesis by auto
    next
      case False
      have "dv_phase d \<noteq> Done" using st_drive(3) by (auto elim: drive.cases)
      from tree_inv_known [OF inv st_drive(2) this] obtain je where je: "get_task (sy_rt s) j = Some je" by blast
      have rt: "sy_rt s' = rt" using st_drive(1) by simp
      have "et_state e' = et_state e"
      proof (cases "\<exists>st. dv_phase d = Settling st")
        case True
        then obtain st where st: "dv_phase d = Settling st" by blast
        with st_drive(3) obtain now where "rt = settle j st now (sy_rt s)" by (auto elim: drive.cases)
        with settle_entries [OF tree st_drive(2) st _ je, of now i e'] e' rt e False
          not_settled_before [OF tree st_drive(2) st je]
        show ?thesis by (auto simp: same_log_def)
      next
        case False
        with drive_events [OF st_drive(3) _ je] e e' rt \<open>j \<noteq> i\<close> show ?thesis by auto
      qed
      then show ?thesis ..
    qed
  next
    case (st_submit j desc rs now ticket rt)
    have "j \<noteq> i" using tree_inv_new [OF inv st_submit(2)] e by auto
    with start_tasks [OF st_submit(3) [unfolded submit_def]] e e' st_submit(1) show ?thesis by auto
  next
    case (st_spawn j p pd desc rs now ticket rt)
    have "j \<noteq> i" using tree_inv_new [OF inv st_spawn(2)] e by auto
    with start_tasks [OF st_spawn(5) [unfolded submit_child_def]] e e' st_spawn(1) show ?thesis
      by (auto simp: add_child_def split: if_splits)
  next
    case (st_progress j pr now)
    with report_tasks [of j pr now "sy_rt s"] e e' show ?thesis by (auto split: if_splits)
  next
    case (st_flush j due now)
    with flush_tasks [of j now "(sy_rt s)\<lparr>rt_flushes := remove1 (j, due) (rt_flushes (sy_rt s))\<rparr>"] e e'
    show ?thesis by (auto split: if_splits)
  next
    case (st_cancel j)
    with e e' show ?thesis by (auto simp: cancel_def split: option.splits if_splits)
  next
    case st_cancel_all
    with e e' show ?thesis by (simp add: cancel_all_def)
  next
    case (st_add_resource r rs)
    with e e' show ?thesis by (simp add: add_resource_def get_map_registry) (simp add: get_task_def)
  next
    case (st_set_resource r rs)
    with e e' show ?thesis by (simp add: set_resource_state_def get_map_registry) (simp add: get_task_def)
  next
    case (st_ready_resource r v)
    with e e' show ?thesis by (simp add: set_resource_ready_def get_map_registry) (simp add: get_task_def)
  qed
qed

lemma step_driver:
  assumes "step s s'" "sy_drivers s' i = Some d'"
  shows "(\<exists>d. sy_drivers s i = Some d \<and> (d' = d
      \<or> (\<exists>ph. d' = d\<lparr>dv_phase := ph\<rparr> \<and> drive i d (sy_rt s) (dv_phase d) (sy_rt s') ph)))
    \<or> dv_phase d' = Entering"
  using assms(1)
proof cases
  case (st_drive j d rt ph)
  with assms(2) show ?thesis by (cases "j = i") auto
qed (use assms(2) in \<open>auto simp: new_driver_def split: if_splits\<close>)

lemma step_settling:
  assumes tree: "tree_ok s" and tree': "tree_ok s'" and ok: "settling_ok s" and step: "step s s'"
  shows "settling_ok s'"
  unfolding settling_ok_def
proof (intro allI impI; elim conjE)
  fix i d' e' w
  assume d': "sy_drivers s' i = Some d'" "dv_phase d' = Settling Succeeded" and e': "get_task (sy_rt s') i = Some e'"
  have inv: "tree_inv (get_task (sy_rt s)) (sy_drivers s)" using tree by (simp add: tree_ok_def)
  from step_driver [OF step d'(1)] d'(2) obtain d where d: "sy_drivers s i = Some d"
    and how: "d' = d \<or> (\<exists>ph. d' = d\<lparr>dv_phase := ph\<rparr> \<and> drive i d (sy_rt s) (dv_phase d) (sy_rt s') ph)" by auto
  have "dv_phase d \<noteq> Done" using how d'(2) by (auto elim: drive.cases)
  from tree_inv_known [OF inv d this] obtain e where e: "get_task (sy_rt s) i = Some e" by blast
  from how show "et_state e' \<noteq> Queued w"
  proof (elim disjE exE conjE)
    fix ph assume "d' = d\<lparr>dv_phase := ph\<rparr>" "drive i d (sy_rt s) (dv_phase d) (sy_rt s') ph"
    with drive_state [OF tree d e _ e' ok, of ph] d'(2) show ?thesis by simp
  next
    assume same: "d' = d"
    from others_state [OF tree step e e'] show ?thesis
    proof (elim disjE exE conjE)
      assume "et_state e' = et_state e"
      with ok d e same d'(2) show ?thesis by (auto simp: settling_ok_def)
    next
      fix d0 ph assume "sy_drivers s i = Some d0" "drive i d0 (sy_rt s) (dv_phase d0) (sy_rt s') ph"
        "sy_drivers s' i = Some (d0\<lparr>dv_phase := ph\<rparr>)"
      with d d' same have moved: "drive i d (sy_rt s) (dv_phase d) (sy_rt s') ph" "d\<lparr>dv_phase := ph\<rparr> = d"
        by auto
      from arg_cong [OF moved(2), of dv_phase] same d'(2) have "ph = Settling Succeeded" by simp
      with moved(1) have "drive i d (sy_rt s) (dv_phase d) (sy_rt s') ph" "ph = Settling Succeeded" by simp_all
      with drive_state [OF tree d e _ e' ok, of ph] show ?thesis by simp
    qed
  qed
qed

lemma reachable_settling: "reachable c s \<Longrightarrow> settling_ok s"
proof (induction rule: reachable.induct)
  case reachable_new
  then show ?case by (simp add: settling_ok_def sys_new_def)
next
  case (reachable_step s s')
  have "reachable c s'" using reachable_step(1,2) by (rule reachable.intros)
  with reachable_tree_ok [OF this] reachable_tree_ok [OF reachable_step(1)] step_settling reachable_step
  show ?case by blast
qed

lemma state_moves:
  assumes "reachable c s" and "step s s'"
    and "get_task (sy_rt s) i = Some e" and "get_task (sy_rt s') i = Some e'"
  shows "moved_on (sy_rt s) (sy_rt s') i (et_state e) (et_state e')"
proof -
  have tree: "tree_ok s" by (rule reachable_tree_ok [OF assms(1)])
  have ok: "settling_ok s" by (rule reachable_settling [OF assms(1)])
  show ?thesis
    using others_state [OF tree assms(2,3,4)] drive_state [OF tree _ assms(3) _ assms(4) ok]
    by (auto simp: moved_on_def)
qed

lemma next_state_live: "next_state st st' \<Longrightarrow> \<not> is_terminal st"
  by (cases st) auto



text \<open>
  C8. Observers learn the last of a task before its end and nothing after it: once a task has
  settled, the events about it are those up to one announcement of its final state, which is
  the last of them, and the progress they last told of is the progress the task ended with.
\<close>

theorem progress_is_told_before_the_end:
  assumes "reachable c s" and "get_task (sy_rt s) i = Some e" and "is_terminal (et_state e)"
  shows "\<exists>pre. heard (rt_events (sy_rt s)) i = pre @ [StateChanged i (et_state e)]
    \<and> told progress_default pre = ti_progress (et_info e)"
  using reachable_log [OF assms(1)] assms(2,3)
  by (auto simp: log_ok_def entry_log_def log_at_def)

definition steps_done :: "nat \<Rightarrow> progress" where
  "steps_done n = \<lparr>pr_phase = None, pr_measure = Items n None\<rparr>"

theorem progress_is_told_before_the_end_witness:
  "\<exists>pre. heard (rt_events (sy_rt (after (Act_submit 1 (job Interactive) [] # go 1 4
        @ [Act_progress 1 (steps_done 1) 0, Act_progress 1 (steps_done 2) 5] @ go 1 6)))) 1
      = pre @ [StateChanged 1 Succeeded] \<and> told progress_default pre = steps_done 2"
proof -
  let ?s = "after (Act_submit 1 (job Interactive) [] # go 1 4
        @ [Act_progress 1 (steps_done 1) 0, Act_progress 1 (steps_done 2) 5] @ go 1 6)"
  have "get_task (sy_rt ?s) 1 \<noteq> None \<and> et_state (the (get_task (sy_rt ?s) 1)) = Succeeded
      \<and> ti_progress (et_info (the (get_task (sy_rt ?s) 1))) = steps_done 2" by code_simp
  then obtain e where "get_task (sy_rt ?s) 1 = Some e" "et_state e = Succeeded" "ti_progress (et_info e) = steps_done 2"
    by auto
  with progress_is_told_before_the_end [OF after_reachable, of _ 1 e] show ?thesis by simp
qed

text \<open>
  The interval between two \<open>Progressed\<close> events is not a lower bound: a report that falls due
  while an earlier flush is still scheduled leaves the schedule set, and the late flush then
  sends a newer report although one was just sent - here two nanoseconds after it, under an
  interval of ten.
\<close>

theorem progress_interval_can_be_undercut:
  "\<exists>s s'. run (Act_submit 1 (job Interactive) [] # go 1 4 @ [Act_progress 1 (steps_done 1) 0,
        Act_progress 1 (steps_done 2) 5, Act_progress 1 (steps_done 3) 10]) (sys_new example_config) = Some s
     \<and> last (rt_events (sy_rt s)) = Progressed 1 (steps_done 3)
     \<and> run [Act_progress 1 (steps_done 4) 11, Act_flush 1 10 12] s = Some s'
     \<and> rt_events (sy_rt s') = rt_events (sy_rt s) @ [Progressed 1 (steps_done 4)]
     \<and> 12 - 10 < progress_interval example_config"
proof -
  let ?r = "run (Act_submit 1 (job Interactive) [] # go 1 4 @ [Act_progress 1 (steps_done 1) 0,
        Act_progress 1 (steps_done 2) 5, Act_progress 1 (steps_done 3) 10]) (sys_new example_config)"
  have "?r \<noteq> None \<and> last (rt_events (sy_rt (the ?r))) = Progressed 1 (steps_done 3)
     \<and> run [Act_progress 1 (steps_done 4) 11, Act_flush 1 10 12] (the ?r) \<noteq> None
     \<and> rt_events (sy_rt (the (run [Act_progress 1 (steps_done 4) 11, Act_flush 1 10 12] (the ?r))))
         = rt_events (sy_rt (the ?r)) @ [Progressed 1 (steps_done 4)]
     \<and> 12 - 10 < progress_interval example_config" by code_simp
  then show ?thesis by auto
qed

section \<open>Retention\<close>

abbreviation settled_list :: "sys \<Rightarrow> task_id list" where
  "settled_list s \<equiv> rg_settled_roots (rt_registry (sy_rt s))"

lemma retire_length: "retire keep roots ts = (roots', ts') \<Longrightarrow> length roots' \<le> keep"
  by (induction keep roots ts rule: retire.induct) (auto split: if_splits)

lemma drive_roots:
  assumes "drive i d rt ph rt' ph'" and "get_task rt i = Some e"
  shows "rg_settled_roots (rt_registry rt') = rg_settled_roots (rt_registry rt)
    \<or> length (rg_settled_roots (rt_registry rt')) \<le> retained_roots (rt_config rt)"
  using assms(1)
proof cases
  case (dr_settle st now)
  with settle_tasks [OF assms(2), of st now] show ?thesis
    by (auto split: if_splits dest: retire_length)
next
  case (dr_children_done n joined)
  with finish_pass_tasks show ?thesis by blast
next
  case (dr_children_live n joined)
  with finish_pass_tasks show ?thesis by blast
next
  case (dr_queue n on)
  with set_queued_tasks [of i on rt] show ?thesis by auto
qed (use assms(2) set_state_tasks in \<open>auto dest: try_admit_tasks\<close>)

lemma step_roots:
  assumes tree: "tree_ok s" and step: "step s s'"
  shows "settled_list s' = settled_list s \<or> length (settled_list s') \<le> retained_roots (rt_config (sy_rt s))"
proof -
  have inv: "tree_inv (get_task (sy_rt s)) (sy_drivers s)" using tree by (simp add: tree_ok_def)
  show ?thesis
    using step
  proof cases
    case (st_drive i d rt ph)
    have "dv_phase d \<noteq> Done" using st_drive(3) by (auto elim: drive.cases)
    from tree_inv_known [OF inv st_drive(2) this] drive_roots [OF st_drive(3)] st_drive(1) show ?thesis by auto
  next
    case (st_submit j desc rs now ticket rt)
    with start_tasks [OF st_submit(3) [unfolded submit_def]] show ?thesis by simp
  next
    case (st_spawn j p pd desc rs now ticket rt)
    with start_tasks [OF st_spawn(5) [unfolded submit_child_def]] show ?thesis by simp
  next
    case (st_progress j pr now)
    with report_tasks [of j pr now "sy_rt s"] show ?thesis by auto
  next
    case (st_flush j due now)
    with flush_tasks [of j now "(sy_rt s)\<lparr>rt_flushes := remove1 (j, due) (rt_flushes (sy_rt s))\<rparr>"]
    show ?thesis by auto
  qed (auto simp: cancel_def cancel_all_def add_resource_def set_resource_state_def set_resource_ready_def
         split: option.splits)
qed

text \<open>
  C9. Retention is bounded and forgets nothing that is still going on: the settled roots kept are
  exactly those in the registry, oldest first and no more than configured, and every task whose
  driver has not finished is in the registry.
\<close>

theorem retention_is_bounded:
  assumes "reachable c s"
  shows "length (settled_list s) \<le> retained_roots c
    \<and> (\<forall>i. i \<in> set (settled_list s) \<longleftrightarrow> (\<exists>e. get_task (sy_rt s) i = Some e
         \<and> ti_parent (et_info e) = None \<and> is_terminal (et_state e)))
    \<and> (\<forall>i d. sy_drivers s i = Some d \<and> dv_phase d \<noteq> Done \<longrightarrow> get_task (sy_rt s) i \<noteq> None)"
proof -
  have tree: "tree_ok s" by (rule reachable_tree_ok [OF assms])
  have "length (settled_list s) \<le> retained_roots c"
    using assms
  proof (induction rule: reachable.induct)
    case reachable_new
    then show ?case by (simp add: sys_new_def runtime_new_def registry_default_def)
  next
    case (reachable_step s s')
    have "rt_config (sy_rt s) = c" using reachable_admit_ok [OF reachable_step(1)] by (simp add: admit_ok_def)
    with step_roots [OF reachable_tree_ok [OF reachable_step(1)] reachable_step(2)] reachable_step.IH
    show ?case by auto
  qed
  with tree show ?thesis by (auto simp: tree_ok_def roots_inv_def root_def tree_inv_def)
qed

text \<open>Three roots settle under a retention of two: the first is gone, with its child.\<close>

definition three_done :: "action list" where
  "three_done = family_done @ [Act_submit 3 (job Interactive) []] @ go 3 10
     @ [Act_submit 4 (job Interactive) []] @ go 4 10"

theorem retention_is_bounded_witness:
  "settled_list (after three_done) = [3, 4] \<and> get_task (sy_rt (after three_done)) 1 = None
   \<and> get_task (sy_rt (after three_done)) 2 = None
   \<and> (\<exists>e. get_task (sy_rt (after three_done)) 3 = Some e \<and> is_terminal (et_state e))"
proof -
  have "settled_list (after three_done) = [3, 4] \<and> get_task (sy_rt (after three_done)) 1 = None
    \<and> get_task (sy_rt (after three_done)) 2 = None" by code_simp
  with retention_is_bounded [OF after_reachable, of three_done] show ?thesis
    by (metis list.set_intros(1))
qed

end
