(* ===== verification/TaskKeys.thy ===== *)
theory TaskKeys
  imports TaskProperties "HOL-Library.Multiset"
begin

text \<open>
  The registry as a table: one entry per task, each under its own identifier, so that the
  operations that go through all entries - \<open>tasks\<close>, \<open>idle\<close>, \<open>cancel_all\<close> - see every task
  once and no other.
\<close>

definition keys_ok :: "(task_id \<times> entry) list \<Rightarrow> bool" where
  "keys_ok ts \<longleftrightarrow> distinct (map fst ts) \<and> (\<forall>i e. map_of ts i = Some e \<longrightarrow> ti_id (et_info e) = i)"

lemma keys_ok_update: "keys_ok ts \<Longrightarrow> ti_id (et_info e) = i \<Longrightarrow> keys_ok (AList.update i e ts)"
  by (simp add: keys_ok_def distinct_update)

lemma keys_ok_edit:
  "keys_ok ts \<Longrightarrow> (\<And>e. ti_id (et_info (f e)) = ti_id (et_info e)) \<Longrightarrow> keys_ok (AList.map_entry i f ts)"
  by (auto simp: keys_ok_def distinct_map_entry)

lemma keys_ok_delete: "keys_ok ts \<Longrightarrow> keys_ok (AList.delete i ts)"
  by (simp add: keys_ok_def distinct_delete)

lemma keys_ok_remove: "keys_ok ts \<Longrightarrow> keys_ok (remove_subtrees is ts)"
  by (induction "is" ts rule: remove_subtrees.induct) (auto split: option.split simp: keys_ok_delete)

lemma keys_ok_retire: "keys_ok ts \<Longrightarrow> retire keep roots ts = (roots', ts') \<Longrightarrow> keys_ok ts'"
  by (induction keep roots ts rule: retire.induct)
     (auto simp: remove_subtree_def keys_ok_remove simp del: remove_subtrees.simps split: if_splits)

abbreviation table :: "runtime \<Rightarrow> (task_id \<times> entry) list" where
  "table rt \<equiv> rg_tasks (rt_registry rt)"

lemma keys_ok_edit_task:
  "keys_ok (table rt) \<Longrightarrow> (\<And>e. ti_id (et_info (f e)) = ti_id (et_info e)) \<Longrightarrow> keys_ok (table (edit_task i f rt))"
  by (simp add: edit_task_def keys_ok_edit)

lemma ti_id_edits [simp]:
  "ti_id (et_info (put_state st e)) = ti_id (et_info e)" "ti_id (et_info (put_progress p e)) = ti_id (et_info e)"
  "ti_id (et_info (settle_entry st now e)) = ti_id (et_info e)"
  by (simp_all add: put_state_def put_progress_def settle_entry_def)

lemma keys_ok_ops:
  assumes "keys_ok (table rt)"
  shows "keys_ok (table (set_queued i on rt))" "keys_ok (table (set_state i st rt))"
    "keys_ok (table (report_progress i p at rt))" "keys_ok (table (flush_progress i at (rt\<lparr>rt_flushes := F\<rparr>)))"
    "keys_ok (table (cancel i rt))" "keys_ok (table (cancel_all rt))"
    "keys_ok (table (leave_queue t rt))" "keys_ok (table (drop_slot sc rt))"
    "keys_ok (table (add_resource r rs rt))" "keys_ok (table (set_resource_state r rs rt))"
    "keys_ok (table (set_resource_ready r v rt))"
proof -
  have ed: "keys_ok (table (edit_task i f rt'))"
    if "table rt' = table rt" "\<And>e. ti_id (et_info (f e)) = ti_id (et_info e)" for f i rt'
    using keys_ok_edit_task [of rt' f i] that assms by simp
  have ed2: "keys_ok (table (edit_task i f (edit_task j g rt)))"
    if "\<And>e. ti_id (et_info (f e)) = ti_id (et_info e)" "\<And>e. ti_id (et_info (g e)) = ti_id (et_info e)" for f g i j
    using keys_ok_edit_task [of "edit_task j g rt" f i] keys_ok_edit_task [of rt g j] that assms by simp
  have ed3: "keys_ok (table (edit_task i f (edit_task j g (rt\<lparr>rt_flushes := F\<rparr>))))"
    if "\<And>e. ti_id (et_info (f e)) = ti_id (et_info e)" "\<And>e. ti_id (et_info (g e)) = ti_id (et_info e)" for f g i j
    using keys_ok_edit_task [of "edit_task j g (rt\<lparr>rt_flushes := F\<rparr>)" f i] ed [of "rt\<lparr>rt_flushes := F\<rparr>" g j] that by simp
  show "keys_ok (table (set_queued i on rt))" "keys_ok (table (set_state i st rt))"
    using assms ed by (auto simp: set_queued_def set_state_def split: option.split)
  show "keys_ok (table (report_progress i p at rt))"
    using assms ed2 by (auto simp: report_progress_def Let_def split: option.split)
  show "keys_ok (table (flush_progress i at (rt\<lparr>rt_flushes := F\<rparr>)))"
    using assms ed [of "rt\<lparr>rt_flushes := F\<rparr>"] ed3 by (auto simp: flush_progress_def Let_def split: option.split)
  show "keys_ok (table (cancel i rt))" "keys_ok (table (cancel_all rt))"
    using assms by (auto simp: cancel_def cancel_all_def split: option.split)
  show "keys_ok (table (leave_queue t rt))" "keys_ok (table (drop_slot sc rt))"
    "keys_ok (table (add_resource r rs rt))" "keys_ok (table (set_resource_state r rs rt))"
    "keys_ok (table (set_resource_ready r v rt))"
    using assms by (simp_all add: leave_queue_def drop_slot_def add_resource_def set_resource_state_def
        set_resource_ready_def)
qed

lemma keys_ok_start:
  assumes "keys_ok (table rt)" "start i desc rs parent tok now rt = (ticket, rt')"
  shows "keys_ok (table rt')"
proof -
  have "table rt' = AList.update i (new_entry (rg_next_seq (rt_registry rt)) (new_info i desc parent now) tok)
      (case parent of None \<Rightarrow> table rt | Some p \<Rightarrow> AList.map_entry p (add_child i) (table rt))"
    using assms(2) by (cases parent) (auto simp: start_def Let_def edit_task_def)
  moreover have "keys_ok (case parent of None \<Rightarrow> table rt | Some p \<Rightarrow> AList.map_entry p (add_child i) (table rt))"
    using assms(1) by (auto intro: keys_ok_edit split: option.split)
  ultimately show ?thesis by (simp add: keys_ok_update new_info_def)
qed

lemma keys_ok_settle:
  assumes "keys_ok (table rt)"
  shows "keys_ok (table (settle i st now rt))"
proof -
  have e: "keys_ok (table (edit_task i (settle_entry st now) rt))"
    using keys_ok_edit_task [OF assms] by simp
  have s: "table (edit_task j f (send ev rt0)) = table (edit_task j f rt0)" for j f ev rt0
    by (simp add: edit_task_def)
  have p: "keys_ok (table (edit_task j lose_child (send ev (edit_task i (settle_entry st now) rt))))" for j ev
    using keys_ok_edit_task [OF e, of lose_child j] by (simp add: s)
  have p': "table (edit_task j lose_child (send ev (edit_task i (settle_entry st now) (send ev' rt))))
      = table (edit_task j lose_child (send ev (edit_task i (settle_entry st now) rt)))" for j ev ev'
    by (simp add: edit_task_def)
  show ?thesis
    using assms e p p'
    by (auto simp: settle_def Let_def s split: option.split prod.split dest: keys_ok_retire)
qed

lemma table_try_admit: "try_admit rs t rt = (dec, rt') \<Longrightarrow> table rt' = table rt"
  by (auto simp: try_admit_def dequeue_def Let_def split: if_splits option.splits)

lemma table_finish_pass: "finish_pass i rt = (b, rt') \<Longrightarrow> table rt' = table rt"
  by (auto simp: finish_pass_def split: if_splits option.splits)

lemma drive_keys:
  assumes "drive i d rt ph rt' ph'" "keys_ok (table rt)"
  shows "keys_ok (table rt')"
  using assms(1)
proof cases
  case (dr_settle st now)
  then show ?thesis using keys_ok_settle [OF assms(2)] by simp
next
  case (dr_admit n)
  then show ?thesis using assms(2) table_try_admit [OF dr_admit(3)] by metis
next
  case (dr_refuse e n)
  then show ?thesis using assms(2) table_try_admit by metis
next
  case (dr_wait on n)
  then show ?thesis using assms(2) table_try_admit by metis
next
  case (dr_children_done n joined)
  then show ?thesis using assms(2) table_finish_pass by metis
next
  case (dr_children_live n joined)
  then show ?thesis using assms(2) table_finish_pass by metis
next
  case (dr_tell)
  then show ?thesis using assms(2) by simp
next
  case (dr_leave error)
  then show ?thesis using assms(2) keys_ok_ops(7) by simp
next
  case (dr_drop joined)
  then show ?thesis using assms(2) keys_ok_ops(8) by simp
next
  case (dr_queue n on)
  then show ?thesis using assms(2) keys_ok_ops(1) by simp
next
  case dr_start
  then show ?thesis using assms(2) keys_ok_ops(2) by simp
next
  case dr_cancelling
  then show ?thesis using assms(2) keys_ok_ops(2) by simp
qed (use assms(2) in simp_all)

lemma reachable_keys: "reachable c s \<Longrightarrow> keys_ok (table (sy_rt s))"
proof (induction rule: reachable.induct)
  case reachable_new
  show ?case by (simp add: keys_ok_def sys_new_def runtime_new_def registry_default_def)
next
  case (reachable_step s s')
  note ih = reachable_step.IH
  from reachable_step(2) show ?case
  proof cases
    case (st_drive i d rt ph)
    with ih show ?thesis using drive_keys [OF st_drive(3)] by simp
  next
    case (st_submit i desc requires now ticket rt)
    with ih show ?thesis using keys_ok_start [OF ih] by (simp add: submit_def)
  next
    case (st_spawn i p pd desc requires now ticket rt)
    with ih show ?thesis using keys_ok_start [OF ih] by (simp add: submit_child_def)
  qed (use keys_ok_ops [OF ih] in \<open>simp_all\<close>)
qed

lemma table_get: "keys_ok (table rt) \<Longrightarrow> (i, e) \<in> set (table rt) \<longleftrightarrow> get_task rt i = Some e"
  unfolding keys_ok_def get_task_def by (metis map_of_is_SomeI map_of_SomeD)

lemma tasks_listed:
  assumes reach: "reachable c s"
  shows "distinct (map ti_id (tasks (sy_rt s)))
    \<and> (info \<in> set (tasks (sy_rt s)) \<longleftrightarrow> task (sy_rt s) (ti_id info) = Some info)"
proof -
  have keys: "keys_ok (table (sy_rt s))" by (rule reachable_keys [OF reach])
  note get = table_get [OF keys]
  have ids: "ti_id (et_info e) = i" if "(i, e) \<in> set (table (sy_rt s))" for i e
    using keys that by (auto simp: keys_ok_def map_of_is_SomeI)
  have "map (ti_id \<circ> et_info) (map snd (table (sy_rt s))) = map fst (table (sy_rt s))"
    using ids by auto
  then have dist: "distinct (map (ti_id \<circ> et_info) (map snd (table (sy_rt s))))"
    using keys by (simp only: keys_ok_def)
  have perm: "mset (map (ti_id \<circ> et_info) (sort_key et_seq xs)) = mset (map (ti_id \<circ> et_info) xs)" for xs
    by simp
  have "distinct (map (ti_id \<circ> et_info) (sort_key et_seq (map snd (table (sy_rt s)))))"
    using dist mset_eq_imp_distinct_iff [OF perm [of "map snd (table (sy_rt s))"]] by blast
  then have "distinct (map ti_id (tasks (sy_rt s)))"
    by (simp add: tasks_def)
  moreover have "info \<in> set (tasks (sy_rt s)) \<longleftrightarrow> (\<exists>i e. (i, e) \<in> set (table (sy_rt s)) \<and> info = et_info e)"
    by (force simp: tasks_def)
  then have "info \<in> set (tasks (sy_rt s)) \<longleftrightarrow> task (sy_rt s) (ti_id info) = Some info"
    using ids get by (simp only: task_def map_option_eq_Some) metis
  ultimately show ?thesis by blast
qed

text \<open>
  \<open>idle\<close> waits for exactly the right thing: in a reachable state its test finds nothing busy
  if and only if every driver has finished and so every task in the registry has settled; and the
  listing of tasks is the registry's tasks, each once.
\<close>

theorem idle_means_settled:
  assumes "reachable c s"
  shows "(\<not> busy (sy_rt s) \<longleftrightarrow> (\<forall>i d. sy_drivers s i = Some d \<longrightarrow> dv_phase d = Done))
    \<and> (\<not> busy (sy_rt s) \<longleftrightarrow> (\<forall>i info. task (sy_rt s) i = Some info \<longrightarrow> is_terminal (ti_state info)))
    \<and> distinct (map ti_id (tasks (sy_rt s)))
    \<and> (info \<in> set (tasks (sy_rt s)) \<longleftrightarrow> task (sy_rt s) (ti_id info) = Some info)"
proof -
  have keys: "keys_ok (table (sy_rt s))" by (rule reachable_keys [OF assms])
  have inv: "tree_inv (get_task (sy_rt s)) (sy_drivers s)"
    using reachable_tree_ok [OF assms] by (simp add: tree_ok_def)
  note get = table_get [OF keys]
  have all: "\<not> busy (sy_rt s) \<longleftrightarrow> (\<forall>i e. get_task (sy_rt s) i = Some e \<longrightarrow> is_terminal (et_state e))"
    by (auto simp: busy_def list_ex_iff get [symmetric])
  also have "\<dots> \<longleftrightarrow> (\<forall>i d. sy_drivers s i = Some d \<longrightarrow> dv_phase d = Done)"
    using settled_iff_done [OF inv] tree_inv_known [OF inv] tree_inv_driven [OF inv]
    by (metis driven_def)
  finally have finished: "\<not> busy (sy_rt s) \<longleftrightarrow> (\<forall>i d. sy_drivers s i = Some d \<longrightarrow> dv_phase d = Done)" .
  have settled: "\<not> busy (sy_rt s) \<longleftrightarrow> (\<forall>i info. task (sy_rt s) i = Some info \<longrightarrow> is_terminal (ti_state info))"
    unfolding all by (auto simp: task_def)
  show ?thesis using finished settled tasks_listed [OF assms, of info] by blast
qed

theorem idle_means_settled_witness:
  "\<not> busy (sy_rt (after three_done)) \<and> busy (sy_rt (after two_jobs)) \<and> length (tasks (sy_rt (after three_done))) = 2
   \<and> distinct (map ti_id (tasks (sy_rt (after three_done))))"
proof -
  have "\<not> busy (sy_rt (after three_done)) \<and> busy (sy_rt (after two_jobs)) \<and> length (tasks (sy_rt (after three_done))) = 2"
    by code_simp
  with idle_means_settled [OF after_reachable, of three_done] show ?thesis by simp
qed

end
