(* ===== verification/TaskAnnounced.thy ===== *)
theory TaskAnnounced
  imports TaskKeys
begin

text \<open>
  What an observer of the runtime may rely on: the log of events only grows, and what it says
  nothing about has not changed, progress held back by the throttle apart. Stated once as an
  interface, for an observer that follows the log from some position.
\<close>

section \<open>The interface\<close>

locale announced =
  fixes step :: "'s \<Rightarrow> 's \<Rightarrow> bool" and ok :: "'s \<Rightarrow> bool" and log :: "'s \<Rightarrow> 'ev list"
    and speaks_of :: "'i \<Rightarrow> 'ev \<Rightarrow> bool" and look :: "'s \<Rightarrow> 'i \<Rightarrow> 'v option" and agree :: "'v \<Rightarrow> 'v \<Rightarrow> bool"
  assumes log_grows: "ok s \<Longrightarrow> step s s' \<Longrightarrow> \<exists>new. log s' = log s @ new"
    and announced: "ok s \<Longrightarrow> step s s' \<Longrightarrow> log s' = log s @ new \<Longrightarrow> look s' i = Some v' \<Longrightarrow>
      (\<exists>ev \<in> set new. speaks_of i ev) \<or> (\<exists>v. look s i = Some v \<and> agree v v')"
    and agree_trans: "agree u v \<Longrightarrow> agree v w \<Longrightarrow> agree u w"
begin

lemma still_known:
  assumes "ok s" "step s s'" "pos \<le> length (log s)"
    and before: "\<And>v. look s i = Some v \<Longrightarrow>
      (\<exists>u. K u \<and> agree u v) \<or> (\<exists>ev \<in> set (drop pos (log s)). speaks_of i ev) \<or> extra"
    and now: "look s' i = Some v'"
  shows "(\<exists>u. K u \<and> agree u v') \<or> (\<exists>ev \<in> set (drop pos (log s')). speaks_of i ev) \<or> extra"
proof -
  obtain new where new: "log s' = log s @ new" using log_grows [OF assms(1,2)] by blast
  have drop: "drop pos (log s') = drop pos (log s) @ new" using assms(3) by (simp add: new)
  from announced [OF assms(1,2) new now] show ?thesis
  proof
    assume "\<exists>ev \<in> set new. speaks_of i ev"
    then show ?thesis by (auto simp: drop)
  next
    assume "\<exists>v. look s i = Some v \<and> agree v v'"
    with before agree_trans show ?thesis by (force simp: drop)
  qed
qed

end

section \<open>The runtime provides it\<close>

definition look_task :: "sys \<Rightarrow> task_id \<Rightarrow> (task_info \<times> bool) option" where
  "look_task s i = map_option (\<lambda>e. (et_info e, th_pending (et_throttle e))) (get_task (sy_rt s) i)"

definition but_progress :: "task_info \<Rightarrow> task_info" where
  "but_progress info = info\<lparr>ti_progress := progress_default\<rparr>"

definition agree_task :: "task_info \<times> bool \<Rightarrow> task_info \<times> bool \<Rightarrow> bool" where
  "agree_task u v \<longleftrightarrow>
     fst u = fst v \<and> (snd u \<longrightarrow> snd v) \<or> snd v \<and> but_progress (fst u) = but_progress (fst v)"

lemma agree_task_trans: "agree_task u v \<Longrightarrow> agree_task v w \<Longrightarrow> agree_task u w"
  by (auto simp: agree_task_def)

abbreviation said :: "sys \<Rightarrow> sys \<Rightarrow> task_event list \<Rightarrow> task_id \<Rightarrow> bool" where
  "said s s' new i \<equiv> rt_events (sy_rt s') = rt_events (sy_rt s) @ new \<and>
     (\<forall>v'. look_task s' i = Some v' \<longrightarrow>
        (\<exists>ev \<in> set new. about i ev) \<or> (\<exists>v. look_task s i = Some v \<and> agree_task v v'))"

lemma said_quiet:
  assumes "rt_events (sy_rt s') = rt_events (sy_rt s)" "get_task (sy_rt s') = get_task (sy_rt s)"
  shows "\<exists>new. said s s' new i"
  using assms by (intro exI [of _ "[]"]) (auto simp: look_task_def agree_task_def)

lemma said_start:
  assumes tree: "tree_ok s" and new: "sy_drivers s j = None"
    and start: "start j desc rs parent tok now (sy_rt s) = (ticket, rt)" and s': "sy_rt s' = rt"
  shows "\<exists>new. said s s' new i"
proof (intro exI [of _ "[Submitted (new_info j desc parent now)]"] conjI allI impI)
  show "rt_events (sy_rt s') = rt_events (sy_rt s) @ [Submitted (new_info j desc parent now)]"
    using start by (cases parent) (auto simp: start_def Let_def s')
next
  fix v' assume "look_task s' i = Some v'"
  with start_tasks [OF start] show "(\<exists>ev \<in> set [Submitted (new_info j desc parent now)]. about i ev)
      \<or> (\<exists>v. look_task s i = Some v \<and> agree_task v v')"
    by (cases "i = j")
       (auto simp: look_task_def s' new_info_def agree_task_def add_child_def split: option.splits if_splits)
qed

lemma said_drive:
  assumes tree: "tree_ok s" and d: "sy_drivers s j = Some d"
    and step: "drive j d (sy_rt s) (dv_phase d) rt ph" and s': "sy_rt s' = rt"
  shows "\<exists>new. said s s' new i"
proof -
  have inv: "tree_inv (get_task (sy_rt s)) (sy_drivers s)" using tree by (simp add: tree_ok_def)
  have "dv_phase d \<noteq> Done" using step by (auto elim: drive.cases)
  from tree_inv_known [OF inv d this] obtain e where e: "get_task (sy_rt s) j = Some e" by blast
  show ?thesis
  proof (cases "\<exists>st. dv_phase d = Settling st")
    case True
    then obtain st where st: "dv_phase d = Settling st" by blast
    with step obtain now where rt: "rt = settle j st now (sy_rt s)" by (auto elim: drive.cases)
    have "is_terminal st" using not_settled_before [OF tree d st e] by blast
    note entries = settle_entries [OF tree d st this e, of now i]
    let ?new = "(if th_pending (et_throttle e) then [Progressed j (ti_progress (et_info e))] else []) @ [StateChanged j st]"
    have "(\<exists>ev \<in> set ?new. about i ev) \<or> (\<exists>v. look_task s i = Some v \<and> agree_task v v')"
      if "look_task s' i = Some v'" for v'
      using that entries by (cases "i = j") (auto simp: look_task_def s' rt same_log_def agree_task_def)
    then show ?thesis
      using settle_events [OF e, of st now] by (intro exI [of _ ?new]) (auto simp: s' rt)
  next
    case False
    then have "\<forall>st. dv_phase d \<noteq> Settling st" by blast
    from drive_events [OF step this e] show ?thesis
    proof (elim disjE exE conjE)
      assume "rt_events rt = rt_events (sy_rt s)" "get_task rt = get_task (sy_rt s)"
      then show ?thesis by (intro said_quiet) (auto simp: s')
    next
      fix st assume "rt_events rt = rt_events (sy_rt s) @ [StateChanged j st]"
        "get_task rt = (get_task (sy_rt s))(j \<mapsto> put_state st e)"
      then show ?thesis
        by (intro exI [of _ "[StateChanged j st]"]) (auto simp: s' look_task_def agree_task_def)
    qed
  qed
qed

lemma said_progress: "\<exists>new. said s (s\<lparr>sy_rt := report_progress j p now (sy_rt s)\<rparr>) new i"
proof (cases "\<exists>e. get_task (sy_rt s) j = Some e \<and> \<not> is_terminal (et_state e)")
  case False
  then have "report_progress j p now (sy_rt s) = sy_rt s"
    by (cases "get_task (sy_rt s) j") (auto simp: report_progress_def Let_def)
  then show ?thesis by (intro said_quiet) simp_all
next
  case True
  then obtain e where e: "get_task (sy_rt s) j = Some e" "\<not> is_terminal (et_state e)" by blast
  then have "\<exists>new g. rt_events (report_progress j p now (sy_rt s)) = rt_events (sy_rt s) @ new
      \<and> (new = [] \<or> new = [Progressed j p])
      \<and> get_task (report_progress j p now (sy_rt s)) = (get_task (sy_rt s))(j \<mapsto> map_throttle g (put_progress p e))
      \<and> (new = [] \<longrightarrow> th_pending (g (et_throttle e)))"
    by (auto simp: report_progress_def Let_def)
  then show ?thesis
  proof (elim exE conjE, intro exI conjI allI impI)
    fix new g v'
    assume new: "new = [] \<or> new = [Progressed j p]" "new = [] \<longrightarrow> th_pending (g (et_throttle e))"
      and task: "get_task (report_progress j p now (sy_rt s)) = (get_task (sy_rt s))(j \<mapsto> map_throttle g (put_progress p e))"
      and "look_task (s\<lparr>sy_rt := report_progress j p now (sy_rt s)\<rparr>) i = Some v'"
    then show "(\<exists>ev \<in> set new. about i ev) \<or> (\<exists>v. look_task s i = Some v \<and> agree_task v v')"
      using e by (cases "i = j")
        (auto simp: look_task_def agree_task_def map_throttle_def put_progress_def but_progress_def)
  qed simp
qed

lemma said_flush:
  assumes "rt_events rt0 = rt_events (sy_rt s)" "get_task rt0 = get_task (sy_rt s)"
  shows "\<exists>new. said s (s\<lparr>sy_rt := flush_progress j now rt0\<rparr>) new i"
proof (cases "get_task rt0 j")
  case None
  then show ?thesis using assms by (intro said_quiet) (simp_all add: flush_progress_def)
next
  case (Some e)
  show ?thesis
  proof (cases "th_pending (et_throttle e) \<and> \<not> is_terminal (et_state e)")
    case True
    with Some assms show ?thesis
      by (intro exI [of _ "[Progressed j (ti_progress (et_info e))]"])
         (auto simp: flush_progress_def Let_def look_task_def agree_task_def)
  next
    case False
    with Some assms show ?thesis
      by (intro exI [of _ "[]"])
         (auto simp: flush_progress_def Let_def look_task_def agree_task_def map_throttle_def split: if_splits)
  qed
qed

lemma step_said:
  assumes tree: "tree_ok s" and step: "step s s'"
  shows "\<exists>new. said s s' new i"
  using step
proof cases
  case (st_drive j d rt ph)
  then show ?thesis using said_drive [OF tree st_drive(2,3)] by simp
next
  case (st_submit j desc rs now ticket rt)
  then show ?thesis using said_start [OF tree st_submit(2) st_submit(3) [unfolded submit_def]] by simp
next
  case (st_spawn j p pd desc rs now ticket rt)
  then show ?thesis using said_start [OF tree st_spawn(2) st_spawn(5) [unfolded submit_child_def]] by simp
next
  case (st_progress j pr now)
  then show ?thesis using said_progress by simp
next
  case (st_flush j due now)
  then show ?thesis using said_flush by simp
next
  case (st_cancel j)
  then show ?thesis by (intro said_quiet) (simp_all add: cancel_def split: option.split)
next
  case st_cancel_all
  then show ?thesis by (intro said_quiet) (simp_all add: cancel_all_def)
next
  case (st_add_resource r rs)
  then show ?thesis
    by (intro said_quiet) (simp_all add: add_resource_def get_map_registry fun_eq_iff get_task_def)
next
  case (st_set_resource r rs)
  then show ?thesis
    by (intro said_quiet) (simp_all add: set_resource_state_def get_map_registry fun_eq_iff get_task_def)
next
  case (st_ready_resource r v)
  then show ?thesis
    by (intro said_quiet) (simp_all add: set_resource_ready_def get_map_registry fun_eq_iff get_task_def)
qed

interpretation observed: announced step "reachable c" "\<lambda>s. rt_events (sy_rt s)" about look_task agree_task for c
proof
  fix s s' :: sys assume ok: "reachable c s" "step s s'"
  show "\<exists>new. rt_events (sy_rt s') = rt_events (sy_rt s) @ new"
    using step_said [OF reachable_tree_ok [OF ok(1)] ok(2)] by blast
next
  fix s s' :: sys and new i v' assume ok: "reachable c s" "step s s'"
    and new: "rt_events (sy_rt s') = rt_events (sy_rt s) @ new" and v': "look_task s' i = Some v'"
  from step_said [OF reachable_tree_ok [OF ok(1)] ok(2), of i] obtain new' where
    "rt_events (sy_rt s') = rt_events (sy_rt s) @ new'"
    "(\<exists>ev \<in> set new'. about i ev) \<or> (\<exists>v. look_task s i = Some v \<and> agree_task v v')" using v' by blast
  with new show "(\<exists>ev \<in> set new. about i ev) \<or> (\<exists>v. look_task s i = Some v \<and> agree_task v v')" by simp
qed (rule agree_task_trans)

section \<open>Once gone, gone; once seen, never earlier\<close>

lemma driver_stays: "step s s' \<Longrightarrow> sy_drivers s i \<noteq> None \<Longrightarrow> sy_drivers s' i \<noteq> None"
  by (auto elim!: step.cases)

lemma evicted_stays:
  assumes tree: "tree_ok s" and step: "step s s'" and known: "sy_drivers s i \<noteq> None"
    and e': "get_task (sy_rt s') i = Some e'"
  shows "\<exists>e. get_task (sy_rt s) i = Some e"
  using step
proof cases
  case (st_drive j d rt ph)
  have inv: "tree_inv (get_task (sy_rt s)) (sy_drivers s)" using tree by (simp add: tree_ok_def)
  have "dv_phase d \<noteq> Done" using st_drive(3) by (auto elim: drive.cases)
  from tree_inv_known [OF inv st_drive(2) this] obtain e where e: "get_task (sy_rt s) j = Some e" by blast
  have rt: "sy_rt s' = rt" using st_drive(1) by simp
  show ?thesis
  proof (cases "\<exists>st. dv_phase d = Settling st")
    case True
    then obtain st where st: "dv_phase d = Settling st" by blast
    with st_drive(3) obtain now where "rt = settle j st now (sy_rt s)" by (auto elim: drive.cases)
    with settle_entries [OF tree st_drive(2) st _ e, of now i e'] e' rt e
      not_settled_before [OF tree st_drive(2) st e] show ?thesis by (auto split: if_splits)
  next
    case False
    with drive_events [OF st_drive(3) _ e] e e' rt show ?thesis by (auto split: if_splits)
  qed
next
  case (st_submit j desc rs now ticket rt)
  with start_tasks [OF st_submit(3) [unfolded submit_def]] known e' show ?thesis by (auto split: if_splits)
next
  case (st_spawn j p pd desc rs now ticket rt)
  with start_tasks [OF st_spawn(5) [unfolded submit_child_def]] known e' show ?thesis by (auto split: if_splits)
next
  case (st_progress j pr now)
  with report_tasks [of j pr now "sy_rt s"] e' show ?thesis by (auto split: if_splits)
next
  case (st_flush j due now)
  with flush_tasks [of j now "(sy_rt s)\<lparr>rt_flushes := remove1 (j, due) (rt_flushes (sy_rt s))\<rparr>"] e'
  show ?thesis by (auto split: if_splits)
next
  case (st_cancel j)
  with e' show ?thesis by (auto simp: cancel_def split: option.splits if_splits)
next
  case st_cancel_all
  with e' show ?thesis by (simp add: cancel_all_def)
next
  case (st_add_resource r rs)
  with e' show ?thesis by (simp add: add_resource_def get_map_registry) (simp add: get_task_def)
next
  case (st_set_resource r rs)
  with e' show ?thesis by (simp add: set_resource_state_def get_map_registry) (simp add: get_task_def)
next
  case (st_ready_resource r v)
  with e' show ?thesis by (simp add: set_resource_ready_def get_map_registry) (simp add: get_task_def)
qed

fun stage :: "task_state \<Rightarrow> nat" where
  "stage (Queued _) = 0"
| "stage Running = 1"
| "stage Cancelling = 2"
| "stage _ = 3"

definition no_earlier :: "task_state \<Rightarrow> task_state \<Rightarrow> bool" where
  "no_earlier st st' \<longleftrightarrow> st' = st \<or> \<not> is_terminal st \<and> stage st \<le> stage st'"

lemma no_earlier_refl [simp]: "no_earlier st st"
  by (simp add: no_earlier_def)

lemma no_earlier_trans: "no_earlier st st' \<Longrightarrow> no_earlier st' st'' \<Longrightarrow> no_earlier st st''"
  by (auto simp: no_earlier_def)

lemma next_no_earlier: "next_state st st' \<Longrightarrow> no_earlier st st'"
  by (cases st; cases st') (auto simp: no_earlier_def)

lemma step_no_earlier:
  "reachable c s \<Longrightarrow> step s s' \<Longrightarrow> get_task (sy_rt s) i = Some e \<Longrightarrow> get_task (sy_rt s') i = Some e'
   \<Longrightarrow> no_earlier (et_state e) (et_state e')"
  using state_moves [of c s s' i e e'] next_no_earlier by (auto simp: moved_on_def)

end
