(* ===== verification/Wire.thy ===== *)
theory Wire
  imports TaskTypes
begin

text \<open>
  A task on the wire: the messages of \<open>proto/file_peeker/client/v1/client.proto\<close>, how the server
  writes a task into one (\<open>src/server/tasks.rs\<close>) and how a client reads one back
  (\<open>src/client/tasks.rs\<close>). Encoding the message itself is the transport's.
\<close>

section \<open>Messages\<close>

datatype wire_state =
    WS_Unspecified | WS_Queued | WS_Running | WS_Cancelling | WS_Succeeded | WS_Failed | WS_Cancelled

text \<open>An enumeration travels as its number, and a number need not be one of them.\<close>

fun wire_number :: "wire_state \<Rightarrow> int" where
  "wire_number WS_Unspecified = 0"
| "wire_number WS_Queued = 1"
| "wire_number WS_Running = 2"
| "wire_number WS_Cancelling = 3"
| "wire_number WS_Succeeded = 4"
| "wire_number WS_Failed = 5"
| "wire_number WS_Cancelled = 6"

definition wire_state_of :: "int \<Rightarrow> wire_state option" where
  "wire_state_of n =
     (if n = 0 then Some WS_Unspecified else if n = 1 then Some WS_Queued
      else if n = 2 then Some WS_Running else if n = 3 then Some WS_Cancelling
      else if n = 4 then Some WS_Succeeded else if n = 5 then Some WS_Failed
      else if n = 6 then Some WS_Cancelled else None)"

record wire_count =
  wc_done :: nat
  wc_total :: "nat option"

datatype wire_measure = WM_Items wire_count | WM_Bytes wire_count

record wire_progress =
  wp_phase :: bytes
  wp_measure :: "wire_measure option"

record wire_operand =
  wo_name :: bytes
  wo_value :: bytes

record wire_task =
  wt_id :: bytes
  wt_parent :: bytes
  wt_kind :: bytes
  wt_subject :: "wire_operand list"
  wt_state :: int
  wt_error :: bytes
  wt_waiting_on_resource :: bool
  wt_progress :: "wire_progress option"
  wt_submitted_unix_millis :: int
  wt_settled_unix_millis :: "int option"

section \<open>Writing\<close>

definition i64_max :: int where "i64_max = 2 ^ 63 - 1"

definition clamp_millis :: "int \<Rightarrow> int" where
  "clamp_millis nanos = (let ms = nanos div 10 ^ 6 in if ms \<le> i64_max then ms else i64_max)"

definition unix_millis :: "system_time \<Rightarrow> int" where
  "unix_millis time = (if 0 \<le> time then clamp_millis time else - clamp_millis (- time))"

definition wire_state_fields :: "task_state \<Rightarrow> wire_state \<times> bytes \<times> bool" where
  "wire_state_fields st =
     (case st of
        Queued waiting \<Rightarrow> (WS_Queued, [], waiting \<noteq> None)
      | Running \<Rightarrow> (WS_Running, [], False)
      | Cancelling \<Rightarrow> (WS_Cancelling, [], False)
      | Succeeded \<Rightarrow> (WS_Succeeded, [], False)
      | Failed error \<Rightarrow> (WS_Failed, io_text error, False)
      | Cancelled \<Rightarrow> (WS_Cancelled, [], False))"

definition task_message :: "(task_id \<Rightarrow> bytes) \<Rightarrow> task_info \<Rightarrow> wire_task" where
  "task_message show_id info =
     (case wire_state_fields (ti_state info) of
        (state, error, waiting_on_resource) \<Rightarrow>
          \<lparr>wt_id = show_id (ti_id info),
           wt_parent = (case ti_parent info of None \<Rightarrow> [] | Some p \<Rightarrow> show_id p),
           wt_kind = td_kind (ti_descriptor info),
           wt_subject = map (\<lambda>operand. \<lparr>wo_name = op_name operand, wo_value = op_value operand\<rparr>)
                          (td_subject (ti_descriptor info)),
           wt_state = wire_number state,
           wt_error = error,
           wt_waiting_on_resource = waiting_on_resource,
           wt_progress = Some
             \<lparr>wp_phase = (case pr_phase (ti_progress info) of None \<Rightarrow> [] | Some phase \<Rightarrow> phase),
              wp_measure = (case pr_measure (ti_progress info) of
                  Indeterminate \<Rightarrow> None
                | Items d n \<Rightarrow> Some (WM_Items \<lparr>wc_done = d, wc_total = n\<rparr>)
                | Bytes d n \<Rightarrow> Some (WM_Bytes \<lparr>wc_done = d, wc_total = n\<rparr>))\<rparr>,
           wt_submitted_unix_millis = unix_millis (ti_submitted info),
           wt_settled_unix_millis = map_option unix_millis (ti_settled info)\<rparr>)"

section \<open>Reading\<close>

datatype task_status =
    TS_Queued bool
  | TS_Running
  | TS_Cancelling
  | TS_Succeeded
  | TS_Failed bytes
  | TS_Cancelled

fun status_terminal :: "task_status \<Rightarrow> bool" where
  "status_terminal TS_Succeeded = True"
| "status_terminal (TS_Failed _) = True"
| "status_terminal TS_Cancelled = True"
| "status_terminal _ = False"

datatype view_measure =
    VM_Indeterminate
  | VM_Items nat "nat option"
  | VM_Bytes nat "nat option"

record task_view =
  tv_id :: bytes
  tv_parent :: "bytes option"
  tv_kind :: bytes
  tv_subject :: "(bytes \<times> bytes) list"
  tv_status :: task_status
  tv_phase :: "bytes option"
  tv_measure :: view_measure
  tv_submitted_unix_millis :: int

definition non_empty :: "bytes \<Rightarrow> bytes option" where
  "non_empty s = (if s = [] then None else Some s)"

definition view_of_message :: "wire_task \<Rightarrow> task_view" where
  "view_of_message t =
     (let status = (case wire_state_of (wt_state t) of
            Some WS_Queued \<Rightarrow> TS_Queued (wt_waiting_on_resource t)
          | Some WS_Running \<Rightarrow> TS_Running
          | Some WS_Cancelling \<Rightarrow> TS_Cancelling
          | Some WS_Succeeded \<Rightarrow> TS_Succeeded
          | Some WS_Failed \<Rightarrow> TS_Failed (wt_error t)
          | Some WS_Cancelled \<Rightarrow> TS_Cancelled
          | Some WS_Unspecified \<Rightarrow> TS_Queued False
          | None \<Rightarrow> TS_Queued False);
          progress = (case wt_progress t of Some p \<Rightarrow> p | None \<Rightarrow> \<lparr>wp_phase = [], wp_measure = None\<rparr>);
          measure = (case wp_measure progress of
            None \<Rightarrow> VM_Indeterminate
          | Some (WM_Items c) \<Rightarrow> VM_Items (wc_done c) (wc_total c)
          | Some (WM_Bytes c) \<Rightarrow> VM_Bytes (wc_done c) (wc_total c))
      in \<lparr>tv_id = wt_id t, tv_parent = non_empty (wt_parent t), tv_kind = wt_kind t,
          tv_subject = map (\<lambda>operand. (wo_name operand, wo_value operand)) (wt_subject t),
          tv_status = status, tv_phase = non_empty (wp_phase progress), tv_measure = measure,
          tv_submitted_unix_millis = wt_submitted_unix_millis t\<rparr>)"

section \<open>What survives the wire\<close>

lemma wire_state_round_trip [simp]: "wire_state_of (wire_number st) = Some st"
  by (cases st) (simp_all add: wire_state_of_def)

definition status_of :: "task_state \<Rightarrow> task_status" where
  "status_of st =
     (case st of
        Queued waiting \<Rightarrow> TS_Queued (waiting \<noteq> None)
      | Running \<Rightarrow> TS_Running
      | Cancelling \<Rightarrow> TS_Cancelling
      | Succeeded \<Rightarrow> TS_Succeeded
      | Failed error \<Rightarrow> TS_Failed (io_text error)
      | Cancelled \<Rightarrow> TS_Cancelled)"

definition view_measure_of :: "measure \<Rightarrow> view_measure" where
  "view_measure_of m =
     (case m of Indeterminate \<Rightarrow> VM_Indeterminate | Items d t \<Rightarrow> VM_Items d t | Bytes d t \<Rightarrow> VM_Bytes d t)"

lemma status_of_terminal [simp]: "status_terminal (status_of st) = is_terminal st"
  by (cases st) (simp_all add: status_of_def)

lemma unix_millis_bounds: "- i64_max \<le> unix_millis t \<and> unix_millis t \<le> i64_max"
proof -
  have up: "clamp_millis n \<le> i64_max" for n by (simp add: clamp_millis_def Let_def)
  have low: "0 \<le> clamp_millis n" if "0 \<le> n" for n
    using that by (auto simp: clamp_millis_def Let_def i64_max_def)
  have "0 \<le> i64_max" by (simp add: i64_max_def)
  with up [of t] up [of "- t"] low [of t] low [of "- t"] show ?thesis
    by (auto simp: unix_millis_def)
qed

lemma unix_millis_mono: "s \<le> t \<Longrightarrow> unix_millis s \<le> unix_millis t"
proof -
  have mono: "clamp_millis a \<le> clamp_millis b" if "a \<le> b" for a b
    using zdiv_mono1 [OF that, of "10 ^ 6"] by (auto simp: clamp_millis_def Let_def)
  have pos: "0 \<le> clamp_millis n" if "0 \<le> n" for n
    using that by (auto simp: clamp_millis_def Let_def i64_max_def)
  assume "s \<le> t"
  with mono [of s t] mono [of "- t" "- s"] pos [of t] pos [of "- s"] show ?thesis
    by (auto simp: unix_millis_def)
qed

text \<open>
  A client reads a task as the server holds it: whatever a task's descriptor, state and
  progress, the view decoded from its message has its identity, parent, kind and operands, its
  state with the failure's text, its phase unless empty and its measure; and its submission time
  in milliseconds is within 64 bits and in the order of the server's clock.
\<close>

theorem task_survives_the_wire:
  assumes "\<And>i. show_id i \<noteq> []"
  shows "view_of_message (task_message show_id info) =
     \<lparr>tv_id = show_id (ti_id info), tv_parent = map_option show_id (ti_parent info),
      tv_kind = td_kind (ti_descriptor info),
      tv_subject = map (\<lambda>operand. (op_name operand, op_value operand)) (td_subject (ti_descriptor info)),
      tv_status = status_of (ti_state info),
      tv_phase = (case pr_phase (ti_progress info) of None \<Rightarrow> None | Some phase \<Rightarrow> non_empty phase),
      tv_measure = view_measure_of (pr_measure (ti_progress info)),
      tv_submitted_unix_millis = unix_millis (ti_submitted info)\<rparr>
    \<and> \<bar>unix_millis (ti_submitted info)\<bar> \<le> i64_max
    \<and> (ti_submitted info \<le> ti_submitted info' \<longrightarrow>
         unix_millis (ti_submitted info) \<le> unix_millis (ti_submitted info'))"
proof -
  have st: "view_of_message (task_message show_id info) =
     \<lparr>tv_id = show_id (ti_id info), tv_parent = map_option show_id (ti_parent info),
      tv_kind = td_kind (ti_descriptor info),
      tv_subject = map (\<lambda>operand. (op_name operand, op_value operand)) (td_subject (ti_descriptor info)),
      tv_status = status_of (ti_state info),
      tv_phase = (case pr_phase (ti_progress info) of None \<Rightarrow> None | Some phase \<Rightarrow> non_empty phase),
      tv_measure = view_measure_of (pr_measure (ti_progress info)),
      tv_submitted_unix_millis = unix_millis (ti_submitted info)\<rparr>"
    using assms
    by (cases "ti_state info")
       (simp_all add: view_of_message_def task_message_def wire_state_fields_def status_of_def Let_def
         view_measure_of_def non_empty_def del: wire_number.simps split: option.splits measure.splits)
  with unix_millis_bounds [of "ti_submitted info"] unix_millis_mono show ?thesis
    by (simp add: abs_le_iff)
qed

definition example_info :: task_info where
  "example_info =
     \<lparr>ti_id = 2, ti_parent = Some 1,
      ti_descriptor = td_with (task_descriptor_new ''demo.count'' Background) ''seconds'' ''5'',
      ti_submitted = -1500000, ti_settled = None, ti_state = Failed (io_error_new Io_Other ''no''),
      ti_progress = \<lparr>pr_phase = Some [], pr_measure = Items 3 (Some 50)\<rparr>\<rparr>"

theorem task_survives_the_wire_witness:
  "\<exists>v. view_of_message (task_message show_nat example_info) = v
     \<and> tv_parent v = Some (show_nat 1) \<and> tv_status v = TS_Failed ''no'' \<and> tv_phase v = None
     \<and> tv_measure v = VM_Items 3 (Some 50) \<and> tv_submitted_unix_millis v = -1"
proof -
  have "show_nat i \<noteq> []" for i by (subst show_nat.simps) simp
  from task_survives_the_wire [of show_nat example_info example_info, OF this] show ?thesis
    by (simp add: example_info_def status_of_def non_empty_def view_measure_of_def unix_millis_def
        clamp_millis_def Let_def i64_max_def)
qed

end
