(* ===== verification/TuiApp.thy ===== *)
theory TuiApp
  imports Wire
begin

text \<open>
  \<open>src/tui/app.rs\<close>: the terminal client's state and how keys, the mouse and the connections
  change it. The types of an input event are the terminal library's (crossterm); a key that types
  a character outside ASCII is \<open>KC_Other\<close>, which the code treats the same. The clock is an
  argument: an \<open>Instant\<close> is a number of nanoseconds and \<open>duration_since\<close> does not go below zero.
\<close>

section \<open>Input events\<close>

datatype key_code = KC_Char char | KC_Down | KC_Up | KC_Esc | KC_Other
datatype key_event_kind = Press | Repeat | Release

record key_event =
  ke_code :: key_code
  ke_control :: bool
  ke_kind :: key_event_kind

datatype mouse_button = MB_Left | MB_Right | MB_Middle

datatype mouse_event_kind =
    ME_Down mouse_button | ME_Up mouse_button | ME_Drag mouse_button | ME_Moved
  | ME_ScrollDown | ME_ScrollUp | ME_ScrollLeft | ME_ScrollRight

section \<open>State\<close>

definition SETTLED_LINGER :: duration where "SETTLED_LINGER = 5 * 10 ^ 9"

datatype attention = NotInstalled | Incompatible bytes | NeedsLogin

datatype task_update = Snapshot "task_view list" | Changed task_view

datatype connection_event =
    CE_Attaching
  | CE_Starting
  | CE_Attached bytes nat
  | CE_Disconnected instant "bytes option"
  | CE_NeedsAttention attention instant
  | CE_Tasks task_update

datatype command = StartServer

datatype menu_of = MO_Machine nat | MO_Global
datatype hint = HintDetach | HintStartServer

datatype spot =
    SpotMachine nat
  | SpotMenuButton menu_of
  | SpotMachines
  | SpotHint hint
  | SpotMenu

record menu =
  mn_of :: menu_of
  mn_column :: nat
  mn_row :: nat

datatype machine_state =
    MS_Attaching
  | MS_Starting
  | MS_Attached bytes nat
  | MS_Disconnected instant "bytes option"
  | MS_NeedsAttention attention instant

record machine =
  mc_label :: bytes
  mc_ssh :: "bytes option"
  mc_state :: machine_state
  mc_tasks :: "task_view list"
  mc_settled_at :: "(bytes \<times> instant) list"

record app =
  ap_machines :: "machine list"
  ap_selected :: nat
  ap_menu :: "menu option"
  ap_quit :: bool

definition machine_new :: "bytes \<Rightarrow> bytes option \<Rightarrow> machine" where
  "machine_new label ssh =
     \<lparr>mc_label = label, mc_ssh = ssh, mc_state = MS_Attaching, mc_tasks = [], mc_settled_at = []\<rparr>"

definition app_new :: "(bytes \<times> bytes) list \<Rightarrow> app" where
  "app_new remotes =
     \<lparr>ap_machines = machine_new ''local'' None # map (\<lambda>(label, ssh). machine_new label (Some ssh)) remotes,
      ap_selected = 0, ap_menu = None, ap_quit = False\<rparr>"

definition selected_machine :: "app \<Rightarrow> machine" where
  "selected_machine self = ap_machines self ! ap_selected self"

section \<open>The tasks of a machine\<close>

definition expire_machine :: "instant \<Rightarrow> machine \<Rightarrow> machine" where
  "expire_machine now self =
     (let tasks = filter (\<lambda>task. case map_of (mc_settled_at self) (tv_id task) of
                            None \<Rightarrow> True
                          | Some since \<Rightarrow> now - since < SETTLED_LINGER) (mc_tasks self)
      in self\<lparr>mc_tasks := tasks,
              mc_settled_at := filter (\<lambda>(i, _). list_ex (\<lambda>task. tv_id task = i) tasks) (mc_settled_at self)\<rparr>)"

definition settled_since :: "machine \<Rightarrow> instant \<Rightarrow> task_view \<Rightarrow> instant option" where
  "settled_since self now task =
     (case (find (\<lambda>held. tv_id held = tv_id task) (mc_tasks self),
            map_of (mc_settled_at self) (tv_id task)) of
        (Some _, Some since) \<Rightarrow> Some since
      | (Some known, None) \<Rightarrow> if \<not> status_terminal (tv_status known) then Some now else None
      | (None, _) \<Rightarrow> None)"

fun take_snapshot ::
  "machine \<Rightarrow> instant \<Rightarrow> task_view list \<Rightarrow> (bytes \<times> instant) list \<Rightarrow> task_view list
   \<Rightarrow> (bytes \<times> instant) list \<times> task_view list" where
  "take_snapshot self now [] settled_at tasks = (settled_at, tasks)"
| "take_snapshot self now (task # snapshot) settled_at tasks =
     (if status_terminal (tv_status task)
      then (case settled_since self now task of
              None \<Rightarrow> take_snapshot self now snapshot settled_at tasks
            | Some since \<Rightarrow>
                take_snapshot self now snapshot (AList.update (tv_id task) since settled_at) (tasks @ [task]))
      else take_snapshot self now snapshot settled_at (tasks @ [task]))"

fun put_task :: "task_view \<Rightarrow> task_view list \<Rightarrow> task_view list" where
  "put_task task [] = [task]"
| "put_task task (held # rest) = (if tv_id held = tv_id task then task # rest else held # put_task task rest)"

definition apply_update :: "task_update \<Rightarrow> instant \<Rightarrow> machine \<Rightarrow> machine" where
  "apply_update update now self =
     (let self' = (case update of
          Snapshot snapshot \<Rightarrow>
            (case take_snapshot self now snapshot [] [] of
               (settled_at, tasks) \<Rightarrow> self\<lparr>mc_tasks := tasks, mc_settled_at := settled_at\<rparr>)
        | Changed task \<Rightarrow>
            self\<lparr>mc_settled_at :=
                   (if status_terminal (tv_status task)
                    then (case map_of (mc_settled_at self) (tv_id task) of
                            Some _ \<Rightarrow> mc_settled_at self
                          | None \<Rightarrow> AList.update (tv_id task) now (mc_settled_at self))
                    else AList.delete (tv_id task) (mc_settled_at self)),
                 mc_tasks := put_task task (mc_tasks self)\<rparr>)
      in expire_machine now (self'\<lparr>mc_tasks := sort_key tv_submitted_unix_millis (mc_tasks self')\<rparr>))"

section \<open>Input\<close>

definition select_next :: "app \<Rightarrow> app" where
  "select_next self = self\<lparr>ap_selected := min (ap_selected self + 1) (length (ap_machines self) - 1)\<rparr>"

definition select_previous :: "app \<Rightarrow> app" where
  "select_previous self = self\<lparr>ap_selected := ap_selected self - 1\<rparr>"

definition start_server :: "app \<Rightarrow> command option" where
  "start_server self =
     (case mc_state (selected_machine self) of MS_Disconnected _ _ \<Rightarrow> Some StartServer | _ \<Rightarrow> None)"

definition open_menu :: "menu_of \<Rightarrow> nat \<Rightarrow> nat \<Rightarrow> app \<Rightarrow> app" where
  "open_menu whose column row self =
     (case whose of
        MO_Machine index \<Rightarrow>
          (let machine = min index (length (ap_machines self) - 1) in
           self\<lparr>ap_selected := machine,
                ap_menu := Some \<lparr>mn_of = MO_Machine machine, mn_column = column, mn_row = row\<rparr>\<rparr>)
      | MO_Global \<Rightarrow>
          self\<lparr>ap_menu := Some \<lparr>mn_of = MO_Global, mn_column = column, mn_row = row\<rparr>\<rparr>)"

definition on_key :: "key_event \<Rightarrow> app \<Rightarrow> command option \<times> app" where
  "on_key key self =
     (if ke_kind key \<noteq> Press then (None, self)
      else if ke_code key = KC_Char CHR ''c'' \<and> ke_control key then (None, self\<lparr>ap_quit := True\<rparr>)
      else if ap_menu self \<noteq> None
      then (None, if ke_code key = KC_Esc \<or> ke_code key = KC_Char CHR ''q'' then self\<lparr>ap_menu := None\<rparr> else self)
      else if ke_code key = KC_Char CHR ''q'' then (None, self\<lparr>ap_quit := True\<rparr>)
      else if ke_code key = KC_Char CHR ''j'' \<or> ke_code key = KC_Down then (None, select_next self)
      else if ke_code key = KC_Char CHR ''k'' \<or> ke_code key = KC_Up then (None, select_previous self)
      else if ke_code key = KC_Char CHR ''s'' then (start_server self, self)
      else (None, self))"

fun over_machines :: "spot \<Rightarrow> bool" where
  "over_machines (SpotMachine _) = True"
| "over_machines (SpotMenuButton _) = True"
| "over_machines SpotMachines = True"
| "over_machines _ = False"

fun is_down :: "mouse_event_kind \<Rightarrow> bool" where
  "is_down (ME_Down _) = True"
| "is_down _ = False"

definition on_mouse ::
  "mouse_event_kind \<Rightarrow> spot option \<Rightarrow> nat \<Rightarrow> nat \<Rightarrow> app \<Rightarrow> command option \<times> app" where
  "on_mouse kind spot column row self =
     (case ap_menu self of
        Some open \<Rightarrow>
          (None,
           if is_down kind \<and> spot \<noteq> Some SpotMenu
           then (let closed = self\<lparr>ap_menu := None\<rparr> in
                 case (kind, spot) of
                   (ME_Down MB_Left, Some (SpotMenuButton whose)) \<Rightarrow>
                     if whose \<noteq> mn_of open then open_menu whose column row closed else closed
                 | _ \<Rightarrow> closed)
           else self)
      | None \<Rightarrow>
          (case spot of
             None \<Rightarrow> (None, self)
           | Some spot \<Rightarrow>
               (case (kind, spot) of
                  (ME_Down MB_Left, SpotMenuButton whose) \<Rightarrow> (None, open_menu whose column row self)
                | (ME_Down MB_Left, SpotMachine index) \<Rightarrow>
                    (None, self\<lparr>ap_selected := min index (length (ap_machines self) - 1)\<rparr>)
                | (ME_Down MB_Left, SpotHint HintDetach) \<Rightarrow> (None, self\<lparr>ap_quit := True\<rparr>)
                | (ME_Down MB_Left, SpotHint HintStartServer) \<Rightarrow> (start_server self, self)
                | (ME_ScrollDown, s) \<Rightarrow> (None, if over_machines s then select_next self else self)
                | (ME_ScrollUp, s) \<Rightarrow> (None, if over_machines s then select_previous self else self)
                | _ \<Rightarrow> (None, self))))"

fun state_of_event :: "connection_event \<Rightarrow> machine_state option" where
  "state_of_event (CE_Tasks _) = None"
| "state_of_event CE_Attaching = Some MS_Attaching"
| "state_of_event CE_Starting = Some MS_Starting"
| "state_of_event (CE_Attached server_version pid) = Some (MS_Attached server_version pid)"
| "state_of_event (CE_Disconnected retry_at reason) = Some (MS_Disconnected retry_at reason)"
| "state_of_event (CE_NeedsAttention attention retry_at) = Some (MS_NeedsAttention attention retry_at)"

definition machine_event :: "connection_event \<Rightarrow> instant \<Rightarrow> machine \<Rightarrow> machine" where
  "machine_event event now machine =
     (case event of
        CE_Tasks update \<Rightarrow> apply_update update now machine
      | _ \<Rightarrow> (case state_of_event event of
                Some state \<Rightarrow> machine\<lparr>mc_state := state\<rparr> | None \<Rightarrow> machine))"

definition on_connection_at :: "nat \<Rightarrow> connection_event \<Rightarrow> instant \<Rightarrow> app \<Rightarrow> app" where
  "on_connection_at index event now self =
     (if index < length (ap_machines self)
      then self\<lparr>ap_machines := (ap_machines self)[index := machine_event event now (ap_machines self ! index)]\<rparr>
      else self)"

definition expire :: "instant \<Rightarrow> app \<Rightarrow> app" where
  "expire now self = self\<lparr>ap_machines := map (expire_machine now) (ap_machines self)\<rparr>"

section \<open>The app as a whole\<close>

datatype app_event =
    AE_Key key_event
  | AE_Mouse mouse_event_kind "spot option" nat nat
  | AE_Connection nat connection_event instant
  | AE_Tick instant

fun app_react :: "app_event \<Rightarrow> app \<Rightarrow> app" where
  "app_react (AE_Key key) a = snd (on_key key a)"
| "app_react (AE_Mouse kind spot column row) a = snd (on_mouse kind spot column row a)"
| "app_react (AE_Connection index event now) a = on_connection_at index event now a"
| "app_react (AE_Tick now) a = expire now a"

definition app_usable :: "(bytes \<times> bytes option) list \<Rightarrow> app \<Rightarrow> bool" where
  "app_usable names a \<longleftrightarrow> map (\<lambda>m. (mc_label m, mc_ssh m)) (ap_machines a) = names \<and> names \<noteq> []
     \<and> ap_selected a < length names
     \<and> (\<forall>menu i. ap_menu a = Some menu \<longrightarrow> mn_of menu = MO_Machine i \<longrightarrow> i = ap_selected a)"

definition machine_name :: "machine \<Rightarrow> bytes \<times> bytes option" where
  "machine_name m = (mc_label m, mc_ssh m)"

lemma machine_name_event [simp]: "machine_name (machine_event event now m) = machine_name m"
  by (cases event)
     (auto simp: machine_event_def machine_name_def apply_update_def expire_machine_def Let_def
       split: task_update.splits prod.splits)

lemma machine_name_expire [simp]: "machine_name (expire_machine now m) = machine_name m"
  by (simp add: machine_name_def expire_machine_def Let_def)

lemma app_usable_length: "app_usable names a \<Longrightarrow> length (ap_machines a) = length names"
  by (auto simp: app_usable_def)

lemma app_usable_name: "app_usable names a \<longleftrightarrow> map machine_name (ap_machines a) = names \<and> names \<noteq> []
     \<and> ap_selected a < length names
     \<and> (\<forall>menu i. ap_menu a = Some menu \<longrightarrow> mn_of menu = MO_Machine i \<longrightarrow> i = ap_selected a)"
  unfolding app_usable_def machine_name_def ..

lemma app_usable_key:
  assumes "app_usable names a" shows "app_usable names (snd (on_key key a))"
  using assms app_usable_length [OF assms]
  by (auto simp: on_key_def app_usable_name select_next_def select_previous_def)

lemma app_usable_open: "app_usable names a \<Longrightarrow> app_usable names (open_menu whose column row a)"
  using app_usable_length [of names a]
  by (auto simp: open_menu_def app_usable_name Let_def split: menu_of.splits)

lemma app_usable_close: "app_usable names a \<Longrightarrow> app_usable names (a\<lparr>ap_menu := None\<rparr>)"
  by (simp add: app_usable_def)

lemma app_usable_mouse:
  assumes "app_usable names a" shows "app_usable names (snd (on_mouse kind spot column row a))"
proof (cases "ap_menu a")
  case None
  then show ?thesis
    using assms app_usable_length [OF assms] app_usable_open [OF assms]
    by (auto simp: on_mouse_def app_usable_name select_next_def select_previous_def
        split: mouse_event_kind.splits mouse_button.splits spot.splits hint.splits option.splits)
next
  case (Some opened)
  then show ?thesis
    using assms app_usable_close [OF assms] app_usable_open [OF app_usable_close [OF assms]]
    by (simp add: on_mouse_def Let_def
        split: mouse_event_kind.splits mouse_button.splits spot.splits option.splits)
qed

lemma app_usable_connection:
  assumes "app_usable names a" shows "app_usable names (on_connection_at index event now a)"
proof -
  have "map machine_name ((ap_machines a)[index := machine_event event now (ap_machines a ! index)])
      = map machine_name (ap_machines a)" if "index < length (ap_machines a)"
    using that by (simp add: map_update list_update_same_conv)
  with assms show ?thesis by (simp add: on_connection_at_def app_usable_name)
qed

lemma app_usable_expire: "app_usable names a \<Longrightarrow> app_usable names (expire now a)"
  by (simp add: expire_def app_usable_name o_def)

lemma app_usable_react: "app_usable names a \<Longrightarrow> app_usable names (app_react e a)"
  by (cases e) (simp_all add: app_usable_key app_usable_mouse app_usable_connection app_usable_expire)

interpretation tui: event_loop app_react "\<lambda>_. True" "app_usable names" for names
  by unfold_locales (rule app_usable_react)

text \<open>
  C16. The terminal client stays usable: whatever keys, clicks, reports of connections and ticks
  arrive in whatever order, the machines stay those it was given with this machine first, the
  selection is one of them - so looking at the selected machine never fails - and a machine's
  open menu is the selected machine's.
\<close>

theorem app_stays_usable:
  "map mc_label (ap_machines (fold app_react es (app_new remotes))) = ''local'' # map fst remotes
   \<and> ap_selected (fold app_react es (app_new remotes)) < length (ap_machines (fold app_react es (app_new remotes)))
   \<and> (map_option mn_of (ap_menu (fold app_react es (app_new remotes))) = Some (MO_Machine i)
        \<longrightarrow> i = ap_selected (fold app_react es (app_new remotes)))"
proof -
  let ?names = "(''local'', None) # map (\<lambda>(label, ssh). (label, Some ssh)) remotes"
  have "app_usable ?names (app_new remotes)"
    by (auto simp: app_usable_def app_new_def machine_new_def)
  then have *: "app_usable ?names (fold app_react es (app_new remotes))"
    by (rule tui.run_ok) (simp add: list_all_iff)
  then have "map fst (map (\<lambda>m. (mc_label m, mc_ssh m)) (ap_machines (fold app_react es (app_new remotes))))
      = map fst ?names"
    by (simp add: app_usable_def)
  moreover have "map fst (map (\<lambda>(label, ssh). (label, Some ssh)) remotes) = map fst remotes" by auto
  ultimately show ?thesis using * app_usable_length [OF *] by (auto simp: app_usable_def o_def)
qed

theorem app_stays_usable_witness:
  "\<exists>a. a = fold app_react [AE_Mouse (ME_Down MB_Left) (Some (SpotMenuButton (MO_Machine 7))) 3 4]
        (app_new [(''work'', ''me@work'')])
     \<and> map_option mn_of (ap_menu a) = Some (MO_Machine 1) \<and> ap_selected a = 1
     \<and> map mc_label (ap_machines a) = [''local'', ''work'']"
  using app_stays_usable [of "[AE_Mouse (ME_Down MB_Left) (Some (SpotMenuButton (MO_Machine 7))) 3 4]"
      "[(''work'', ''me@work'')]" 1]
  by (simp add: on_mouse_def open_menu_def app_new_def machine_new_def Let_def)

text \<open>
  Only a machine known to have no server is told to start one, and only on purpose: a command
  is the answer to a press of \<open>s\<close>, or to a click on the hint that says so, with no menu open, when
  the selected machine is disconnected - and to nothing else.
\<close>

theorem only_a_disconnected_machine_is_started:
  "(fst (on_key key a) = Some StartServer \<longleftrightarrow>
      ke_kind key = Press \<and> ke_code key = KC_Char CHR ''s'' \<and> ap_menu a = None
      \<and> (\<exists>retry_at reason. mc_state (selected_machine a) = MS_Disconnected retry_at reason))
   \<and> (fst (on_mouse kind spot column row a) = Some StartServer \<longleftrightarrow>
      kind = ME_Down MB_Left \<and> spot = Some (SpotHint HintStartServer) \<and> ap_menu a = None
      \<and> (\<exists>retry_at reason. mc_state (selected_machine a) = MS_Disconnected retry_at reason))"
proof
  have start: "start_server a = Some StartServer \<longleftrightarrow>
      (\<exists>retry_at reason. mc_state (selected_machine a) = MS_Disconnected retry_at reason)"
    by (auto simp: start_server_def split: machine_state.splits)
  show "fst (on_key key a) = Some StartServer \<longleftrightarrow>
      ke_kind key = Press \<and> ke_code key = KC_Char CHR ''s'' \<and> ap_menu a = None
      \<and> (\<exists>retry_at reason. mc_state (selected_machine a) = MS_Disconnected retry_at reason)"
    using start by (auto simp: on_key_def)
  show "fst (on_mouse kind spot column row a) = Some StartServer \<longleftrightarrow>
      kind = ME_Down MB_Left \<and> spot = Some (SpotHint HintStartServer) \<and> ap_menu a = None
      \<and> (\<exists>retry_at reason. mc_state (selected_machine a) = MS_Disconnected retry_at reason)"
    using start
    by (auto simp: on_mouse_def split: option.splits mouse_event_kind.splits mouse_button.splits
        spot.splits hint.splits)
qed

text \<open>
  An open menu has the keyboard and the mouse: until it closes no key and no click asks
  anything of a connection or changes the machines; a key leaves the app alone, closes the menu
  or (control-c) quits, and the mouse leaves it alone, closes the menu, or opens another one.
\<close>

theorem an_open_menu_is_modal:
  assumes "ap_menu a = Some menu"
  shows "fst (on_key key a) = None
    \<and> (snd (on_key key a) = a \<or> snd (on_key key a) = a\<lparr>ap_menu := None\<rparr>
       \<or> ke_control key \<and> snd (on_key key a) = a\<lparr>ap_quit := True\<rparr>)
    \<and> fst (on_mouse kind spot column row a) = None
    \<and> (snd (on_mouse kind spot column row a) = a
       \<or> snd (on_mouse kind spot column row a) = a\<lparr>ap_menu := None\<rparr>
       \<or> (\<exists>whose. kind = ME_Down MB_Left \<and> spot = Some (SpotMenuButton whose) \<and> whose \<noteq> mn_of menu
            \<and> snd (on_mouse kind spot column row a) = open_menu whose column row (a\<lparr>ap_menu := None\<rparr>)))"
  using assms
  by (auto simp: on_key_def on_mouse_def Let_def
      split: mouse_event_kind.splits mouse_button.splits spot.splits option.splits)

theorem an_open_menu_is_modal_witness:
  "\<exists>a. ap_menu a = Some \<lparr>mn_of = MO_Global, mn_column = 1, mn_row = 2\<rparr>
     \<and> fst (on_key \<lparr>ke_code = KC_Char CHR ''s'', ke_control = False, ke_kind = Press\<rparr> a) = None"
  using an_open_menu_is_modal [of "(app_new [])\<lparr>ap_menu := Some \<lparr>mn_of = MO_Global, mn_column = 1, mn_row = 2\<rparr>\<rparr>"]
  by (intro exI [of _ "(app_new [])\<lparr>ap_menu := Some \<lparr>mn_of = MO_Global, mn_column = 1, mn_row = 2\<rparr>\<rparr>"]) simp

end
