(* ===== verification/TuiPane.thy ===== *)
theory TuiPane
  imports TuiApp "HOL-Library.Multiset"
begin

text \<open>
  What a machine's pane of tasks is: abstractly, a map from the identifier of a task to its view
  and, once it has settled, the time this client first saw it so. The list and the table of times
  of \<open>src/tui/app.rs\<close> refine it.
\<close>

section \<open>The abstract pane\<close>

type_synonym pane = "bytes \<Rightarrow> (task_view \<times> instant option) option"

definition pane_expire :: "instant \<Rightarrow> pane \<Rightarrow> pane" where
  "pane_expire now P = (\<lambda>i. case P i of
      Some (v, Some since) \<Rightarrow> if now - since < SETTLED_LINGER then P i else None
    | _ \<Rightarrow> P i)"

definition pane_since :: "pane \<Rightarrow> bytes \<Rightarrow> instant \<Rightarrow> instant" where
  "pane_since P i now = (case P i of Some (_, Some since) \<Rightarrow> since | _ \<Rightarrow> now)"

fun pane_update :: "task_update \<Rightarrow> instant \<Rightarrow> pane \<Rightarrow> pane" where
  "pane_update (Changed v) now P =
     P(tv_id v \<mapsto> (v, if status_terminal (tv_status v) then Some (pane_since P (tv_id v) now) else None))"
| "pane_update (Snapshot vs) now P =
     (\<lambda>i. case map_of (map (\<lambda>v. (tv_id v, v)) vs) i of
        None \<Rightarrow> None
      | Some v \<Rightarrow>
          if \<not> status_terminal (tv_status v) then Some (v, None)
          else if P i = None then None
          else Some (v, Some (pane_since P i now)))"

section \<open>The pane a machine holds\<close>

definition held :: "task_view list \<Rightarrow> bytes \<Rightarrow> task_view option" where
  "held vs = map_of (map (\<lambda>v. (tv_id v, v)) vs)"

definition pane_of :: "machine \<Rightarrow> pane" where
  "pane_of m = (\<lambda>i. map_option (\<lambda>v. (v, map_of (mc_settled_at m) i)) (held (mc_tasks m) i))"

definition pane_ok :: "machine \<Rightarrow> bool" where
  "pane_ok m \<longleftrightarrow> distinct (map tv_id (mc_tasks m))
     \<and> (\<forall>v \<in> set (mc_tasks m). status_terminal (tv_status v) \<longleftrightarrow> map_of (mc_settled_at m) (tv_id v) \<noteq> None)
     \<and> (\<forall>i. map_of (mc_settled_at m) i \<noteq> None \<longrightarrow> held (mc_tasks m) i \<noteq> None)"

fun update_ok :: "task_update \<Rightarrow> bool" where
  "update_ok (Snapshot vs) \<longleftrightarrow> distinct (map tv_id vs)"
| "update_ok (Changed v) \<longleftrightarrow> True"

lemma held_simps [simp]:
  "held [] = (\<lambda>_. None)" "held (v # vs) = (held vs)(tv_id v \<mapsto> v)"
  by (simp_all add: held_def)

lemma held_append: "held (vs @ ws) = held ws ++ held vs"
  by (simp add: held_def)

lemma held_id: "held vs i = Some v \<Longrightarrow> v \<in> set vs \<and> tv_id v = i"
  by (induction vs) (auto split: if_splits)

lemma held_None_iff: "held vs i = None \<longleftrightarrow> i \<notin> tv_id ` set vs"
  by (auto simp: held_def map_of_eq_None_iff image_image)

lemma held_Some_iff: "distinct (map tv_id vs) \<Longrightarrow> held vs i = Some v \<longleftrightarrow> v \<in> set vs \<and> tv_id v = i"
  by (induction vs) (auto simp: rev_image_eqI dest: held_id)

lemma find_held: "find (\<lambda>v. tv_id v = i) vs = held vs i"
  by (induction vs) auto

lemma held_sort:
  assumes "distinct (map tv_id vs)" shows "held (sort_key f vs) = held vs"
proof -
  have "mset (map tv_id (sort_key f vs)) = mset (map tv_id vs)" by simp
  with assms have "distinct (map tv_id (sort_key f vs))" by (metis mset_eq_imp_distinct_iff)
  then have "held (sort_key f vs) i = Some v \<longleftrightarrow> held vs i = Some v" for i v
    by (simp add: held_Some_iff assms)
  then show ?thesis by (intro ext) (metis option.exhaust)
qed

lemma distinct_sort: "distinct (map tv_id (sort_key f vs)) = distinct (map tv_id vs)"
proof -
  have "mset (map tv_id (sort_key f vs)) = mset (map tv_id vs)" by simp
  then show ?thesis by (rule mset_eq_imp_distinct_iff)
qed

lemma held_filter:
  "distinct (map tv_id vs) \<Longrightarrow>
   held (filter P vs) i = (case held vs i of Some v \<Rightarrow> if P v then Some v else None | None \<Rightarrow> None)"
  by (induction vs) (auto simp: rev_image_eqI split: option.splits dest!: held_id)

lemma distinct_filter: "distinct (map tv_id vs) \<Longrightarrow> distinct (map tv_id (filter P vs))"
  by (induction vs) auto

lemma held_put: "held (put_task v vs) = (held vs)(tv_id v \<mapsto> v)"
  by (induction vs) (auto simp: fun_eq_iff)

lemma distinct_put:
  assumes "distinct (map tv_id vs)"
  shows "distinct (map tv_id (put_task v vs)) \<and> tv_id ` set (put_task v vs) = insert (tv_id v) (tv_id ` set vs)"
  using assms by (induction vs) auto

lemma map_of_filter_key: "map_of (filter (\<lambda>(i, _). P i) S) i = (if P i then map_of S i else None)"
  by (induction S) auto

lemma set_put: "distinct (map tv_id vs) \<Longrightarrow> w \<in> set (put_task v vs) \<Longrightarrow> w = v \<or> w \<in> set vs \<and> tv_id w \<noteq> tv_id v"
  by (induction vs) (auto simp: rev_image_eqI split: if_splits)

definition example_view :: "bytes \<Rightarrow> task_status \<Rightarrow> int \<Rightarrow> task_view" where
  "example_view i status at =
     \<lparr>tv_id = i, tv_parent = None, tv_kind = ''demo.count'', tv_subject = [], tv_status = status,
      tv_phase = None, tv_measure = VM_Indeterminate, tv_submitted_unix_millis = at\<rparr>"

section \<open>Refinement\<close>

lemma pane_of_Some: "pane_of m i = Some (v, t) \<longleftrightarrow> held (mc_tasks m) i = Some v \<and> t = map_of (mc_settled_at m) i"
  by (auto simp: pane_of_def)

lemma pane_ok_held:
  "pane_ok m \<Longrightarrow> held (mc_tasks m) i = Some v \<Longrightarrow>
   status_terminal (tv_status v) \<longleftrightarrow> map_of (mc_settled_at m) i \<noteq> None"
  using held_id [of "mc_tasks m" i v] by (auto simp: pane_ok_def)

lemma expire_refines:
  assumes "pane_ok m"
  shows "pane_ok (expire_machine now m) \<and> pane_of (expire_machine now m) = pane_expire now (pane_of m)"
proof -
  let ?S = "mc_settled_at m"
  define keep where "keep = (\<lambda>v :: task_view. case map_of ?S (tv_id v) of None \<Rightarrow> True | Some since \<Rightarrow> now - since < SETTLED_LINGER)"
  let ?ts = "filter keep (mc_tasks m)"
  have ids: "distinct (map tv_id (mc_tasks m))" using assms by (simp add: pane_ok_def)
  have tasks: "mc_tasks (expire_machine now m) = ?ts"
    by (simp add: expire_machine_def keep_def Let_def)
  have "list_ex (\<lambda>v. tv_id v = i) ?ts \<longleftrightarrow> held ?ts i \<noteq> None" for i
    by (auto simp: list_ex_iff held_None_iff)
  then have settled: "map_of (mc_settled_at (expire_machine now m)) i = (if held ?ts i \<noteq> None then map_of ?S i else None)" for i
    using map_of_filter_key [of "\<lambda>i. list_ex (\<lambda>v. tv_id v = i) ?ts" ?S i]
    by (simp add: expire_machine_def keep_def Let_def)
  have held: "held ?ts i = (case held (mc_tasks m) i of Some v \<Rightarrow> if keep v then Some v else None | None \<Rightarrow> None)" for i
    by (rule held_filter [OF ids])
  have "held ?ts (tv_id v) \<noteq> None" if "v \<in> set ?ts" for v
    using that by (auto simp: held_None_iff)
  then have "pane_ok (expire_machine now m)"
    using assms distinct_filter [OF ids, of keep] settled
    by (auto simp: pane_ok_def tasks)
  moreover have "pane_of (expire_machine now m) i = pane_expire now (pane_of m) i" for i
    using held [of i] settled [of i] held_id [of "mc_tasks m" i]
    by (auto simp: pane_of_def tasks pane_expire_def keep_def split: option.splits)
  ultimately show ?thesis by blast
qed

lemma settled_since_pane:
  assumes "pane_ok m" "status_terminal (tv_status v)"
  shows "settled_since m now v =
    (if pane_of m (tv_id v) = None then None else Some (pane_since (pane_of m) (tv_id v) now))"
  using pane_ok_held [OF assms(1), of "tv_id v"]
  by (auto simp: settled_since_def find_held pane_of_def pane_since_def split: option.splits)

lemma settled_since_id: "tv_id v = tv_id w \<Longrightarrow> settled_since m now v = settled_since m now w"
  by (simp add: settled_since_def)

abbreviation shown :: "machine \<Rightarrow> instant \<Rightarrow> task_view \<Rightarrow> bool" where
  "shown m now v \<equiv> \<not> status_terminal (tv_status v) \<or> settled_since m now v \<noteq> None"

lemma take_snapshot_result:
  "take_snapshot m now vs S T = (S', T') \<Longrightarrow> T' = T @ filter (shown m now) vs
   \<and> (\<forall>v. map_of S' (tv_id v) =
        (if settled_since m now v \<noteq> None \<and> (\<exists>w \<in> set vs. tv_id w = tv_id v \<and> status_terminal (tv_status w))
         then settled_since m now v else map_of S (tv_id v)))"
proof (induction m now vs S T arbitrary: S' T' rule: take_snapshot.induct)
  case (2 m now v vs S T)
  show ?case
  proof (cases "status_terminal (tv_status v)")
    case settled: True
    show ?thesis
    proof (cases "settled_since m now v")
      case None
      then have "settled_since m now w = None" if "tv_id v = tv_id w" for w
        using settled_since_id [OF that, of m now] by simp
      with 2 settled None show ?thesis by auto
    next
      case (Some since)
      then have same: "settled_since m now w = Some since" if "tv_id v = tv_id w" for w
        using settled_since_id [OF that, of m now] by simp
      have ih: "T' = (T @ [v]) @ filter (shown m now) vs"
        "\<forall>w. map_of S' (tv_id w) =
          (if settled_since m now w \<noteq> None \<and> (\<exists>u \<in> set vs. tv_id u = tv_id w \<and> status_terminal (tv_status u))
           then settled_since m now w else map_of (AList.update (tv_id v) since S) (tv_id w))"
        using 2 settled Some by auto
      then show ?thesis using settled Some same by auto
    qed
  qed (use 2 in auto)
qed auto

lemma snapshot_pane:
  assumes ok: "pane_ok m" and ids: "distinct (map tv_id vs)"
    and res: "take_snapshot m now vs [] [] = (S, T)"
    and m': "m' = m\<lparr>mc_settled_at := S, mc_tasks := sort_key tv_submitted_unix_millis T\<rparr>"
  shows "pane_ok m' \<and> pane_of m' = pane_update (Snapshot vs) now (pane_of m)"
proof -
  have T: "T = filter (shown m now) vs"
    and S: "map_of S (tv_id v) = (if settled_since m now v \<noteq> None
        \<and> (\<exists>w \<in> set vs. tv_id w = tv_id v \<and> status_terminal (tv_status w)) then settled_since m now v else None)" for v
    using take_snapshot_result [OF res] by auto
  have dT: "distinct (map tv_id T)" unfolding T by (rule distinct_filter [OF ids])
  have held: "held (mc_tasks m') i = (case held vs i of Some v \<Rightarrow> if shown m now v then Some v else None | None \<Rightarrow> None)" for i
  proof -
    have "held (mc_tasks m') i = held T i" by (simp add: m' held_sort [OF dT])
    also have "held T i = (case held vs i of Some v \<Rightarrow> if shown m now v then Some v else None | None \<Rightarrow> None)"
      unfolding T by (rule held_filter [OF ids])
    finally show ?thesis .
  qed
  have same: "v = w" if "v \<in> set vs" "w \<in> set vs" "tv_id v = tv_id w" for v w
    using that held_Some_iff [OF ids] by (metis option.inject)
  have settled: "map_of S (tv_id v) = (if status_terminal (tv_status v) then settled_since m now v else None)"
    if "v \<in> set vs" for v
  proof -
    have "(\<exists>w \<in> set vs. tv_id w = tv_id v \<and> status_terminal (tv_status w)) \<longleftrightarrow> status_terminal (tv_status v)"
      using same [OF that] that by metis
    then show ?thesis by (simp add: S [of v])
  qed
  have "held (mc_tasks m') i \<noteq> None" if "map_of S i \<noteq> None" for i
  proof -
    define u where "u = example_view i TS_Running 0"
    have u: "tv_id u = i" by (simp add: u_def example_view_def)
    from S [of u] that u obtain w where "w \<in> set vs" "tv_id w = i" "settled_since m now u \<noteq> None"
      by (auto split: if_splits)
    then have "settled_since m now w \<noteq> None" using settled_since_id [of w u m now] u by simp
    have "held vs i = Some w" using \<open>w \<in> set vs\<close> \<open>tv_id w = i\<close> held_Some_iff [OF ids] by blast
    with \<open>settled_since m now w \<noteq> None\<close> show ?thesis by (simp add: held)
  qed
  then have "pane_ok m'"
    using settled dT by (auto simp: pane_ok_def m' T distinct_sort)
  moreover have "pane_of m' i = pane_update (Snapshot vs) now (pane_of m) i" for i
  proof (cases "held vs i")
    case None
    then have "held (mc_tasks m') i = None" by (simp add: held)
    with None show ?thesis by (simp add: pane_of_def) (simp add: held_def)
  next
    case (Some v)
    then have v: "v \<in> set vs" "tv_id v = i" using held_id by auto
    show ?thesis
      using Some settled [OF v(1)] v(2) settled_since_pane [OF ok, of v now]
      by (auto simp: pane_of_def held) (auto simp: held_def m')
  qed
  ultimately show ?thesis by blast
qed

lemma changed_pane:
  assumes ok: "pane_ok m"
    and S: "S = (if status_terminal (tv_status v)
                 then (case map_of (mc_settled_at m) (tv_id v) of
                         Some _ \<Rightarrow> mc_settled_at m | None \<Rightarrow> AList.update (tv_id v) now (mc_settled_at m))
                 else AList.delete (tv_id v) (mc_settled_at m))"
    and m': "m' = m\<lparr>mc_settled_at := S, mc_tasks := sort_key tv_submitted_unix_millis (put_task v (mc_tasks m))\<rparr>"
  shows "pane_ok m' \<and> pane_of m' = pane_update (Changed v) now (pane_of m)"
proof -
  have ids: "distinct (map tv_id (mc_tasks m))" using ok by (simp add: pane_ok_def)
  have dput: "distinct (map tv_id (put_task v (mc_tasks m)))" using distinct_put [OF ids] by blast
  have held: "held (mc_tasks m') = (held (mc_tasks m))(tv_id v \<mapsto> v)"
    by (simp add: m' held_sort [OF dput] held_put)
  have since: "map_of S i = (if i = tv_id v
      then if status_terminal (tv_status v) then Some (pane_since (pane_of m) (tv_id v) now) else None
      else map_of (mc_settled_at m) i)" for i
    using ok by (auto simp: S pane_of_def pane_since_def pane_ok_def split: option.splits)
  have "pane_ok m'"
    using ok dput since held
    by (auto simp: pane_ok_def m' distinct_sort dest!: set_put [OF ids])
  moreover have "pane_of m' i = pane_update (Changed v) now (pane_of m) i" for i
    using since [of i] held by (auto simp: pane_of_def m')
  ultimately show ?thesis by blast
qed

lemma update_refines:
  assumes "pane_ok m" and "update_ok update"
  shows "pane_ok (apply_update update now m)
    \<and> pane_of (apply_update update now m) = pane_expire now (pane_update update now (pane_of m))
    \<and> pane_ok (expire_machine now m) \<and> pane_of (expire_machine now m) = pane_expire now (pane_of m)
    \<and> sorted (map tv_submitted_unix_millis (mc_tasks (apply_update update now m)))"
proof -
  obtain m' where m': "apply_update update now m = expire_machine now m'"
    "pane_ok m' \<and> pane_of m' = pane_update update now (pane_of m)"
    "sorted (map tv_submitted_unix_millis (mc_tasks m'))"
  proof (cases update)
    case (Snapshot vs)
    obtain S T where res: "take_snapshot m now vs [] [] = (S, T)" by fastforce
    show ?thesis
      using snapshot_pane [OF assms(1) _ res refl] assms(2) Snapshot res
      by (intro that [of "m\<lparr>mc_settled_at := S, mc_tasks := sort_key tv_submitted_unix_millis T\<rparr>"])
         (auto simp: apply_update_def)
  next
    case (Changed v)
    show ?thesis
      using changed_pane [OF assms(1) refl refl, of v now] Changed
      by (intro that [of "m\<lparr>mc_settled_at := _, mc_tasks := sort_key tv_submitted_unix_millis (put_task v (mc_tasks m))\<rparr>"])
         (auto simp: apply_update_def Let_def)
  qed
  have "sorted (map tv_submitted_unix_millis (mc_tasks (expire_machine now m')))"
    using m'(3) by (simp add: expire_machine_def Let_def sorted_filter)
  with m' expire_refines [OF assms(1)] expire_refines [of m'] show ?thesis by simp
qed

text \<open>
  C15. The pane of a machine is what it should be: applying what the server says of its tasks, and
  the passing of time, are the operations of a map from each task to its view and to the moment it
  was first seen settled. A snapshot replaces the map, showing of the settled tasks only those
  already held; a change replaces one task; a settled task is forgotten five seconds after it was
  first seen so, and no other ever is.
\<close>

theorem pane_is_refined:
  assumes "pane_ok m" and "update_ok update"
  shows "pane_ok (apply_update update now m)
    \<and> pane_of (apply_update update now m) = pane_expire now (pane_update update now (pane_of m))
    \<and> pane_ok (expire_machine now m) \<and> pane_of (expire_machine now m) = pane_expire now (pane_of m)
    \<and> sorted (map tv_submitted_unix_millis (mc_tasks (apply_update update now m)))"
  by (rule update_refines [OF assms])

definition example_pane :: machine where
  "example_pane = apply_update (Snapshot [example_view ''b'' TS_Running 2, example_view ''a'' TS_Running 1]) 0
     (machine_new ''local'' None)"

lemma example_pane_tasks:
  "mc_tasks example_pane = [example_view ''a'' TS_Running 1, example_view ''b'' TS_Running 2]
   \<and> mc_settled_at example_pane = []"
  by (simp add: example_pane_def apply_update_def expire_machine_def machine_new_def example_view_def Let_def)

theorem pane_is_refined_witness:
  "\<exists>m. m = apply_update (Changed (example_view ''a'' TS_Succeeded 1)) 7 example_pane
     \<and> pane_ok m \<and> pane_of m ''a'' = Some (example_view ''a'' TS_Succeeded 1, Some 7)
     \<and> pane_of m ''b'' = Some (example_view ''b'' TS_Running 2, None)"
proof -
  have "pane_ok example_pane"
    by (simp add: pane_ok_def example_pane_tasks) (simp add: example_view_def)
  from pane_is_refined [OF this, of "Changed (example_view ''a'' TS_Succeeded 1)" 7]
  have "pane_ok (apply_update (Changed (example_view ''a'' TS_Succeeded 1)) 7 example_pane)"
    "pane_of (apply_update (Changed (example_view ''a'' TS_Succeeded 1)) 7 example_pane)
      = pane_expire 7 (pane_update (Changed (example_view ''a'' TS_Succeeded 1)) 7 (pane_of example_pane))"
    by simp_all
  moreover have "pane_of example_pane = (\<lambda>i. map_option (\<lambda>v. (v, None))
      (held [example_view ''a'' TS_Running 1, example_view ''b'' TS_Running 2] i))"
    by (simp add: pane_of_def example_pane_tasks)
  ultimately show ?thesis
    by (simp add: pane_expire_def pane_since_def SETTLED_LINGER_def) (simp add: example_view_def)
qed

end
