(* ===== verification/Watch.thy ===== *)
theory Watch
  imports TaskAnnounced TuiPane
begin

text \<open>
  \<open>src/server/attach.rs\<close> and the reading end in \<open>src/client/mod.rs\<close>: the handshake, the stream of
  events a client holds while it is attached, and the pane those events fill. The server's side
  is the runtime of \<open>TaskDriver\<close>; the broadcast channel it publishes on is a library's and
  a parameter; what the transport holds in flight is the
  part of the stream the client has not taken yet, and a send completes at a time not fixed here.
\<close>

section \<open>The handshake\<close>

definition CLIENT_PROTOCOL :: nat where "CLIENT_PROTOCOL = 3"

datatype status_code = FailedPrecondition | Unimplemented | StatusOther

record status =
  st_code :: status_code
  st_message :: bytes

record attach_response =
  ar_server_version :: bytes
  ar_client_protocol :: nat
  ar_pid :: nat

definition attach_rpc :: "bytes \<Rightarrow> nat \<Rightarrow> nat \<Rightarrow> (status, attach_response) result" where
  "attach_rpc version pid client_protocol =
     (if client_protocol \<noteq> CLIENT_PROTOCOL
      then Err \<lparr>st_code = FailedPrecondition,
                st_message = ''client protocol '' @ show_nat client_protocol
                  @ '' does not match server protocol '' @ show_nat CLIENT_PROTOCOL\<rparr>
      else Ok \<lparr>ar_server_version = version, ar_client_protocol = CLIENT_PROTOCOL, ar_pid = pid\<rparr>)"

record attached =
  at_server_version :: bytes
  at_pid :: nat
  at_started :: bool

datatype client_error =
    CE_Io bytes io_error
  | CE_Unstartable bytes
  | CE_StartTimeout bytes
  | CE_Incompatible bytes
  | CE_Handshake status
  | CE_Transport bytes

definition client_handshake :: "(nat \<Rightarrow> (status, attach_response) result) \<Rightarrow> (client_error, attached) result" where
  "client_handshake call =
     (case call CLIENT_PROTOCOL of
        Inl status \<Rightarrow>
          Err (if st_code status = FailedPrecondition then CE_Incompatible (st_message status) else CE_Handshake status)
      | Inr response \<Rightarrow>
          Ok \<lparr>at_server_version = ar_server_version response, at_pid = ar_pid response, at_started = False\<rparr>)"

section \<open>The stream\<close>

datatype server_event =
    EvHello
  | EvSnapshot "wire_task list"
  | EvChanged "wire_task option"
  | EvUnknown

fun task_of :: "task_event \<Rightarrow> task_id" where
  "task_of (Submitted info) = ti_id info"
| "task_of (StateChanged i _) = i"
| "task_of (Progressed i _) = i"

definition snapshot :: "(task_id \<Rightarrow> bytes) \<Rightarrow> runtime \<Rightarrow> server_event" where
  "snapshot show_id rt = EvSnapshot (map (task_message show_id) (tasks rt))"

text \<open>
  \<open>broadcast::Receiver::recv\<close> is the channel's: from the events sent so far and how many this
  receiver has passed, the next event, or how many it missed once the channel has overwritten
  them, or nothing yet. A parameter; what the channel documents of it is \<open>receiver_ok\<close>, and
  \<open>ring_recv\<close> is one that keeps the last \<open>ring\<close> events.
\<close>

datatype received = Rc_Ok task_event | Rc_Lagged nat

type_synonym receiver = "task_event list \<Rightarrow> nat \<Rightarrow> (received \<times> nat) option"

definition receiver_ok :: "receiver \<Rightarrow> bool" where
  "receiver_ok recv \<longleftrightarrow> (\<forall>events pos. pos \<le> length events \<longrightarrow>
     (case recv events pos of
        None \<Rightarrow> pos = length events
      | Some (Rc_Ok event, pos') \<Rightarrow> pos < length events \<and> event = events ! pos \<and> pos' = pos + 1
      | Some (Rc_Lagged missed, pos') \<Rightarrow> pos' = pos + missed \<and> pos' \<le> length events))"

definition ring_recv :: "nat \<Rightarrow> receiver" where
  "ring_recv ring events pos =
     (if length events \<le> pos then None
      else if length events - pos > ring
      then Some (Rc_Lagged (length events - ring - pos), length events - ring)
      else Some (Rc_Ok (events ! pos), pos + 1))"

lemma ring_recv_ok: "receiver_ok (ring_recv ring)"
  by (auto simp: receiver_ok_def ring_recv_def)

datatype forwarding =
    Fw_Subscribing
  | Fw_Subscribed                      \<comment> \<open>the first snapshot not yet taken\<close>
  | Fw_Sending server_event bool       \<comment> \<open>the flag: return once sent\<close>
  | Fw_Selecting
  | Fw_Received received
  | Fw_Returned

record watched =
  wa_server :: sys
  wa_closing :: bool
  wa_pos :: nat
  wa_phase :: forwarding
  wa_sent :: "server_event list"
  wa_taken :: nat
  wa_machine :: machine

text \<open>\<open>Watching::next\<close> skips what says nothing of tasks.\<close>

fun update_of :: "server_event \<Rightarrow> task_update option" where
  "update_of (EvSnapshot ts) = Some (Snapshot (map view_of_message ts))"
| "update_of (EvChanged (Some t)) = Some (Changed (view_of_message t))"
| "update_of (EvChanged None) = None"
| "update_of EvHello = None"
| "update_of EvUnknown = None"

definition take_event :: "server_event \<Rightarrow> instant \<Rightarrow> machine \<Rightarrow> machine" where
  "take_event ev now m = (case update_of ev of None \<Rightarrow> m | Some update \<Rightarrow> apply_update update now m)"

text \<open>One pass of the forwarder once it has received something: what it sends, if anything.\<close>

definition forward :: "(task_id \<Rightarrow> bytes) \<Rightarrow> runtime \<Rightarrow> received \<Rightarrow> forwarding" where
  "forward show_id rt change =
     (case change of
        Rc_Ok ev \<Rightarrow>
          (case task rt (task_of ev) of
             None \<Rightarrow> Fw_Selecting
           | Some info \<Rightarrow> Fw_Sending (EvChanged (Some (task_message show_id info))) False)
      | Rc_Lagged missed \<Rightarrow> Fw_Sending (snapshot show_id rt) False)"

inductive watch_step :: "(task_id \<Rightarrow> bytes) \<Rightarrow> receiver \<Rightarrow> watched \<Rightarrow> watched \<Rightarrow> bool"
  for show_id :: "task_id \<Rightarrow> bytes" and recv :: receiver where
  wt_server: "step (wa_server w) s' \<Longrightarrow> watch_step show_id recv w (w\<lparr>wa_server := s'\<rparr>)"
| wt_subscribe: "wa_phase w = Fw_Subscribing \<Longrightarrow>
    watch_step show_id recv w (w\<lparr>wa_pos := length (rt_events (sy_rt (wa_server w))), wa_phase := Fw_Subscribed\<rparr>)"
| wt_snapshot: "wa_phase w = Fw_Subscribed \<Longrightarrow>
    watch_step show_id recv w (w\<lparr>wa_phase := Fw_Sending (snapshot show_id (sy_rt (wa_server w))) False\<rparr>)"
| wt_sent: "wa_phase w = Fw_Sending ev final \<Longrightarrow>
    watch_step show_id recv w (w\<lparr>wa_sent := wa_sent w @ [ev], wa_phase := if final then Fw_Returned else Fw_Selecting\<rparr>)"
| wt_recv: "wa_phase w = Fw_Selecting \<Longrightarrow> recv (rt_events (sy_rt (wa_server w))) (wa_pos w) = Some (change, pos) \<Longrightarrow>
    watch_step show_id recv w (w\<lparr>wa_pos := pos, wa_phase := Fw_Received change\<rparr>)"
| wt_forward: "wa_phase w = Fw_Received change \<Longrightarrow>
    watch_step show_id recv w (w\<lparr>wa_phase := forward show_id (sy_rt (wa_server w)) change\<rparr>)"
| wt_close: "watch_step show_id recv w (w\<lparr>wa_closing := True\<rparr>)"
| wt_closing: "wa_phase w = Fw_Selecting \<Longrightarrow> wa_closing w \<Longrightarrow>
    watch_step show_id recv w (w\<lparr>wa_phase := Fw_Sending (snapshot show_id (sy_rt (wa_server w))) True\<rparr>)"
| wt_gone: "wa_phase w = Fw_Selecting \<or> (\<exists>ev final. wa_phase w = Fw_Sending ev final) \<Longrightarrow>
    watch_step show_id recv w (w\<lparr>wa_phase := Fw_Returned\<rparr>)"
| wt_take: "wa_taken w < length (wa_sent w) \<Longrightarrow>
    watch_step show_id recv w
      (w\<lparr>wa_taken := wa_taken w + 1, wa_machine := take_event (wa_sent w ! wa_taken w) now (wa_machine w)\<rparr>)"
| wt_tick: "watch_step show_id recv w (w\<lparr>wa_machine := expire_machine now (wa_machine w)\<rparr>)"

text \<open>
  A client attaches to a running server, with what it still shows of the machine from before.
\<close>

definition watch_new :: "sys \<Rightarrow> machine \<Rightarrow> watched" where
  "watch_new s m =
     \<lparr>wa_server = s, wa_closing = False, wa_pos = 0, wa_phase = Fw_Subscribing, wa_sent = [EvHello],
      wa_taken = 0, wa_machine = m\<rparr>"

inductive watching :: "config \<Rightarrow> (task_id \<Rightarrow> bytes) \<Rightarrow> receiver \<Rightarrow> watched \<Rightarrow> bool"
  for c :: config and show_id :: "task_id \<Rightarrow> bytes" and recv :: receiver where
  watching_new: "reachable c s \<Longrightarrow> pane_ok m \<Longrightarrow> watching c show_id recv (watch_new s m)"
| watching_step: "watching c show_id recv w \<Longrightarrow> watch_step show_id recv w w' \<Longrightarrow> watching c show_id recv w'"

section \<open>What the stream has said\<close>

abbreviation server_rt :: "watched \<Rightarrow> runtime" where
  "server_rt w \<equiv> sy_rt (wa_server w)"

abbreviation watched_log :: "watched \<Rightarrow> task_event list" where
  "watched_log w \<equiv> rt_events (server_rt w)"

fun hear :: "server_event \<Rightarrow> (bytes \<Rightarrow> wire_task option) \<Rightarrow> bytes \<Rightarrow> wire_task option" where
  "hear (EvSnapshot ts) K = map_of (map (\<lambda>t. (wt_id t, t)) ts)"
| "hear (EvChanged (Some t)) K = K(wt_id t \<mapsto> t)"
| "hear (EvChanged None) K = K"
| "hear EvHello K = K"
| "hear EvUnknown K = K"

definition known :: "server_event list \<Rightarrow> bytes \<Rightarrow> wire_task option" where
  "known evs = fold hear evs (\<lambda>_. None)"

lemma known_snoc [simp]: "known (evs @ [ev]) = hear ev (known evs)"
  by (simp add: known_def)

fun messages :: "server_event \<Rightarrow> wire_task list" where
  "messages (EvSnapshot ts) = ts"
| "messages (EvChanged (Some t)) = [t]"
| "messages (EvChanged None) = []"
| "messages EvHello = []"
| "messages EvUnknown = []"

lemma known_messages: "known evs i = Some t \<Longrightarrow> \<exists>ev \<in> set evs. t \<in> set (messages ev)"
proof (induction evs rule: rev_induct)
  case (snoc ev evs)
  then show ?case
    by (cases ev rule: messages.cases) (auto split: if_splits dest!: map_of_SomeD)
qed (simp add: known_def)

text \<open>Everything said and about to be said.\<close>

definition said_all :: "watched \<Rightarrow> server_event list" where
  "said_all w = wa_sent w @ (case wa_phase w of Fw_Sending ev final \<Rightarrow> [ev] | _ \<Rightarrow> [])"

end
