(* ===== verification/WatchProperties.thy ===== *)
theory WatchProperties
  imports Watch
begin

text \<open>
  What a client that watches a server may believe: everything said on the stream was so when it
  was said, never moves a task back, and once all of it has been read the pane shows what is
  going on - apart from one thing, a task the server forgot before it could be spoken of.
\<close>

section \<open>What a snapshot says\<close>

lemma message_id [simp]: "wt_id (task_message show_id info) = show_id (ti_id info)"
  by (simp add: task_message_def split: prod.split)

lemma view_id [simp]: "tv_id (view_of_message t) = wt_id t"
  by (simp add: view_of_message_def Let_def)

lemma task_id: "reachable c s \<Longrightarrow> task (sy_rt s) i = Some info \<Longrightarrow> ti_id info = i"
  using reachable_keys [of c s] by (auto simp: task_def get_task_def keys_ok_def)

lemma task_listed: "reachable c s \<Longrightarrow> info \<in> set (tasks (sy_rt s)) \<longleftrightarrow> (\<exists>i. task (sy_rt s) i = Some info)"
  using tasks_listed [of c s info] task_id [of c s _ info] by metis

lemma snapshot_distinct:
  assumes "reachable c s" "inj show_id" "snapshot show_id (sy_rt s) = EvSnapshot ts"
  shows "distinct (map wt_id ts)"
proof -
  have "map wt_id ts = map show_id (map ti_id (tasks (sy_rt s)))"
    using assms(3) by (auto simp: snapshot_def)
  with tasks_listed [OF assms(1)] assms(2) show ?thesis
    by (metis distinct_map inj_on_subset subset_UNIV)
qed

lemma snapshot_known:
  assumes reach: "reachable c s" and inj: "inj show_id"
  shows "hear (snapshot show_id (sy_rt s)) K x = Some t \<longleftrightarrow>
    (\<exists>i info. task (sy_rt s) i = Some info \<and> x = show_id i \<and> t = task_message show_id info)"
proof -
  obtain ts where ts: "snapshot show_id (sy_rt s) = EvSnapshot ts" by (simp add: snapshot_def)
  have "distinct (map fst (map (\<lambda>t. (wt_id t, t)) ts))"
    using snapshot_distinct [OF reach inj ts] by (simp add: o_def)
  then have "hear (snapshot show_id (sy_rt s)) K x = Some t \<longleftrightarrow> t \<in> set ts \<and> wt_id t = x"
    unfolding ts by (auto simp: map_of_eq_Some_iff)
  also have "\<dots> \<longleftrightarrow> (\<exists>info. info \<in> set (tasks (sy_rt s)) \<and> t = task_message show_id info \<and> x = show_id (ti_id info))"
    using ts [symmetric] by (simp add: snapshot_def image_iff) (metis message_id)
  also have "\<dots> \<longleftrightarrow> (\<exists>i info. task (sy_rt s) i = Some info \<and> x = show_id i \<and> t = task_message show_id info)"
    using task_listed [OF reach] task_id [OF reach] by metis
  finally show ?thesis .
qed

section \<open>Every message was so\<close>

definition past_message :: "(task_id \<Rightarrow> bytes) \<Rightarrow> sys \<Rightarrow> wire_task \<Rightarrow> bool" where
  "past_message show_id s t \<longleftrightarrow> (\<exists>info. t = task_message show_id info \<and> sy_drivers s (ti_id info) \<noteq> None
     \<and> (\<forall>e. get_task (sy_rt s) (ti_id info) = Some e \<longrightarrow> no_earlier (ti_state info) (et_state e)))"

definition said_past :: "(task_id \<Rightarrow> bytes) \<Rightarrow> sys \<Rightarrow> server_event \<Rightarrow> bool" where
  "said_past show_id s ev \<longleftrightarrow> (\<forall>t \<in> set (messages ev). past_message show_id s t) \<and> distinct (map wt_id (messages ev))"

lemma said_past_step:
  assumes "reachable c s" "step s s'" "said_past show_id s ev"
  shows "said_past show_id s' ev"
proof -
  have "past_message show_id s' t" if "past_message show_id s t" for t
  proof -
    from that obtain info where info: "t = task_message show_id info" "sy_drivers s (ti_id info) \<noteq> None"
      "\<And>e. get_task (sy_rt s) (ti_id info) = Some e \<Longrightarrow> no_earlier (ti_state info) (et_state e)"
      by (auto simp: past_message_def)
    have "no_earlier (ti_state info) (et_state e')" if e': "get_task (sy_rt s') (ti_id info) = Some e'" for e'
    proof -
      obtain e where e: "get_task (sy_rt s) (ti_id info) = Some e"
        using evicted_stays [OF reachable_tree_ok [OF assms(1)] assms(2) info(2) e'] by blast
      from info(3) [OF e] step_no_earlier [OF assms(1,2) e e'] show ?thesis by (rule no_earlier_trans)
    qed
    with info driver_stays [OF assms(2) info(2)] show ?thesis unfolding past_message_def by blast
  qed
  with assms(3) show ?thesis by (auto simp: said_past_def)
qed

lemma task_past:
  assumes "reachable c s" "task (sy_rt s) i = Some info"
  shows "past_message show_id s (task_message show_id info)"
proof -
  have inv: "tree_inv (get_task (sy_rt s)) (sy_drivers s)"
    using reachable_tree_ok [OF assms(1)] by (simp add: tree_ok_def)
  from assms(2) obtain e where e: "get_task (sy_rt s) i = Some e" "info = et_info e" by (auto simp: task_def)
  have "sy_drivers s i \<noteq> None" using tree_inv_new [OF inv, of i] e by auto
  with e task_id [OF assms] show ?thesis unfolding past_message_def by (intro exI [of _ info]) auto
qed

lemma snapshot_past:
  assumes "reachable c s" "inj show_id"
  shows "said_past show_id s (snapshot show_id (sy_rt s))"
proof -
  obtain ts where ts: "snapshot show_id (sy_rt s) = EvSnapshot ts" by (simp add: snapshot_def)
  have "past_message show_id s t" if "t \<in> set ts" for t
    using that ts task_listed [OF assms(1)] task_past [OF assms(1)] by (auto simp: snapshot_def)
  with snapshot_distinct [OF assms ts] show ?thesis by (simp add: said_past_def ts)
qed

text \<open>Of two messages about one task, the later shows it no earlier.\<close>

definition status_stage :: "task_status \<Rightarrow> nat" where
  "status_stage st = (case st of TS_Queued _ \<Rightarrow> 0 | TS_Running \<Rightarrow> 1 | TS_Cancelling \<Rightarrow> 2 | _ \<Rightarrow> 3)"

definition status_no_earlier :: "task_status \<Rightarrow> task_status \<Rightarrow> bool" where
  "status_no_earlier st st' \<longleftrightarrow> st' = st \<or> \<not> status_terminal st \<and> status_stage st \<le> status_stage st'"

definition message_status :: "wire_task \<Rightarrow> task_status" where
  "message_status t = tv_status (view_of_message t)"

lemma message_status [simp]: "message_status (task_message show_id info) = status_of (ti_state info)"
  by (cases "ti_state info")
     (simp_all add: message_status_def view_of_message_def task_message_def wire_state_fields_def
       status_of_def Let_def del: wire_number.simps)

lemma no_earlier_status: "no_earlier st st' \<Longrightarrow> status_no_earlier (status_of st) (status_of st')"
  by (cases st; cases st') (auto simp: no_earlier_def status_no_earlier_def status_of_def status_stage_def)

definition follows :: "server_event \<Rightarrow> server_event \<Rightarrow> bool" where
  "follows ev ev' \<longleftrightarrow> (\<forall>t \<in> set (messages ev). \<forall>t' \<in> set (messages ev').
     wt_id t = wt_id t' \<longrightarrow> status_no_earlier (message_status t) (message_status t'))"

fun in_order :: "server_event list \<Rightarrow> bool" where
  "in_order [] = True"
| "in_order (ev # evs) = ((\<forall>ev' \<in> set evs. follows ev ev') \<and> in_order evs)"

lemma in_order_snoc: "in_order (evs @ [ev]) \<longleftrightarrow> in_order evs \<and> (\<forall>ev' \<in> set evs. follows ev' ev)"
  by (induction evs) auto

lemma in_order_append: "in_order (xs @ ys) \<Longrightarrow> in_order xs"
  by (induction xs) auto

text \<open>An event said of the tasks as they are now follows everything said before.\<close>

definition said_now :: "(task_id \<Rightarrow> bytes) \<Rightarrow> runtime \<Rightarrow> server_event \<Rightarrow> bool" where
  "said_now show_id rt ev \<longleftrightarrow> (\<forall>t \<in> set (messages ev). \<exists>i info. task rt i = Some info \<and> t = task_message show_id info)"

lemma now_follows:
  assumes reach: "reachable c s" and inj: "inj show_id"
    and past: "said_past show_id s ev" and now: "said_now show_id (sy_rt s) ev'"
  shows "follows ev ev'"
  unfolding follows_def
proof (intro ballI impI)
  fix t t' assume t: "t \<in> set (messages ev)" "t' \<in> set (messages ev')" "wt_id t = wt_id t'"
  from past t(1) obtain info where info: "t = task_message show_id info"
    "\<And>e. get_task (sy_rt s) (ti_id info) = Some e \<Longrightarrow> no_earlier (ti_state info) (et_state e)"
    by (auto simp: said_past_def past_message_def)
  from now t(2) obtain i info' where info': "task (sy_rt s) i = Some info'" "t' = task_message show_id info'"
    by (auto simp: said_now_def)
  from task_id [OF reach info'(1)] t(3) inj info info' have "i = ti_id info" by (auto simp: inj_eq)
  with info(2) info'(1) have "no_earlier (ti_state info) (ti_state info')" by (auto simp: task_def)
  then show "status_no_earlier (message_status t) (message_status t')"
    by (simp add: info(1) info'(2) no_earlier_status)
qed

lemma snapshot_now: "reachable c s \<Longrightarrow> said_now show_id (sy_rt s) (snapshot show_id (sy_rt s))"
  using task_listed [of c s] by (simp add: said_now_def snapshot_def) blast

lemma changed_now: "task rt i = Some info \<Longrightarrow> said_now show_id rt (EvChanged (Some (task_message show_id info)))"
  by (auto simp: said_now_def)

lemma changed_past:
  "reachable c s \<Longrightarrow> task (sy_rt s) i = Some info \<Longrightarrow>
   said_past show_id s (EvChanged (Some (task_message show_id info)))"
  using task_past [of c s i info show_id] by (simp add: said_past_def)

lemma forward_now:
  "forward show_id rt change = Fw_Sending ev final \<Longrightarrow> final = False \<and>
     (ev = snapshot show_id rt \<or> (\<exists>i info. task rt i = Some info \<and> ev = EvChanged (Some (task_message show_id info))))"
  by (auto simp: forward_def split: received.splits option.splits)

lemma forward_cases: "forward show_id rt change = Fw_Selecting \<or> (\<exists>ev. forward show_id rt change = Fw_Sending ev False)"
  by (auto simp: forward_def split: received.splits option.splits)

definition stream_inv :: "config \<Rightarrow> (task_id \<Rightarrow> bytes) \<Rightarrow> watched \<Rightarrow> bool" where
  "stream_inv c show_id w \<longleftrightarrow> reachable c (wa_server w)
     \<and> (\<forall>ev \<in> set (said_all w). said_past show_id (wa_server w) ev) \<and> in_order (said_all w)"

lemma stream_inv_say:
  assumes inv: "stream_inv c show_id w" and inj: "inj show_id"
    and ev: "ev = snapshot show_id (server_rt w)
      \<or> (\<exists>i info. task (server_rt w) i = Some info \<and> ev = EvChanged (Some (task_message show_id info)))"
    and w': "wa_server w' = wa_server w" "said_all w' = said_all w @ [ev]"
  shows "stream_inv c show_id w'"
proof -
  have reach: "reachable c (wa_server w)" using inv by (simp add: stream_inv_def)
  have "said_past show_id (wa_server w) ev" "said_now show_id (server_rt w) ev"
    using ev snapshot_past [OF reach inj] snapshot_now [OF reach] changed_past [OF reach] changed_now by auto
  with inv now_follows [OF reach inj] show ?thesis
    by (auto simp: stream_inv_def w' in_order_snoc)
qed

lemma stream_inv_same:
  "stream_inv c show_id w \<Longrightarrow> wa_server w' = wa_server w \<Longrightarrow> said_all w' = said_all w \<Longrightarrow> stream_inv c show_id w'"
  by (simp add: stream_inv_def)

lemma watching_stream:
  assumes "watching c show_id recv w" "inj show_id"
  shows "stream_inv c show_id w"
  using assms(1)
proof induction
  case (watching_new s m)
  then show ?case by (simp add: stream_inv_def said_all_def watch_new_def said_past_def)
next
  case (watching_step w w')
  note inv = watching_step.IH
  have reach: "reachable c (wa_server w)" using inv by (simp add: stream_inv_def)
  from watching_step(2) show ?case
  proof cases
    case (wt_server s')
    with inv said_past_step [OF reach wt_server(2)] show ?thesis
      by (auto simp: stream_inv_def said_all_def intro: reachable_step)
  next
    case (wt_sent ev final)
    then show ?thesis by (intro stream_inv_same [OF inv]) (auto simp: said_all_def)
  next
    case (wt_forward change)
    from forward_cases [of show_id "server_rt w" change] show ?thesis
    proof
      assume "forward show_id (server_rt w) change = Fw_Selecting"
      with wt_forward show ?thesis by (intro stream_inv_same [OF inv]) (auto simp: said_all_def)
    next
      assume "\<exists>ev. forward show_id (server_rt w) change = Fw_Sending ev False"
      then obtain ev where ev: "forward show_id (server_rt w) change = Fw_Sending ev False" by blast
      with wt_forward forward_now [OF ev] show ?thesis
        by (intro stream_inv_say [OF inv assms(2), of ev]) (auto simp: said_all_def)
    qed
  next
    case wt_gone
    have "in_order (wa_sent w)" using inv in_order_append by (auto simp: stream_inv_def said_all_def)
    with wt_gone inv show ?thesis by (auto simp: stream_inv_def said_all_def)
  qed (auto simp: said_all_def intro: stream_inv_same [OF inv] stream_inv_say [OF inv assms(2)])
qed

section \<open>Nothing is missed\<close>

definition in_hand :: "watched \<Rightarrow> task_id \<Rightarrow> bool" where
  "in_hand w i \<longleftrightarrow> (case wa_phase w of
      Fw_Received (Rc_Ok ev) \<Rightarrow> about i ev
    | Fw_Received (Rc_Lagged missed) \<Rightarrow> True
    | _ \<Rightarrow> False)"

abbreviation message_known :: "(task_id \<Rightarrow> bytes) \<Rightarrow> watched \<Rightarrow> task_id \<Rightarrow> task_info \<times> bool \<Rightarrow> bool" where
  "message_known show_id w i u \<equiv> known (said_all w) (show_id i) = Some (task_message show_id (fst u))"

definition fully_told :: "(task_id \<Rightarrow> bytes) \<Rightarrow> watched \<Rightarrow> bool" where
  "fully_told show_id w \<longleftrightarrow> (\<forall>i v. look_task (wa_server w) i = Some v \<longrightarrow>
     (\<exists>u. message_known show_id w i u \<and> agree_task u v)
     \<or> (\<exists>ev \<in> set (drop (wa_pos w) (watched_log w)). about i ev) \<or> in_hand w i)"

lemma fully_toldD:
  "fully_told show_id w \<Longrightarrow> look_task (wa_server w) i = Some v \<Longrightarrow>
     (\<exists>u. message_known show_id w i u \<and> agree_task u v)
     \<or> (\<exists>ev \<in> set (drop (wa_pos w) (watched_log w)). about i ev) \<or> in_hand w i"
  unfolding fully_told_def by blast

abbreviation following :: "watched \<Rightarrow> bool" where
  "following w \<equiv> wa_phase w \<notin> {Fw_Subscribing, Fw_Subscribed, Fw_Returned}"

definition told_inv :: "config \<Rightarrow> (task_id \<Rightarrow> bytes) \<Rightarrow> watched \<Rightarrow> bool" where
  "told_inv c show_id w \<longleftrightarrow> reachable c (wa_server w)
     \<and> (wa_phase w \<noteq> Fw_Subscribing \<longrightarrow> wa_pos w \<le> length (watched_log w))
     \<and> (following w \<longrightarrow> fully_told show_id w \<and> (\<exists>ts. EvSnapshot ts \<in> set (said_all w)))"

lemma about_task_of: "about i ev \<longleftrightarrow> task_of ev = i"
  by (cases ev) auto

lemma look_task_info: "look_task s i = Some v \<longleftrightarrow> (\<exists>e. get_task (sy_rt s) i = Some e \<and> v = (et_info e, th_pending (et_throttle e)))"
  by (auto simp: look_task_def)

lemma told_now:
  assumes "known (said_all w) (show_id i) = Some (task_message show_id (fst v))"
  shows "\<exists>u. message_known show_id w i u \<and> agree_task u v"
  using assms by (intro exI [of _ "(fst v, False)"]) (simp add: agree_task_def)

text \<open>A snapshot just taken tells everything.\<close>

lemma told_snapshot:
  assumes inv: "told_inv c show_id w" and inj: "inj show_id" and phase: "wa_phase w \<noteq> Fw_Subscribing"
    and w': "wa_server w' = wa_server w" "wa_pos w' = wa_pos w"
      "said_all w' = evs @ [snapshot show_id (server_rt w)]"
  shows "told_inv c show_id w'"
proof -
  have reach: "reachable c (wa_server w)" using inv by (simp add: told_inv_def)
  have "\<exists>u. message_known show_id w' i u \<and> agree_task u v" if v: "look_task (wa_server w') i = Some v" for i v
  proof (rule told_now)
    from v obtain e where "get_task (server_rt w) i = Some e" "fst v = et_info e"
      by (auto simp: look_task_info w')
    then have "task (server_rt w) i = Some (fst v)" by (simp add: task_def)
    then show "known (said_all w') (show_id i) = Some (task_message show_id (fst v))"
      using snapshot_known [OF reach inj] by (auto simp: w')
  qed
  moreover have "\<exists>ts. EvSnapshot ts \<in> set (said_all w')"
    by (rule exI [of _ "map (task_message show_id) (tasks (server_rt w))"]) (simp add: w' snapshot_def)
  ultimately show ?thesis using inv phase by (auto simp: told_inv_def fully_told_def w')
qed

lemma told_changed:
  assumes inv: "told_inv c show_id w" and inj: "inj show_id"
    and phase: "wa_phase w = Fw_Received (Rc_Ok ev)" and info: "task (server_rt w) (task_of ev) = Some info"
    and w': "w' = w\<lparr>wa_phase := Fw_Sending (EvChanged (Some (task_message show_id info))) False\<rparr>"
  shows "told_inv c show_id w'"
proof -
  have reach: "reachable c (wa_server w)" and old: "fully_told show_id w"
    and snap: "\<exists>ts. EvSnapshot ts \<in> set (wa_sent w)"
    using inv phase by (auto simp: told_inv_def said_all_def)
  have id: "ti_id info = task_of ev" by (rule task_id [OF reach info])
  have said: "known (said_all w') = (known (said_all w))(show_id (task_of ev) \<mapsto> task_message show_id info)"
    by (simp add: w' said_all_def phase id del: fun_upd_apply)
  have "(\<exists>u. message_known show_id w' i u \<and> agree_task u v)
      \<or> (\<exists>ev \<in> set (drop (wa_pos w') (watched_log w')). about i ev) \<or> in_hand w' i"
    if v: "look_task (wa_server w') i = Some v" for i v
  proof (cases "i = task_of ev")
    case True
    with v info have "fst v = info" by (auto simp: look_task_info task_def w')
    with True have "known (said_all w') (show_id i) = Some (task_message show_id (fst v))" by (simp add: said)
    then show ?thesis using told_now by blast
  next
    case False
    with inj have "known (said_all w') (show_id i) = known (said_all w) (show_id i)" by (simp add: said inj_eq)
    moreover have "(\<exists>u. message_known show_id w i u \<and> agree_task u v)
        \<or> (\<exists>ev \<in> set (drop (wa_pos w) (watched_log w)). about i ev) \<or> in_hand w i"
      using fully_toldD [OF old, of i v] v by (simp add: w')
    moreover have "\<not> in_hand w i" using False phase by (simp add: in_hand_def about_task_of)
    ultimately show ?thesis by (auto simp: w')
  qed
  with inv snap phase show ?thesis by (auto simp: told_inv_def fully_told_def w' said_all_def)
qed

lemma told_forward:
  assumes inv: "told_inv c show_id w" and inj: "inj show_id" and phase: "wa_phase w = Fw_Received change"
  shows "told_inv c show_id (w\<lparr>wa_phase := forward show_id (server_rt w) change\<rparr>)"
proof (cases change)
  case (Rc_Lagged missed)
  then show ?thesis
    using phase by (intro told_snapshot [OF inv inj]) (auto simp: forward_def said_all_def)
next
  case (Rc_Ok ev)
  show ?thesis
  proof (cases "task (server_rt w) (task_of ev)")
    case (Some info)
    with Rc_Ok phase show ?thesis
      by (intro told_changed [OF inv inj, of ev info]) (auto simp: forward_def)
  next
    case None
    then have gone: "look_task (wa_server w) (task_of ev) = None" by (simp add: look_task_def task_def)
    have "fully_told show_id w" using inv phase by (simp add: told_inv_def)
    with gone have "fully_told show_id (w\<lparr>wa_phase := Fw_Selecting\<rparr>)"
      using phase Rc_Ok by (fastforce simp: fully_told_def said_all_def in_hand_def about_task_of)
    with inv phase None Rc_Ok show ?thesis by (auto simp: told_inv_def forward_def said_all_def)
  qed
qed

lemma recv_tells:
  assumes "receiver_ok recv" "recv evs pos = Some (change, pos')" "pos \<le> length evs"
  shows "pos' \<le> length evs \<and> (ev \<in> set (drop pos evs) \<longrightarrow>
    ev \<in> set (drop pos' evs) \<or> change = Rc_Ok ev \<or> (\<exists>missed. change = Rc_Lagged missed))"
proof -
  have "drop pos evs = evs ! pos # drop (Suc pos) evs" if "pos < length evs"
    using that by (simp add: Cons_nth_drop_Suc)
  moreover have "case change of
        Rc_Ok event \<Rightarrow> pos < length evs \<and> event = evs ! pos \<and> pos' = pos + 1
      | Rc_Lagged missed \<Rightarrow> pos' = pos + missed \<and> pos' \<le> length evs"
    using assms(1) [unfolded receiver_ok_def, rule_format, OF assms(3)] assms(2) by (simp split: received.splits)
  ultimately show ?thesis by (auto split: received.splits)
qed

lemma watching_told:
  assumes "watching c show_id recv w" "inj show_id" "receiver_ok recv"
  shows "told_inv c show_id w"
  using assms(1)
proof induction
  case (watching_new s m)
  then show ?case by (simp add: told_inv_def watch_new_def)
next
  case (watching_step w w')
  note inv = watching_step.IH
  have reach: "reachable c (wa_server w)" using inv by (simp add: told_inv_def)
  from watching_step(2) show ?case
  proof cases
    case (wt_server s')
    obtain new where new: "rt_events (sy_rt s') = watched_log w @ new"
      using observed.log_grows [OF reach wt_server(2)] by blast
    have "fully_told show_id w'" if "following w"
      unfolding fully_told_def
    proof (intro allI impI)
      fix i v' assume v': "look_task (wa_server w') i = Some v'"
      have pos: "wa_pos w \<le> length (watched_log w)" using inv that by (auto simp: told_inv_def)
      have before: "(\<exists>u. message_known show_id w i u \<and> agree_task u v)
          \<or> (\<exists>ev \<in> set (drop (wa_pos w) (watched_log w)). about i ev) \<or> in_hand w i"
        if "look_task (wa_server w) i = Some v" for v
        using inv that \<open>following w\<close> unfolding told_inv_def fully_told_def by blast
      from observed.still_known [OF reach wt_server(2) pos, of i "message_known show_id w i" "in_hand w i" v'] before v'
      show "(\<exists>u. message_known show_id w' i u \<and> agree_task u v')
          \<or> (\<exists>ev \<in> set (drop (wa_pos w') (watched_log w')). about i ev) \<or> in_hand w' i"
        by (simp add: wt_server said_all_def in_hand_def)
    qed
    with inv new reachable_step [OF reach wt_server(2)] show ?thesis
      by (auto simp: told_inv_def wt_server said_all_def)
  next
    case wt_snapshot
    then show ?thesis by (intro told_snapshot [OF inv assms(2)]) (auto simp: said_all_def)
  next
    case wt_closing
    then show ?thesis by (intro told_snapshot [OF inv assms(2)]) (auto simp: said_all_def)
  next
    case (wt_sent ev final)
    then have "known (said_all w') = known (said_all w)" "set (said_all w') = set (said_all w)"
      by (auto simp: said_all_def)
    with inv wt_sent show ?thesis by (auto simp: told_inv_def fully_told_def in_hand_def)
  next
    case (wt_recv change pos)
    have pos: "wa_pos w \<le> length (watched_log w)" and old: "fully_told show_id w"
      using inv wt_recv by (auto simp: told_inv_def)
    note tells = recv_tells [OF assms(3) wt_recv(3) pos]
    have "fully_told show_id w'"
      unfolding fully_told_def
    proof (intro allI impI)
      fix i v assume "look_task (wa_server w') i = Some v"
      then have "look_task (wa_server w) i = Some v" by (simp add: wt_recv(1))
      from fully_toldD [OF old this] have "(\<exists>u. message_known show_id w i u \<and> agree_task u v)
          \<or> (\<exists>ev \<in> set (drop (wa_pos w) (watched_log w)). about i ev)"
        by (auto simp: fully_told_def in_hand_def wt_recv(2))
      then show "(\<exists>u. message_known show_id w' i u \<and> agree_task u v)
          \<or> (\<exists>ev \<in> set (drop (wa_pos w') (watched_log w')). about i ev) \<or> in_hand w' i"
      proof (elim disjE bexE)
        fix ev assume "ev \<in> set (drop (wa_pos w) (watched_log w))" "about i ev"
        with tells [of ev] show ?thesis by (auto simp: wt_recv(1) in_hand_def)
      qed (simp add: wt_recv(1,2) said_all_def)
    qed
    with inv wt_recv tells show ?thesis by (auto simp: told_inv_def said_all_def)
  next
    case (wt_forward change)
    with told_forward [OF inv assms(2)] show ?thesis by simp
  qed (use inv in \<open>auto simp: told_inv_def fully_told_def in_hand_def said_all_def\<close>)
qed

end
