(* ===== verification/WatchPane.thy ===== *)
theory WatchPane
  imports WatchProperties
begin

text \<open>
  From the stream to the pane: what a client shows of a machine it watches, against the tasks of
  that machine's server.
\<close>

section \<open>The pane shows what the stream said\<close>

definition shows_known :: "(bytes \<Rightarrow> wire_task option) \<Rightarrow> machine \<Rightarrow> bool" where
  "shows_known K m \<longleftrightarrow>
     (\<forall>x v. held (mc_tasks m) x = Some v \<longrightarrow> map_option view_of_message (K x) = Some v)
   \<and> (\<forall>x t. K x = Some t \<and> \<not> status_terminal (message_status t)
        \<longrightarrow> held (mc_tasks m) x = Some (view_of_message t))"

lemma held_pane: "held (mc_tasks m) x = map_option fst (pane_of m x)"
  by (simp add: pane_of_def option.map_comp o_def option.map_ident)

lemma held_views: "held (map view_of_message ts) x = map_option view_of_message (map_of (map (\<lambda>t. (wt_id t, t)) ts) x)"
  by (induction ts) auto

lemma pane_live:
  "pane_ok m \<Longrightarrow> pane_of m x = Some (v, since) \<Longrightarrow> \<not> status_terminal (tv_status v) \<Longrightarrow> since = None"
  using pane_ok_held [of m x v] by (auto simp: pane_of_def)

lemma pane_expire_held: "pane_expire now P x = Some (v, since) \<Longrightarrow> P x = Some (v, since)"
  by (auto simp: pane_expire_def split: option.splits if_splits)

lemma pane_expire_live: "P x = Some (v, None) \<Longrightarrow> pane_expire now P x = Some (v, None)"
  by (simp add: pane_expire_def)

lemma shows_expire:
  assumes "pane_ok m" "shows_known K m"
  shows "shows_known K (expire_machine now m)"
proof -
  have pane: "pane_of (expire_machine now m) = pane_expire now (pane_of m)" using expire_refines [OF assms(1)] by blast
  have "held (mc_tasks m) x = Some v" if "held (mc_tasks (expire_machine now m)) x = Some v" for x v
    using that by (auto simp: held_pane pane dest!: pane_expire_held)
  moreover have "held (mc_tasks (expire_machine now m)) x = Some v"
    if v: "held (mc_tasks m) x = Some v" "\<not> status_terminal (tv_status v)" for x v
  proof -
    from v obtain since where "pane_of m x = Some (v, since)" by (auto simp: held_pane)
    with pane_live [OF assms(1) this v(2)] pane_expire_live show ?thesis by (simp add: held_pane pane)
  qed
  moreover have "map_option view_of_message (K x) = Some v" if "held (mc_tasks m) x = Some v" for x v
    using assms(2) that by (simp add: shows_known_def)
  moreover have "held (mc_tasks m) x = Some (view_of_message t)"
    if "K x = Some t" "\<not> status_terminal (message_status t)" for x t
    using assms(2) that by (simp add: shows_known_def)
  ultimately show ?thesis unfolding shows_known_def message_status_def by meson
qed

lemma take_shows:
  assumes ok: "pane_ok m" and ids: "distinct (map wt_id (messages ev))"
    and before: "(\<exists>ts. ev = EvSnapshot ts) \<or> shows_known K m"
  shows "shows_known (hear ev K) (take_event ev now m)"
proof (cases "update_of ev")
  case None
  with before show ?thesis by (cases ev rule: update_of.cases) (auto simp: take_event_def)
next
  case (Some update)
  have m': "take_event ev now m = apply_update update now m" using Some by (simp add: take_event_def)
  have "update_ok update" using ids Some by (cases ev rule: update_of.cases) (auto simp: o_def)
  from update_refines [OF ok this, of now]
  have pane: "pane_of (take_event ev now m) = pane_expire now (pane_update update now (pane_of m))"
    by (simp add: m')
  have held: "\<exists>since. pane_update update now (pane_of m) x = Some (v, since)"
    if "held (mc_tasks (take_event ev now m)) x = Some v" for x v
    using that by (auto simp: held_pane pane dest: pane_expire_held)
  have live: "held (mc_tasks (take_event ev now m)) x = Some v"
    if "pane_update update now (pane_of m) x = Some (v, None)" for x v
    using pane_expire_live [of "pane_update update now (pane_of m)" x v now, OF that] by (simp add: held_pane pane)
  consider ts where "ev = EvSnapshot ts" "update = Snapshot (map view_of_message ts)"
    | t where "ev = EvChanged (Some t)" "update = Changed (view_of_message t)" "shows_known K m"
    using Some before by (cases ev rule: update_of.cases) auto
  then show ?thesis
  proof cases
    case 1
    have look: "map_of (map (\<lambda>v. (tv_id v, v)) (map view_of_message ts)) x = map_option view_of_message (hear ev K x)" for x
      using held_views [of ts x] by (simp add: held_def 1)
    show ?thesis
      unfolding shows_known_def
    proof (intro conjI allI impI)
      fix x v assume "held (mc_tasks (take_event ev now m)) x = Some v"
      from held [OF this] show "map_option view_of_message (hear ev K x) = Some v"
        unfolding 1(2) pane_update.simps look by (auto split: option.splits if_splits)
    next
      fix x t assume "hear ev K x = Some t \<and> \<not> status_terminal (message_status t)"
      then show "held (mc_tasks (take_event ev now m)) x = Some (view_of_message t)"
        by (intro live) (simp only: 1(2) pane_update.simps look, simp add: message_status_def)
    qed
  next
    case 2
    show ?thesis
      unfolding shows_known_def
    proof (intro conjI allI impI)
      fix x v assume "held (mc_tasks (take_event ev now m)) x = Some v"
      from held [OF this] 2(3) show "map_option view_of_message (hear ev K x) = Some v"
        by (auto simp: 2(1,2) shows_known_def held_pane split: if_splits)
    next
      fix x t' assume t': "hear ev K x = Some t' \<and> \<not> status_terminal (message_status t')"
      show "held (mc_tasks (take_event ev now m)) x = Some (view_of_message t')"
      proof (rule live, cases "x = wt_id t")
        case False
        with t' 2 have "held (mc_tasks m) x = Some (view_of_message t')" by (auto simp: shows_known_def)
        then obtain since where "pane_of m x = Some (view_of_message t', since)" by (auto simp: held_pane)
        with pane_live [OF ok this] t' False show "pane_update update now (pane_of m) x = Some (view_of_message t', None)"
          by (simp add: 2 message_status_def)
      qed (use t' in \<open>simp add: 2 message_status_def\<close>)
    qed
  qed
qed

lemma take_pane_ok: "pane_ok m \<Longrightarrow> distinct (map wt_id (messages ev)) \<Longrightarrow> pane_ok (take_event ev now m)"
  using update_refines [of m]
  by (cases ev rule: update_of.cases) (auto simp: take_event_def o_def)

definition pane_inv :: "watched \<Rightarrow> bool" where
  "pane_inv w \<longleftrightarrow> pane_ok (wa_machine w) \<and> wa_taken w \<le> length (wa_sent w)
     \<and> ((\<exists>ts. EvSnapshot ts \<in> set (take (wa_taken w) (wa_sent w))) \<longrightarrow>
          shows_known (known (take (wa_taken w) (wa_sent w))) (wa_machine w))"

lemma watching_pane:
  assumes "watching c show_id recv w" "inj show_id"
  shows "pane_inv w"
  using assms(1)
proof induction
  case (watching_new s m)
  then show ?case by (simp add: pane_inv_def watch_new_def)
next
  case (watching_step w w')
  note inv = watching_step.IH
  have stream: "stream_inv c show_id w" by (rule watching_stream [OF watching_step(1) assms(2)])
  from watching_step(2) show ?case
  proof cases
    case (wt_sent ev final)
    with inv show ?thesis by (simp add: pane_inv_def)
  next
    case (wt_take now)
    let ?ev = "wa_sent w ! wa_taken w"
    have more: "take (Suc (wa_taken w)) (wa_sent w) = take (wa_taken w) (wa_sent w) @ [?ev]"
      using wt_take(2) by (rule take_Suc_conv_app_nth)
    have "?ev \<in> set (said_all w)" using wt_take(2) by (simp add: said_all_def)
    then have ids: "distinct (map wt_id (messages ?ev))" using stream by (auto simp: stream_inv_def said_past_def)
    have ok: "pane_ok (wa_machine w)" using inv by (simp add: pane_inv_def)
    have "shows_known (known (take (Suc (wa_taken w)) (wa_sent w))) (take_event ?ev now (wa_machine w))"
      if "\<exists>ts. EvSnapshot ts \<in> set (take (Suc (wa_taken w)) (wa_sent w))"
      unfolding more known_snoc
    proof (rule take_shows [OF ok ids])
      from that have "(\<exists>ts. ?ev = EvSnapshot ts) \<or> (\<exists>ts. EvSnapshot ts \<in> set (take (wa_taken w) (wa_sent w)))"
        by (auto simp: more eq_commute)
      with inv show "(\<exists>ts. ?ev = EvSnapshot ts) \<or> shows_known (known (take (wa_taken w) (wa_sent w))) (wa_machine w)"
        by (auto simp: pane_inv_def)
    qed
    with take_pane_ok [OF ok ids] wt_take inv show ?thesis by (auto simp: pane_inv_def)
  next
    case (wt_tick now)
    with inv expire_refines [of "wa_machine w" now] shows_expire [of "wa_machine w"] show ?thesis
      by (auto simp: pane_inv_def)
  qed (use inv in \<open>auto simp: pane_inv_def\<close>)
qed

section \<open>What a client may believe\<close>

text \<open>
  C14. A client that watches a server never sees a task go back: of two events on the stream that
  speak of one task, the later shows it in the same state or in one that can follow it, and a
  task shown settled is never shown otherwise again - although every event is composed from the
  state at the time it is sent, not from the change that prompted it.
\<close>

theorem watching_never_goes_back:
  assumes "watching c show_id recv w" and "inj show_id"
    and "a < b" and "b < length (wa_sent w)"
    and "t \<in> set (messages (wa_sent w ! a))" and "t' \<in> set (messages (wa_sent w ! b))" and "wt_id t = wt_id t'"
  shows "status_no_earlier (tv_status (view_of_message t)) (tv_status (view_of_message t'))"
proof -
  have "in_order (said_all w)" using watching_stream [OF assms(1,2)] by (simp add: stream_inv_def)
  then have order: "in_order (wa_sent w)" unfolding said_all_def by (rule in_order_append)
  have "follows (evs ! a) (evs ! b)" if "in_order evs" "a < b" "b < length evs" for evs
    using that
  proof (induction evs arbitrary: a b)
    case (Cons ev evs)
    then show ?case by (cases a; cases b) auto
  qed simp
  with order assms(3-7) show ?thesis by (auto simp: follows_def message_status_def)
qed

definition shows_task :: "(task_id \<Rightarrow> bytes) \<Rightarrow> task_view \<Rightarrow> entry \<Rightarrow> bool" where
  "shows_task show_id v e \<longleftrightarrow> v = view_of_message (task_message show_id (et_info e))
     \<or> th_pending (et_throttle e)
       \<and> (\<exists>p. v = view_of_message (task_message show_id ((et_info e)\<lparr>ti_progress := p\<rparr>)))"

lemma but_progress_eq: "but_progress info = but_progress info' \<Longrightarrow> info = info'\<lparr>ti_progress := ti_progress info\<rparr>"
  by (cases info; cases info') (auto simp: but_progress_def)

lemma agree_shows:
  assumes "agree_task u (et_info e, th_pending (et_throttle e))"
  shows "shows_task show_id (view_of_message (task_message show_id (fst u))) e"
proof (cases "fst u = et_info e")
  case False
  with assms have "th_pending (et_throttle e)" "but_progress (fst u) = but_progress (et_info e)"
    by (auto simp: agree_task_def)
  with but_progress_eq [OF this(2)] show ?thesis unfolding shows_task_def by metis
qed (simp add: shows_task_def)

lemma shows_status:
  "shows_task show_id v e \<Longrightarrow> tv_status v = status_of (et_state e)"
  using message_status [of show_id] by (auto simp: shows_task_def message_status_def)


end
