(* ===== verification/WatchRun.thy ===== *)
theory WatchRun
  imports WatchPane "HOL-Library.Code_Target_Nat"
begin

text \<open>Watching, executed: schedules of the server, the forwarder and the client.\<close>

datatype watch_action =
    WA_Server action
  | WA_Subscribe
  | WA_Snapshot
  | WA_Sent
  | WA_Recv
  | WA_Forward
  | WA_Take instant

definition watch_act :: "(task_id \<Rightarrow> bytes) \<Rightarrow> receiver \<Rightarrow> watch_action \<Rightarrow> watched \<Rightarrow> watched option" where
  "watch_act show_id recv a w =
     (case a of
        WA_Server sa \<Rightarrow> map_option (\<lambda>s'. w\<lparr>wa_server := s'\<rparr>) (act sa (wa_server w))
      | WA_Subscribe \<Rightarrow>
          (case wa_phase w of
             Fw_Subscribing \<Rightarrow> Some (w\<lparr>wa_pos := length (watched_log w), wa_phase := Fw_Subscribed\<rparr>)
           | _ \<Rightarrow> None)
      | WA_Snapshot \<Rightarrow>
          (case wa_phase w of
             Fw_Subscribed \<Rightarrow> Some (w\<lparr>wa_phase := Fw_Sending (snapshot show_id (server_rt w)) False\<rparr>)
           | _ \<Rightarrow> None)
      | WA_Sent \<Rightarrow>
          (case wa_phase w of
             Fw_Sending ev final \<Rightarrow>
               Some (w\<lparr>wa_sent := wa_sent w @ [ev], wa_phase := if final then Fw_Returned else Fw_Selecting\<rparr>)
           | _ \<Rightarrow> None)
      | WA_Recv \<Rightarrow>
          (case wa_phase w of
             Fw_Selecting \<Rightarrow>
               (case recv (watched_log w) (wa_pos w) of
                  None \<Rightarrow> None
                | Some (change, pos) \<Rightarrow> Some (w\<lparr>wa_pos := pos, wa_phase := Fw_Received change\<rparr>))
           | _ \<Rightarrow> None)
      | WA_Forward \<Rightarrow>
          (case wa_phase w of
             Fw_Received change \<Rightarrow> Some (w\<lparr>wa_phase := forward show_id (server_rt w) change\<rparr>)
           | _ \<Rightarrow> None)
      | WA_Take now \<Rightarrow>
          (if wa_taken w < length (wa_sent w)
           then Some (w\<lparr>wa_taken := wa_taken w + 1,
                        wa_machine := take_event (wa_sent w ! wa_taken w) now (wa_machine w)\<rparr>)
           else None))"

lemma watch_act_step: "watch_act show_id recv a w = Some w' \<Longrightarrow> watch_step show_id recv w w'"
proof (cases a)
  case WA_Sent
  assume "watch_act show_id recv a w = Some w'"
  with WA_Sent obtain ev final where "wa_phase w = Fw_Sending ev final"
    "w' = w\<lparr>wa_sent := wa_sent w @ [ev], wa_phase := if final then Fw_Returned else Fw_Selecting\<rparr>"
    by (auto simp: watch_act_def split: forwarding.splits)
  then show ?thesis using wt_sent by simp
next
  case (WA_Take now)
  assume "watch_act show_id recv a w = Some w'"
  with WA_Take wt_take [of w show_id recv now] show ?thesis by (auto simp: watch_act_def split: if_splits)
qed (auto simp: watch_act_def intro: watch_step.intros act_step split: forwarding.splits option.splits)

fun watch_run :: "(task_id \<Rightarrow> bytes) \<Rightarrow> receiver \<Rightarrow> watch_action list \<Rightarrow> watched \<Rightarrow> watched option" where
  "watch_run show_id recv [] w = Some w"
| "watch_run show_id recv (a # as) w =
     (case watch_act show_id recv a w of None \<Rightarrow> None | Some w' \<Rightarrow> watch_run show_id recv as w')"

lemma watch_run_watching:
  "watching c show_id recv w \<Longrightarrow> watch_run show_id recv as w = Some w' \<Longrightarrow> watching c show_id recv w'"
  by (induction "as" arbitrary: w) (auto split: option.splits dest: watch_act_step intro: watching_step)

text \<open>An example identifier: as many strokes as the number.\<close>

definition strokes :: "task_id \<Rightarrow> bytes" where
  "strokes i = replicate i CHR ''1''"

lemma inj_strokes: "inj strokes"
  by (rule injI) (metis length_replicate strokes_def)

definition watch_example :: "watch_action list \<Rightarrow> watched option" where
  "watch_example as = watch_run strokes (ring_recv 100) as (watch_new (sys_new example_config) (machine_new ''local'' None))"

lemma watch_example_watching: "watch_example as = Some w \<Longrightarrow> watching example_config strokes (ring_recv 100) w"
  unfolding watch_example_def
  by (rule watch_run_watching [OF watching_new [OF reachable_new]])
     (simp_all add: pane_ok_def machine_new_def)

text \<open>Attached to an idle server; a job starts and the client is told of it.\<close>

definition sees :: "watch_action list" where
  "sees = [WA_Recv, WA_Forward, WA_Sent, WA_Take 1]"

definition watch_one :: "watch_action list" where
  "watch_one = [WA_Subscribe, WA_Snapshot, WA_Sent, WA_Take 0, WA_Take 0]
     @ map WA_Server (Act_submit 1 (job Interactive) [] # go 1 4) @ sees @ sees"

definition at_rest :: "watched \<Rightarrow> bool" where
  "at_rest w \<longleftrightarrow> wa_phase w = Fw_Selecting \<and> ring_recv 100 (watched_log w) (wa_pos w) = None
     \<and> wa_taken w = length (wa_sent w)"

text \<open>
  The client falls behind: the job ends and two others come and go before the forwarder looks
  again, and the server, which keeps two settled roots here, has forgotten the first by then.
\<close>

definition whole_job :: "task_id \<Rightarrow> watch_action list" where
  "whole_job i = map WA_Server (Act_submit i (job Interactive) [] # go i 10)"

definition skips :: "watch_action list" where
  "skips = [WA_Recv, WA_Forward]"

definition watch_behind :: "watch_action list" where
  "watch_behind = watch_one @ map WA_Server (go 1 6) @ whole_job 2 @ whole_job 3
     @ skips @ sees @ sees @ sees @ sees @ sees @ sees"

definition watch_done :: "watch_action list" where
  "watch_done = watch_one @ map WA_Server (go 1 6) @ sees"

abbreviation stream_statuses :: "watched \<Rightarrow> nat \<Rightarrow> (bytes \<times> task_status) list" where
  "stream_statuses w k \<equiv> map (\<lambda>t. (wt_id t, tv_status (view_of_message t))) (messages (wa_sent w ! k))"

theorem watching_never_goes_back_witness:
  "\<exists>w t t'. watching example_config strokes (ring_recv 100) w
     \<and> messages (wa_sent w ! 3) = [t] \<and> messages (wa_sent w ! 4) = [t']
     \<and> tv_status (view_of_message t) = TS_Running \<and> tv_status (view_of_message t') = TS_Succeeded
     \<and> status_no_earlier (tv_status (view_of_message t)) (tv_status (view_of_message t'))"
proof -
  have "(case watch_example watch_done of None \<Rightarrow> False | Some w \<Rightarrow> length (wa_sent w) = 5
      \<and> stream_statuses w 3 = [(''1'', TS_Running)] \<and> stream_statuses w 4 = [(''1'', TS_Succeeded)])"
    by code_simp
  then obtain w where w: "watch_example watch_done = Some w" "length (wa_sent w) = 5"
    "stream_statuses w 3 = [(''1'', TS_Running)]" "stream_statuses w 4 = [(''1'', TS_Succeeded)]"
    by (auto split: option.splits)
  from w(3,4) obtain t t' where t: "messages (wa_sent w ! 3) = [t]" "messages (wa_sent w ! 4) = [t']"
    "wt_id t = ''1''" "wt_id t' = ''1''" "tv_status (view_of_message t) = TS_Running"
    "tv_status (view_of_message t') = TS_Succeeded" by (auto simp: map_eq_Cons_conv)
  have "status_no_earlier (tv_status (view_of_message t)) (tv_status (view_of_message t'))"
    by (rule watching_never_goes_back [OF watch_example_watching [OF w(1)] inj_strokes, of 3 4])
       (use w(2) t in auto)
  with watch_example_watching [OF w(1)] t show ?thesis by blast
qed


text \<open>
  C29. The exception to it happens: a client that falls behind while enough other tasks end can
  have read everything and show a task as running that the server has settled and forgotten. The
  event that would have said so found the task evicted and said nothing; no passing of time takes
  the row away.
\<close>

theorem a_forgotten_task_stays_on_screen:
  "\<exists>w v. watching example_config strokes (ring_recv 100) w \<and> at_rest w \<and> get_task (sy_rt (wa_server w)) 1 = None
     \<and> v \<in> set (mc_tasks (expire_machine now (wa_machine w))) \<and> tv_id v = strokes 1 \<and> tv_status v = TS_Running"
proof -
  have "(case watch_example watch_behind of None \<Rightarrow> False | Some w \<Rightarrow> at_rest w
      \<and> get_task (sy_rt (wa_server w)) 1 = None
      \<and> map (\<lambda>v. (tv_id v, tv_status v)) (mc_tasks (wa_machine w))
          = [(strokes 1, TS_Running), (strokes 2, TS_Succeeded), (strokes 3, TS_Succeeded)])"
    by code_simp
  then obtain w where w: "watch_example watch_behind = Some w" "at_rest w" "get_task (sy_rt (wa_server w)) 1 = None"
    and "map (\<lambda>v. (tv_id v, tv_status v)) (mc_tasks (wa_machine w))
          = [(strokes 1, TS_Running), (strokes 2, TS_Succeeded), (strokes 3, TS_Succeeded)]"
    by (auto split: option.splits)
  then obtain v vs where vs: "mc_tasks (wa_machine w) = v # vs" "tv_id v = strokes 1" "tv_status v = TS_Running"
    by (cases "mc_tasks (wa_machine w)") auto
  then have v: "v \<in> set (mc_tasks (wa_machine w))" "tv_id v = strokes 1" "tv_status v = TS_Running" by simp_all
  have "pane_ok (wa_machine w)"
    using watching_pane [OF watch_example_watching [OF w(1)] inj_strokes] by (simp add: pane_inv_def)
  with v have "map_of (mc_settled_at (wa_machine w)) (tv_id v) = None" by (auto simp: pane_ok_def)
  with v(1) have "v \<in> set (mc_tasks (expire_machine now (wa_machine w)))"
    by (simp add: expire_machine_def Let_def)
  with watch_example_watching [OF w(1)] w v show ?thesis by blast
qed

end
