(* ===== verification/StdText.thy ===== *)
theory StdText
  imports StdIo
begin

text \<open>
  What the code uses of \<open>str\<close>: trimming, searching, splitting into lines, replacing. A \<open>str\<close> is
  its UTF-8 bytes; a pattern that is whole characters matches whole characters.
\<close>

definition EM_DASH :: bytes where "EM_DASH = [CHR 0xE2, CHR 0x80, CHR 0x94]"

section \<open>White space\<close>

text \<open>The characters with the Unicode property \<open>White_Space\<close>, encoded.\<close>

definition ASCII_WHITESPACE :: "bytes list" where
  "ASCII_WHITESPACE = [[CHR 0x09], [CHR 0x0A], [CHR 0x0B], [CHR 0x0C], [CHR 0x0D], [CHR 0x20]]"

definition OTHER_WHITESPACE :: "bytes list" where
  "OTHER_WHITESPACE =
     [[CHR 0xC2, CHR 0x85], [CHR 0xC2, CHR 0xA0], [CHR 0xE1, CHR 0x9A, CHR 0x80],
      [CHR 0xE2, CHR 0x80, CHR 0x80], [CHR 0xE2, CHR 0x80, CHR 0x81], [CHR 0xE2, CHR 0x80, CHR 0x82],
      [CHR 0xE2, CHR 0x80, CHR 0x83], [CHR 0xE2, CHR 0x80, CHR 0x84], [CHR 0xE2, CHR 0x80, CHR 0x85],
      [CHR 0xE2, CHR 0x80, CHR 0x86], [CHR 0xE2, CHR 0x80, CHR 0x87], [CHR 0xE2, CHR 0x80, CHR 0x88],
      [CHR 0xE2, CHR 0x80, CHR 0x89], [CHR 0xE2, CHR 0x80, CHR 0x8A], [CHR 0xE2, CHR 0x80, CHR 0xA8],
      [CHR 0xE2, CHR 0x80, CHR 0xA9], [CHR 0xE2, CHR 0x80, CHR 0xAF], [CHR 0xE2, CHR 0x81, CHR 0x9F],
      [CHR 0xE3, CHR 0x80, CHR 0x80]]"

definition WHITESPACE :: "bytes list" where
  "WHITESPACE = ASCII_WHITESPACE @ OTHER_WHITESPACE"

lemma WHITESPACE_nonempty: "w \<in> set WHITESPACE \<Longrightarrow> w \<noteq> []"
  by (auto simp: WHITESPACE_def ASCII_WHITESPACE_def OTHER_WHITESPACE_def)

definition leading_space :: "bytes \<Rightarrow> bytes option" where
  "leading_space s = find (\<lambda>w. starts_with s w) WHITESPACE"

definition ends_with :: "bytes \<Rightarrow> bytes \<Rightarrow> bool" where
  "ends_with s p \<longleftrightarrow> starts_with (rev s) (rev p)"

definition trailing_space :: "bytes \<Rightarrow> bytes option" where
  "trailing_space s = find (\<lambda>w. ends_with s w) WHITESPACE"

lemma leading_space_nonempty: "leading_space s = Some w \<Longrightarrow> w \<noteq> [] \<and> length w \<le> length s"
  using WHITESPACE_nonempty [of w]
  by (auto simp: leading_space_def find_Some_iff starts_with_def in_set_conv_nth)
     (metis length_take min.cobounded1)

lemma trailing_space_nonempty: "trailing_space s = Some w \<Longrightarrow> w \<noteq> [] \<and> length w \<le> length s"
  using WHITESPACE_nonempty [of w]
  by (auto simp: trailing_space_def ends_with_def find_Some_iff starts_with_def in_set_conv_nth)
     (metis length_rev length_take min.cobounded1)

function trim_start :: "bytes \<Rightarrow> bytes" where
  "trim_start s = (case leading_space s of None \<Rightarrow> s | Some w \<Rightarrow> trim_start (drop (length w) s))"
  by pat_completeness auto

termination trim_start
proof (relation "measure length")
  fix s w assume "leading_space s = Some w"
  from leading_space_nonempty [OF this] have "length w > 0" "length w \<le> length s" by auto
  then show "(drop (length w) s, s) \<in> measure length" by (simp only: in_measure length_drop)
qed simp

function trim_end :: "bytes \<Rightarrow> bytes" where
  "trim_end s = (case trailing_space s of None \<Rightarrow> s | Some w \<Rightarrow> trim_end (take (length s - length w) s))"
  by pat_completeness auto

termination trim_end
proof (relation "measure length")
  fix s w assume "trailing_space s = Some w"
  from trailing_space_nonempty [OF this] have "length w > 0" "length w \<le> length s" by auto
  then show "(take (length s - length w) s, s) \<in> measure length" by (simp only: in_measure length_take)
qed simp

declare trim_start.simps [simp del] trim_end.simps [simp del]

definition trim :: "bytes \<Rightarrow> bytes" where
  "trim s = trim_end (trim_start s)"

section \<open>Searching and splitting\<close>

fun str_contains :: "bytes \<Rightarrow> bytes \<Rightarrow> bool" where
  "str_contains [] p = (p = [])"
| "str_contains (c # cs) p = (starts_with (c # cs) p \<or> str_contains cs p)"

definition strip_cr :: "bytes \<Rightarrow> bytes" where
  "strip_cr l = (if l \<noteq> [] \<and> last l = CHR 0x0D then butlast l else l)"

text \<open>\<open>str::lines\<close>: no line after a last newline, and a carriage return before one is its part.\<close>

definition str_lines :: "bytes \<Rightarrow> bytes list" where
  "str_lines s = (let runs = split_on NEWLINE s in
     map strip_cr (butlast runs) @ (if last runs = [] then [] else [last runs]))"

text \<open>\<open>str::replace\<close> of one character by a string.\<close>

definition replace_char :: "char \<Rightarrow> bytes \<Rightarrow> bytes \<Rightarrow> bytes" where
  "replace_char c by s = concat (map (\<lambda>d. if d = c then by else [d]) s)"

fun join_with :: "bytes \<Rightarrow> bytes list \<Rightarrow> bytes" where
  "join_with sep [] = []"
| "join_with sep [s] = s"
| "join_with sep (s # ss) = s @ sep @ join_with sep ss"

section \<open>ASCII\<close>

definition is_ascii_digit :: "char \<Rightarrow> bool" where
  "is_ascii_digit c \<longleftrightarrow> 0x30 \<le> byte_val c \<and> byte_val c \<le> 0x39"

definition is_ascii_lower :: "char \<Rightarrow> bool" where
  "is_ascii_lower c \<longleftrightarrow> 0x61 \<le> byte_val c \<and> byte_val c \<le> 0x7A"

definition is_ascii_upper :: "char \<Rightarrow> bool" where
  "is_ascii_upper c \<longleftrightarrow> 0x41 \<le> byte_val c \<and> byte_val c \<le> 0x5A"

definition is_ascii_alphanumeric :: "char \<Rightarrow> bool" where
  "is_ascii_alphanumeric c \<longleftrightarrow> is_ascii_digit c \<or> is_ascii_lower c \<or> is_ascii_upper c"

definition is_ascii_hexdigit :: "char \<Rightarrow> bool" where
  "is_ascii_hexdigit c \<longleftrightarrow> is_ascii_digit c \<or> 0x61 \<le> byte_val c \<and> byte_val c \<le> 0x66
     \<or> 0x41 \<le> byte_val c \<and> byte_val c \<le> 0x46"

definition to_ascii_lowercase :: "char \<Rightarrow> char" where
  "to_ascii_lowercase c = (if is_ascii_upper c then char_of (byte_val c + 0x20) else c)"

end
