(* ===== verification/Home.thy ===== *)
theory Home
  imports StdText
begin

text \<open>
  \<open>src/home.rs\<close>: where a machine's files live. Whether the build is a release and whether the
  system is Linux are arguments, as is what the environment, the files that hold the machine's
  ID and the file system answer. The shell that a client runs ahead of every remote command
  (\<open>host_dir_script\<close>) is read as the shell runs it.
\<close>

section \<open>Names\<close>

definition HOME_ENV :: bytes where "HOME_ENV = ''FILE_PEEKER_HOME''"

definition DIRECTORY_NAME :: "bool \<Rightarrow> bytes" where
  "DIRECTORY_NAME release = (if release then ''.file-peeker'' else ''.file-peeker-dev'')"

definition RUN_PREFIX :: "bool \<Rightarrow> bytes" where
  "RUN_PREFIX release = (if release then ''fpk'' else ''fpk-dev'')"

definition HOSTS :: bytes where "HOSTS = ''hosts''"
definition BY_NAME :: bytes where "BY_NAME = ''by-name''"
definition RUN :: bytes where "RUN = ''run''"
definition DIRECTORY_MODE :: nat where "DIRECTORY_MODE = 448"

definition SOCKET_PATH_MAX :: "bool \<Rightarrow> nat" where
  "SOCKET_PATH_MAX linux = (if linux then 107 else 103)"

record home_name =
  nm_by_name :: bytes
  nm_id :: bytes

record home =
  hm_dir :: bytes
  hm_run :: bytes
  hm_name :: "home_name option"

definition home_at :: "bytes \<Rightarrow> home" where
  "home_at dir = \<lparr>hm_dir = dir, hm_run = path_join dir RUN, hm_name = None\<rparr>"

definition home_resolve ::
  "bool \<Rightarrow> (bytes \<Rightarrow> bytes option) \<Rightarrow> (io_error, bytes) result \<Rightarrow> nat \<Rightarrow> (io_error, home) result" where
  "home_resolve release var machine_id uid =
     (let absolute = (\<lambda>name. case var name of Some path \<Rightarrow> if is_absolute path then Some path else None | None \<Rightarrow> None) in
      case absolute HOME_ENV of
        Some dir \<Rightarrow> Ok (home_at dir)
      | None \<Rightarrow>
          (case absolute ''HOME'' of
             None \<Rightarrow> Err (io_error_new Io_NotFound
               (''cannot find a home directory: set HOME or '' @ HOME_ENV @ '' to an absolute path''))
           | Some home \<Rightarrow>
               bind_result machine_id (\<lambda>i.
                 let root = path_join home (DIRECTORY_NAME release) in
                 Ok \<lparr>hm_dir = path_join (path_join root HOSTS) i,
                     hm_run = ''/tmp/'' @ RUN_PREFIX release @ ''-'' @ show_nat uid,
                     hm_name = Some \<lparr>nm_by_name = path_join root BY_NAME, nm_id = i\<rparr>\<rparr>)))"

definition is_overridden :: "home \<Rightarrow> bool" where
  "is_overridden self \<longleftrightarrow> hm_name self = None"

definition api_socket :: "home \<Rightarrow> bytes" where "api_socket self = path_join (hm_run self) ''api.sock''"
definition client_socket :: "home \<Rightarrow> bytes" where "client_socket self = path_join (hm_run self) ''client.sock''"
definition home_lock :: "home \<Rightarrow> bytes" where "home_lock self = path_join (hm_dir self) ''server.lock''"
definition config_file :: "home \<Rightarrow> bytes" where "config_file self = path_join (hm_dir self) ''config.toml''"
definition machines_file :: "home \<Rightarrow> bytes" where "machines_file self = path_join (hm_dir self) ''machines.toml''"
definition ssh_dir :: "home \<Rightarrow> bytes" where "ssh_dir self = path_join (hm_run self) ''ssh''"
definition home_logs :: "home \<Rightarrow> bytes" where "home_logs self = path_join (hm_dir self) ''logs''"
definition server_log :: "home \<Rightarrow> bytes" where "server_log self = path_join (home_logs self) ''server.log''"

definition check_socket_path :: "bool \<Rightarrow> bytes \<Rightarrow> (bytes, unit) result" where
  "check_socket_path linux path =
     (if length path > SOCKET_PATH_MAX linux
      then Err (''the socket '' @ path_display path @ '' is '' @ show_nat (length path)
        @ '' bytes long, and a unix socket's path can be at most '' @ show_nat (SOCKET_PATH_MAX linux))
      else Ok ())"

definition check_sockets :: "bool \<Rightarrow> home \<Rightarrow> (bytes, unit) result" where
  "check_sockets linux self =
     (let check = (\<lambda>path. map_err (\<lambda>why. why @ ''; set '' @ HOME_ENV @ '' to a shorter directory'')
                            (check_socket_path linux path))
      in bind_result (check (api_socket self)) (\<lambda>_. check (client_socket self)))"

section \<open>Private directories\<close>

record dir_metadata =
  dm_is_dir :: bool
  dm_uid :: nat
  dm_mode :: nat

fun show_oct :: "nat \<Rightarrow> bytes" where
  "show_oct n = (if n < 8 then [digit_char n] else show_oct (n div 8) @ [digit_char (n mod 8)])"

declare show_oct.simps [simp del]

text \<open>
  \<open>made\<close> is what creating the directory, and those above it, answered; \<open>metadata\<close> what its own
  metadata, a link not followed, was then.
\<close>

definition private_dir ::
  "nat \<Rightarrow> bytes \<Rightarrow> (io_error, unit) result \<Rightarrow> (io_error, dir_metadata) result \<Rightarrow> (io_error, unit) result" where
  "private_dir uid dir made metadata =
     bind_result made (\<lambda>_. bind_result metadata (\<lambda>m.
       let refuse = (\<lambda>why. Err (io_error_new Io_PermissionDenied (''refusing '' @ path_display dir @ '': '' @ why)));
           mode = dm_mode m mod 512
       in if \<not> dm_is_dir m then refuse ''it is not a directory''
          else if dm_uid m \<noteq> uid
          then refuse (''it belongs to uid '' @ show_nat (dm_uid m) @ '', not this user's '' @ show_nat uid)
          else if mode \<noteq> DIRECTORY_MODE
          then refuse (''its mode is '' @ show_oct mode @ '', not '' @ show_oct DIRECTORY_MODE
            @ ''; `chmod '' @ show_oct DIRECTORY_MODE @ ''` it if it is yours'')
          else Ok ()))"

definition home_create ::
  "nat \<Rightarrow> (bytes \<Rightarrow> (io_error, unit) result) \<Rightarrow> (bytes \<Rightarrow> (io_error, dir_metadata) result) \<Rightarrow> home
   \<Rightarrow> (io_error, unit) result" where
  "home_create uid mkdirs metadata self =
     bind_result (private_dir uid (hm_dir self) (mkdirs (hm_dir self)) (metadata (hm_dir self))) (\<lambda>_.
     bind_result (private_dir uid (hm_run self) (mkdirs (hm_run self)) (metadata (hm_run self))) (\<lambda>_.
     mkdirs (home_logs self)))"

section \<open>The machine's ID\<close>

definition normalize_machine_id :: "bytes \<Rightarrow> bytes option" where
  "normalize_machine_id raw =
     (let i = map to_ascii_lowercase (filter (\<lambda>c. c \<noteq> CHR ''-'') (trim raw)) in
      if length i = 32 \<and> list_all is_ascii_hexdigit i \<and> list_ex (\<lambda>b. b \<noteq> CHR ''0'') i then Some i else None)"

fun find_map :: "('a \<Rightarrow> 'b option) \<Rightarrow> 'a list \<Rightarrow> 'b option" where
  "find_map f [] = None"
| "find_map f (x # xs) = (case f x of Some y \<Rightarrow> Some y | None \<Rightarrow> find_map f xs)"

text \<open>On Linux: the two files, each as read or not.\<close>

definition platform_machine_id :: "bytes option list \<Rightarrow> bytes option" where
  "platform_machine_id files =
     find_map (\<lambda>file. case file of None \<Rightarrow> None | Some raw \<Rightarrow> normalize_machine_id raw) files"

definition machine_id :: "bytes option list \<Rightarrow> (io_error, bytes) result" where
  "machine_id files =
     (case platform_machine_id files of
        Some i \<Rightarrow> Ok i
      | None \<Rightarrow> Err (io_error_new Io_NotFound
          ''cannot read this machine's ID from /etc/machine-id or /var/lib/dbus/machine-id''))"

text \<open>The script's \<open>fpk_id\<close>: \<open>tr -d ' \t\n-' | tr 'A-F' 'a-f'\<close>, then the three tests.\<close>

definition sh_lower :: "char \<Rightarrow> char" where
  "sh_lower c = (if 0x41 \<le> byte_val c \<and> byte_val c \<le> 0x46 then char_of (byte_val c + 0x20) else c)"

definition sh_hex :: "char \<Rightarrow> bool" where
  "sh_hex c \<longleftrightarrow> is_ascii_digit c \<or> 0x61 \<le> byte_val c \<and> byte_val c \<le> 0x66"

definition sh_fpk_id :: "bytes \<Rightarrow> bytes option" where
  "sh_fpk_id arg =
     (let i = map sh_lower (filter (\<lambda>c. c \<notin> {CHR '' '', CHR 0x09, NEWLINE, CHR ''-''}) arg) in
      if list_ex (\<lambda>c. \<not> sh_hex c) i then None
      else if \<not> list_ex (\<lambda>c. c \<noteq> CHR ''0'') i then None
      else if length i = 32 then Some i else None)"

definition host_dir_script :: "bool \<Rightarrow> (bytes \<Rightarrow> bytes option) \<Rightarrow> bytes option list \<Rightarrow> bytes option" where
  "host_dir_script release var files =
     (let text = (\<lambda>name. case var name of Some v \<Rightarrow> v | None \<Rightarrow> []) in
      if text HOME_ENV \<noteq> [] then Some (text HOME_ENV)
      else (case find_map (\<lambda>file. case file of None \<Rightarrow> None | Some raw \<Rightarrow> sh_fpk_id raw) files of
              None \<Rightarrow> None
            | Some i \<Rightarrow> Some (text ''HOME'' @ ''/'' @ DIRECTORY_NAME release @ ''/'' @ HOSTS @ ''/'' @ i)))"

section \<open>The machine's name\<close>

datatype naming_step = NmReadDir | NmEntry bytes | NmRemove bytes | NmSymlink | NmRename

text \<open>A name under \<open>by-name/\<close> and where it links to, unless it is not a link.\<close>

type_synonym by_name = "(bytes \<times> bytes option) list"

fun remove_stale ::
  "(naming_step \<Rightarrow> io_error option) \<Rightarrow> bytes \<Rightarrow> bytes \<Rightarrow> by_name \<Rightarrow> by_name \<Rightarrow> (io_error, unit) result \<times> by_name" where
  "remove_stale fails hostname target [] dir = (Ok (), dir)"
| "remove_stale fails hostname target ((name, link) # entries) dir =
     (case fails (NmEntry name) of
        Some error \<Rightarrow> (Err error, dir)
      | None \<Rightarrow>
          if name \<noteq> hostname \<and> map_option components link = Some (components target)
          then (case fails (NmRemove name) of
                  Some error \<Rightarrow> (Err error, dir)
                | None \<Rightarrow> remove_stale fails hostname target entries (AList.delete name dir))
          else remove_stale fails hostname target entries dir)"

definition machine_target :: "bytes \<Rightarrow> bytes" where
  "machine_target i = path_join (path_join ''..'' HOSTS) i"

definition temporary_name :: "bytes \<Rightarrow> nat \<Rightarrow> bytes" where
  "temporary_name hostname pid = ''.'' @ hostname @ ''.'' @ show_nat pid @ ''.tmp''"

definition nameable :: "bytes \<Rightarrow> bool" where
  "nameable hostname \<longleftrightarrow> hostname \<noteq> [] \<and> hd hostname \<noteq> DOT \<and> SLASH \<notin> set hostname"

definition name_as ::
  "home \<Rightarrow> bytes \<Rightarrow> nat \<Rightarrow> (io_error, unit) result \<Rightarrow> (naming_step \<Rightarrow> io_error option) \<Rightarrow> by_name
   \<Rightarrow> (io_error, unit) result \<times> by_name" where
  "name_as self hostname pid private fails dir =
     (case hm_name self of
        None \<Rightarrow> (Ok (), dir)
      | Some name \<Rightarrow>
          if \<not> nameable hostname then (Ok (), dir)
          else (case private of
                  Inl error \<Rightarrow> (Err error, dir)
                | Inr _ \<Rightarrow>
                    (let target = machine_target (nm_id name);
                         temporary = temporary_name hostname pid in
                     case (case fails NmReadDir of
                             Some error \<Rightarrow> (Err error, dir)
                           | None \<Rightarrow> remove_stale fails hostname target dir dir) of
                       (Inl error, dir1) \<Rightarrow> (Err error, dir1)
                     | (Inr _, dir1) \<Rightarrow>
                         (let dir2 = if fails (NmRemove temporary) = None then AList.delete temporary dir1 else dir1 in
                          case fails NmSymlink of
                            Some error \<Rightarrow> (Err error, dir2)
                          | None \<Rightarrow>
                              (case fails NmRename of
                                 Some error \<Rightarrow> (Err error, AList.update temporary (Some target) dir2)
                               | None \<Rightarrow> (Ok (), AList.update hostname (Some target) dir2))))))"

section \<open>The shell and the program agree\<close>

lemma byte_val_char_of [simp]: "byte_val (char_of n) = n mod 256"
  by simp

lemma starts_with_simps [simp]:
  "starts_with s []" "\<not> starts_with [] (d # ds)" "starts_with (c # cs) (d # ds) \<longleftrightarrow> c = d \<and> starts_with cs ds"
  by (simp_all add: starts_with_def)

lemma find_append: "find P (xs @ ys) = (case find P xs of Some x \<Rightarrow> Some x | None \<Rightarrow> find P ys)"
  by (induction xs) auto

lemma leading_space_blank: "c \<in> {CHR '' '', CHR 0x09, NEWLINE} \<Longrightarrow> leading_space (c # cs) = Some [c]"
proof -
  assume "c \<in> {CHR '' '', CHR 0x09, NEWLINE}"
  then have "find (\<lambda>w. starts_with (c # cs) w) ASCII_WHITESPACE = Some [c]" by (auto simp: ASCII_WHITESPACE_def)
  then show ?thesis by (simp add: leading_space_def WHITESPACE_def find_append)
qed

definition is_ascii_graphic :: "char \<Rightarrow> bool" where
  "is_ascii_graphic c \<longleftrightarrow> 0x21 \<le> byte_val c \<and> byte_val c \<le> 0x7E"

lemma WHITESPACE_ends: "w \<in> set WHITESPACE \<Longrightarrow> \<not> is_ascii_graphic (hd w) \<and> \<not> is_ascii_graphic (last w)"
  by (auto simp: WHITESPACE_def ASCII_WHITESPACE_def OTHER_WHITESPACE_def is_ascii_graphic_def)

lemma starts_with_hd: "starts_with (c # cs) w \<Longrightarrow> w \<noteq> [] \<Longrightarrow> hd w = c"
  by (cases w) (auto simp: starts_with_def)

lemma leading_space_graphic: "is_ascii_graphic c \<Longrightarrow> leading_space (c # cs) = None"
  using WHITESPACE_ends WHITESPACE_nonempty starts_with_hd
  by (fastforce simp: leading_space_def find_None_iff)

lemma trailing_space_blank: "c \<in> {CHR '' '', CHR 0x09, NEWLINE} \<Longrightarrow> trailing_space (cs @ [c]) = Some [c]"
proof -
  assume "c \<in> {CHR '' '', CHR 0x09, NEWLINE}"
  then have "find (\<lambda>w. ends_with (cs @ [c]) w) ASCII_WHITESPACE = Some [c]"
    by (auto simp: ASCII_WHITESPACE_def ends_with_def)
  then show ?thesis by (simp add: trailing_space_def WHITESPACE_def find_append)
qed

lemma trailing_space_graphic: "is_ascii_graphic c \<Longrightarrow> trailing_space (cs @ [c]) = None"
proof -
  assume c: "is_ascii_graphic c"
  have "last w = c" if "w \<in> set WHITESPACE" "ends_with (cs @ [c]) w" for w
    using starts_with_hd [of c "rev cs" "rev w"] that WHITESPACE_nonempty [OF that(1)]
    by (simp add: ends_with_def hd_rev)
  with c WHITESPACE_ends show ?thesis by (fastforce simp: trailing_space_def find_None_iff)
qed

abbreviation blank :: "char \<Rightarrow> bool" where
  "blank c \<equiv> c \<in> {CHR '' '', CHR 0x09, NEWLINE}"

lemma trim_start_blank: "list_all blank a \<Longrightarrow> trim_start (a @ s) = trim_start s"
proof (induction a)
  case (Cons c a)
  then have "trim_start ((c # a) @ s) = trim_start (a @ s)"
    by (subst trim_start.simps) (simp add: leading_space_blank)
  with Cons show ?case by simp
qed simp

lemma trim_end_blank: "list_all blank b \<Longrightarrow> trim_end (s @ b) = trim_end s"
proof (induction b rule: rev_induct)
  case (snoc c b)
  then have "trailing_space ((s @ b) @ [c]) = Some [c]" by (intro trailing_space_blank) simp
  then have "trim_end ((s @ b) @ [c]) = trim_end (s @ b)" by (subst trim_end.simps) simp
  with snoc show ?case by simp
qed simp

lemma starts_with_Nil: "starts_with [] w \<longleftrightarrow> w = []"
  by (cases w) auto

lemma trim_nil: "trim_start [] = []" "trim_end [] = []"
proof -
  have "leading_space [] = None" "trailing_space [] = None"
    using WHITESPACE_nonempty
    by (auto simp: leading_space_def trailing_space_def find_None_iff ends_with_def starts_with_Nil)
  then show "trim_start [] = []" "trim_end [] = []"
    by (simp_all add: trim_start.simps [of "[]"] trim_end.simps [of "[]"])
qed

lemma trim_graphic:
  assumes "list_all blank a" "list_all blank b" "list_all is_ascii_graphic body"
  shows "trim (a @ body @ b) = body"
proof (cases "body = []")
  case True
  have "trim_start (a @ b) = []"
    using trim_start_blank [of "a @ b" "[]"] assms trim_nil by simp
  then show ?thesis using True trim_nil by (simp add: trim_def)
next
  case False
  then obtain c cs where body: "body = c # cs" by (cases body) auto
  have "trim_start (a @ body @ b) = body @ b"
    using trim_start_blank [OF assms(1)] assms(3) leading_space_graphic [of c]
    by (simp add: body trim_start.simps [of "c # cs @ b"])
  moreover have "trim_end (body @ b) = body"
  proof -
    from False obtain ds d where "body = ds @ [d]" by (cases body rule: rev_cases) auto
    moreover have "trim_end (body @ b) = trim_end body" by (rule trim_end_blank [OF assms(2)])
    ultimately show ?thesis using assms(3) trailing_space_graphic [of d ds]
      by (simp add: trim_end.simps [of "ds @ [d]"])
  qed
  ultimately show ?thesis by (simp add: trim_def)
qed

lemma hex_chars:
  "is_ascii_hexdigit (to_ascii_lowercase c) \<longleftrightarrow> sh_hex (sh_lower c)"
  "sh_hex (sh_lower c) \<Longrightarrow> to_ascii_lowercase c = sh_lower c"
  using byte_val_less [of c]
  by (auto simp: to_ascii_lowercase_def sh_lower_def is_ascii_hexdigit_def sh_hex_def is_ascii_digit_def
      is_ascii_upper_def)

text \<open>What a file with a machine's ID holds, as both read it: an ID with blanks around it.\<close>

definition plain_id_file :: "bytes \<Rightarrow> bool" where
  "plain_id_file raw \<longleftrightarrow> (\<exists>a body b. raw = a @ body @ b \<and> list_all blank a \<and> list_all blank b
     \<and> list_all is_ascii_graphic body)"

lemma id_agrees:
  assumes "plain_id_file raw"
  shows "normalize_machine_id raw = sh_fpk_id raw"
proof -
  from assms obtain a body b where raw: "raw = a @ body @ b" "list_all blank a" "list_all blank b"
    "list_all is_ascii_graphic body" by (auto simp: plain_id_file_def)
  let ?x = "filter (\<lambda>c. c \<noteq> CHR ''-'') body"
  have graphic: "is_ascii_graphic c \<Longrightarrow> \<not> blank c" for c by (auto simp: is_ascii_graphic_def)
  have "filter (\<lambda>c. c \<notin> {CHR '' '', CHR 0x09, NEWLINE, CHR ''-''}) body = ?x"
    using raw(4) graphic by (intro filter_cong) (auto simp: list_all_iff)
  moreover have "filter (\<lambda>c. c \<notin> {CHR '' '', CHR 0x09, NEWLINE, CHR ''-''}) x = []" if "list_all blank x" for x
    using that by (auto simp: list_all_iff filter_empty_conv)
  ultimately have sh: "filter (\<lambda>c. c \<notin> {CHR '' '', CHR 0x09, NEWLINE, CHR ''-''}) raw = ?x"
    using raw by simp
  have same: "list_all is_ascii_hexdigit (map to_ascii_lowercase ?x) \<longleftrightarrow> \<not> list_ex (\<lambda>c. \<not> sh_hex c) (map sh_lower ?x)"
    by (auto simp: list_all_iff list_ex_iff hex_chars(1))
  have "map to_ascii_lowercase ?x = map sh_lower ?x" if "\<not> list_ex (\<lambda>c. \<not> sh_hex c) (map sh_lower ?x)"
    using that hex_chars(2) by (auto simp: list_ex_iff)
  with same show ?thesis
    unfolding normalize_machine_id_def sh_fpk_id_def Let_def sh
    unfolding raw(1) trim_graphic [OF raw(2,3,4)]
    by (auto simp del: map_eq_conv)
qed

lemma split_on_append: "split_on m (a @ m # b) = split_on m a @ split_on m b"
  by (induction a) (auto split: list.splits)

lemma components_append:
  assumes "is_absolute a"
  shows "components (a @ SLASH # b) = components a @ concat (map segment (split_on SLASH b))"
  using assms by (cases a) (auto simp: components_def split_on_append)

lemma components_slash: "is_absolute a \<Longrightarrow> components (a @ [SLASH]) = components a"
  using components_append [of a "[]"] by (simp add: segment_def)

lemma components_join:
  assumes a: "is_absolute a" and b: "\<not> is_absolute b"
  shows "components (path_join a b) = components a @ concat (map segment (split_on SLASH b))"
proof (cases "last a = SLASH")
  case True
  from a have "a \<noteq> []" by auto
  show ?thesis
  proof (cases "butlast a = []")
    case True
    with \<open>a \<noteq> []\<close> a have "a = [SLASH]" by (cases a) (auto split: if_splits)
    with b show ?thesis by (simp add: path_join_def components_def segment_def)
  next
    case False
    have split: "a = butlast a @ [SLASH]" using True \<open>a \<noteq> []\<close> by (metis append_butlast_last_id)
    have abs: "is_absolute (butlast a)" using a False by (cases a) (auto split: if_splits)
    have "path_join a b = butlast a @ SLASH # b"
      using split b True \<open>a \<noteq> []\<close> unfolding path_join_def by (metis append.assoc append_Cons append_Nil)
    moreover have "components (butlast a) = components a" using components_slash [OF abs] split by simp
    ultimately show ?thesis by (simp add: components_append [OF abs])
  qed
next
  case False
  with a b have "path_join a b = a @ SLASH # b" by (auto simp: path_join_def)
  then show ?thesis by (simp add: components_append [OF a])
qed

lemma find_map_cong:
  "(\<And>x. x \<in> set xs \<Longrightarrow> f x = g x) \<Longrightarrow> find_map f xs = find_map g xs"
  by (induction xs) (auto split: option.splits)

lemma find_map_Some: "find_map f xs = Some y \<Longrightarrow> \<exists>x \<in> set xs. f x = Some y"
  by (induction xs) (auto split: option.splits)

lemma normalized_id:
  assumes "normalize_machine_id raw = Some i"
  shows "length i = 32 \<and> SLASH \<notin> set i \<and> \<not> is_absolute i"
proof -
  have i: "length i = 32" "list_all is_ascii_hexdigit i"
    using assms by (auto simp: normalize_machine_id_def Let_def split: if_splits)
  have "\<not> is_ascii_hexdigit SLASH" by (simp add: is_ascii_hexdigit_def is_ascii_digit_def)
  with i(2) have "SLASH \<notin> set i" by (auto simp: list_all_iff)
  with i(1) show ?thesis by (cases i) auto
qed


definition example_id :: bytes where
  "example_id = ''0123456789abcdef0123456789abcdef''"

lemma example_id_plain: "plain_id_file (example_id @ [NEWLINE])"
  unfolding plain_id_file_def
  by (intro exI [of _ "[]"] exI [of _ example_id] exI [of _ "[NEWLINE]"])
     (simp add: example_id_def is_ascii_graphic_def)

definition example_var :: "bytes \<Rightarrow> bytes option" where
  "example_var name = (if name = ''HOME'' then Some ''/home/me/'' else None)"


text \<open>
  Outside that the two part ways: with a carriage return before the line's end the program
  reads an ID and the shell none; and with a relative \<open>FILE_PEEKER_HOME\<close> the shell goes where the
  program does not.
\<close>

theorem shell_and_program_can_differ:
  "normalize_machine_id (example_id @ [CHR 0x0D, NEWLINE]) = Some example_id
   \<and> sh_fpk_id (example_id @ [CHR 0x0D, NEWLINE]) = None
   \<and> (\<exists>var h. home_resolve True var (Ok example_id) 1000 = Ok h
        \<and> host_dir_script True var [Some example_id] = Some ''here'' \<and> hm_dir h \<noteq> ''here'')"
proof (intro conjI)
  have "trim (example_id @ [CHR 0x0D, NEWLINE]) = example_id"
  proof -
    have "trim_start (example_id @ [CHR 0x0D, NEWLINE]) = example_id @ [CHR 0x0D, NEWLINE]"
      using leading_space_graphic [of "CHR ''0''"]
      by (simp add: example_id_def is_ascii_graphic_def trim_start.simps [of "CHR ''0'' # _"])
    moreover have "trim_end ((example_id @ [CHR 0x0D]) @ [NEWLINE]) = trim_end (example_id @ [CHR 0x0D])"
      by (rule trim_end_blank) simp
    moreover have "trailing_space (example_id @ [CHR 0x0D]) = Some [CHR 0x0D]"
      by (simp add: trailing_space_def WHITESPACE_def find_append ASCII_WHITESPACE_def ends_with_def)
    then have "trim_end (example_id @ [CHR 0x0D]) = trim_end example_id" by (subst trim_end.simps) simp
    moreover have "trim_end example_id = example_id"
      using trailing_space_graphic [of "CHR ''f''" "butlast example_id"]
      by (simp add: example_id_def is_ascii_graphic_def trim_end.simps [of "CHR ''0'' # _"])
    ultimately show ?thesis by (simp add: trim_def)
  qed
  then show "normalize_machine_id (example_id @ [CHR 0x0D, NEWLINE]) = Some example_id"
    by (simp add: normalize_machine_id_def)
       (simp add: example_id_def to_ascii_lowercase_def is_ascii_upper_def is_ascii_hexdigit_def is_ascii_digit_def)
  show "sh_fpk_id (example_id @ [CHR 0x0D, NEWLINE]) = None"
    by (simp add: sh_fpk_id_def example_id_def sh_lower_def sh_hex_def is_ascii_digit_def)
  show "\<exists>var h. home_resolve True var (Ok example_id) 1000 = Ok h
        \<and> host_dir_script True var [Some example_id] = Some ''here'' \<and> hm_dir h \<noteq> ''here''"
    by (intro exI [of _ "\<lambda>name. if name = HOME_ENV then Some ''here'' else Some ''/h''"])
       (simp add: home_resolve_def host_dir_script_def HOME_ENV_def Let_def path_join_def DIRECTORY_NAME_def
         HOSTS_def example_id_def)
qed

section \<open>Sockets\<close>

lemma length_show_nat: "n < 10 ^ Suc k \<Longrightarrow> length (show_nat n) \<le> Suc k"
proof (induction k arbitrary: n)
  case 0
  then show ?case by (subst show_nat.simps) simp
next
  case (Suc k)
  show ?case
  proof (cases "n < 10")
    case False
    have "n div 10 < 10 ^ Suc k" using Suc.prems by (simp add: less_mult_imp_div_less)
    from Suc.IH [OF this] False show ?thesis by (subst show_nat.simps) simp
  qed (subst show_nat.simps, simp)
qed

text \<open>
  A resolved home's sockets always fit: wherever \<open>HOME\<close> is, for every user and every build,
  the two sockets and the longest control socket SSH makes beside them are short enough to bind,
  on Linux and elsewhere. Only \<open>FILE_PEEKER_HOME\<close> can put them out of reach.
\<close>

theorem resolved_sockets_fit:
  assumes "home_resolve release var i uid = Ok h" and "\<not> is_overridden h" and "uid < 2 ^ 32"
  shows "check_sockets linux h = Ok () \<and> length (ssh_dir h) + 58 \<le> SOCKET_PATH_MAX linux"
proof -
  have run: "hm_run h = ''/tmp/'' @ RUN_PREFIX release @ ''-'' @ show_nat uid"
    using assms(1,2)
    by (auto simp: home_resolve_def is_overridden_def home_at_def Let_def bind_result_Inr split: option.splits if_splits)
  have "uid < 10 ^ Suc 9" using assms(3) by simp
  from length_show_nat [OF this] have "length (hm_run h) \<le> 23" by (simp add: run RUN_PREFIX_def)
  moreover have "length (path_join (hm_run h) x) \<le> length (hm_run h) + 1 + length x" for x by (simp add: path_join_def)
  note this [of "''api.sock''"] this [of "''client.sock''"] this [of "''ssh''"]
  ultimately have "length (api_socket h) \<le> 32" "length (client_socket h) \<le> 35" "length (ssh_dir h) \<le> 27"
    by (simp_all add: api_socket_def client_socket_def ssh_dir_def)
  then show ?thesis
    by (simp add: check_sockets_def check_socket_path_def SOCKET_PATH_MAX_def Let_def)
qed

theorem resolved_sockets_fit_witness:
  "\<exists>h. home_resolve False example_var (Ok example_id) 4294967295 = Ok h \<and> check_sockets False h = Ok ()"
proof -
  have "\<exists>h. home_resolve False example_var (Ok example_id) 4294967295 = Ok h \<and> \<not> is_overridden h"
    by (simp add: home_resolve_def example_var_def HOME_ENV_def is_overridden_def Let_def)
  with resolved_sockets_fit [of False example_var "Ok example_id" 4294967295] show ?thesis by auto
qed

text \<open>
  A directory that is not this user's alone is never used: \<open>private_dir\<close> succeeds exactly when
  the directory could be made and is one, not a link, this user's and closed to all others; every
  other directory is refused as a matter of permission, and an error of the system passed on.
\<close>

theorem private_dir_is_private:
  "case private_dir uid dir made metadata of
      Inr _ \<Rightarrow> made = Ok () \<and> (\<exists>m. metadata = Ok m \<and> dm_is_dir m \<and> dm_uid m = uid \<and> dm_mode m mod 512 = DIRECTORY_MODE)
    | Inl error \<Rightarrow> made = Err error \<or> made = Ok () \<and> metadata = Err error
        \<or> io_kind error = Io_PermissionDenied \<and> made = Ok () \<and> (\<exists>m. metadata = Ok m
            \<and> \<not> (dm_is_dir m \<and> dm_uid m = uid \<and> dm_mode m mod 512 = DIRECTORY_MODE))"
  by (cases made; cases metadata) (auto simp: private_dir_def Let_def)

section \<open>The names of machines\<close>

definition stale :: "bytes \<Rightarrow> bytes \<Rightarrow> bytes \<Rightarrow> bytes option \<Rightarrow> bool" where
  "stale hostname target name link \<longleftrightarrow> name \<noteq> hostname \<and> map_option components link = Some (components target)"

lemma remove_stale_keeps:
  "remove_stale fails hostname target entries dir = (r, dir') \<Longrightarrow>
   (\<And>n l. (n, l) \<in> set entries \<Longrightarrow> map_of dir n = None \<or> map_of dir n = Some l) \<Longrightarrow>
   map_of dir' n = map_of dir n \<or> map_of dir' n = None \<and> (\<exists>l. map_of dir n = Some l \<and> stale hostname target n l)"
proof (induction fails hostname target entries dir rule: remove_stale.induct)
  case (2 fails hostname target name link entries dir)
  show ?case
  proof (cases "stale hostname target name link \<and> fails (NmRemove name) = None \<and> fails (NmEntry name) = None")
    case True
    then have rest: "remove_stale fails hostname target entries (AList.delete name dir) = (r, dir')"
      using 2(3) by (auto simp: stale_def)
    have "map_of (AList.delete name dir) n = None \<or> map_of (AList.delete name dir) n = Some l"
      if "(n, l) \<in> set entries" for n l using 2(4) [of n l] that by auto
    with True 2(1) [OF _ _ _ rest] have "map_of dir' n = map_of (AList.delete name dir) n
        \<or> map_of dir' n = None \<and> (\<exists>l. map_of (AList.delete name dir) n = Some l \<and> stale hostname target n l)"
      by (auto simp: stale_def)
    with True 2(4) [of name link] show ?thesis by (auto split: if_splits)
  next
    case False
    with 2(2) [OF _ _ _ 2(4)] 2(3) show ?thesis by (auto simp: stale_def split: option.splits if_splits)
  qed
qed simp

lemma remove_stale_removes:
  "remove_stale fails hostname target entries dir = (Ok (), dir') \<Longrightarrow>
   (\<And>n l. (n, l) \<in> set entries \<Longrightarrow> map_of dir n = None \<or> map_of dir n = Some l) \<Longrightarrow>
   (n, l) \<in> set entries \<Longrightarrow> stale hostname target n l \<Longrightarrow> map_of dir' n = None"
proof (induction fails hostname target entries dir rule: remove_stale.induct)
  case (2 fails hostname target name link entries dir)
  show ?case
  proof (cases "stale hostname target name link")
    case True
    then have rest: "remove_stale fails hostname target entries (AList.delete name dir) = (Ok (), dir')"
      and entry: "fails (NmEntry name) = None"
      using 2(3) by (auto simp: stale_def split: option.splits)
    have known: "map_of (AList.delete name dir) n = None \<or> map_of (AList.delete name dir) n = Some l"
      if "(n, l) \<in> set entries" for n l using 2(4) [of n l] that by auto
    show ?thesis
    proof (cases "(n, l) = (name, link)")
      case here: True
      with remove_stale_keeps [OF rest known, of n] show ?thesis by auto
    next
      case False
      with 2(1) [OF entry _ _ rest known] True 2(3,5,6) show ?thesis
        by (auto simp: stale_def split: option.splits)
    qed
  next
    case False
    then have not: "\<not> (name \<noteq> hostname \<and> map_option components link = Some (components target))"
      by (simp add: stale_def)
    from 2(3) have entry: "fails (NmEntry name) = None" by (auto split: option.splits)
    with not 2(3) have rest: "remove_stale fails hostname target entries dir = (Ok (), dir')"
      by (simp only: remove_stale.simps option.simps if_False)
    have "(n, l) \<in> set entries" using 2(5,6) False by auto
    with 2(2) [OF entry not rest] 2(4,6) show ?thesis by auto
  qed
qed simp


definition example_home :: home where
  "example_home = \<lparr>hm_dir = ''/h/hosts/1'', hm_run = ''/tmp/fpk-1'',
     hm_name = Some \<lparr>nm_by_name = ''/h/by-name'', nm_id = ''1''\<rparr>\<rparr>"


end
