(* ===== verification/Ssh.thy ===== *)
theory Ssh
  imports Home
begin

text \<open>
  \<open>src/client/ssh.rs\<close> and \<open>src/config.rs\<close>: the \<open>ssh\<close> command that reaches a machine, and the
  client's settings that shape it. The TOML reader is a parameter; the shell that reads what is
  quoted is a model of POSIX \<open>sh\<close>'s splitting of a command into words.
\<close>

section \<open>Settings\<close>

record remote_config =
  rc_manage_ssh_config :: bool

record ui_config =
  uc_mouse_capture :: bool

record client_config =
  cc_remote :: remote_config
  cc_ui :: ui_config

definition client_config_default :: client_config where
  "client_config_default = \<lparr>cc_remote = \<lparr>rc_manage_ssh_config = True\<rparr>, cc_ui = \<lparr>uc_mouse_capture = True\<rparr>\<rparr>"

definition config_load ::
  "(bytes \<Rightarrow> (bytes, client_config) result) \<Rightarrow> (bytes \<Rightarrow> (io_error, bytes) result) \<Rightarrow> home
   \<Rightarrow> (bytes, client_config) result" where
  "config_load from_toml read_to_string home =
     (let path = config_file home in
      case read_to_string path of
        Inr text \<Rightarrow> map_err (\<lambda>error. path_display path @ '' is not valid: '' @ error) (from_toml text)
      | Inl error \<Rightarrow>
          if io_kind error = Io_NotFound then Ok client_config_default
          else Err (''cannot read '' @ path_display path @ '': '' @ io_text error))"

section \<open>The command\<close>

definition SSH_ENV :: bytes where "SSH_ENV = ''FILE_PEEKER_SSH''"
definition CONTROL_PERSIST_SECONDS :: nat where "CONTROL_PERSIST_SECONDS = 600"
definition CONNECT_TIMEOUT_SECONDS :: nat where "CONNECT_TIMEOUT_SECONDS = 10"
definition REMOTE_FPK :: bytes where "REMOTE_FPK = ''\"$FPK_HOST_DIR/bin/fpk\"''"
definition CONTROL_NAME_LENGTH :: nat where "CONTROL_NAME_LENGTH = 40"
definition CONTROL_TEMPORARY_SUFFIX :: nat where "CONTROL_TEMPORARY_SUFFIX = 17"

datatype prompt = Prompt_Allowed | Prompt_Never

record ssh =
  sh_program :: bytes
  sh_target :: bytes
  sh_options :: "bytes list"

definition control_dir_fits :: "bool \<Rightarrow> home \<Rightarrow> (io_error, unit) result" where
  "control_dir_fits linux home =
     (let dir = ssh_dir home;
          added = 1 + CONTROL_NAME_LENGTH + CONTROL_TEMPORARY_SUFFIX;
          longest = length dir + added
      in if longest > SOCKET_PATH_MAX linux
         then Err (io_error_new Io_InvalidInput
           (''the shared SSH connection's control socket would be '' @ show_nat longest @ '' bytes long ''
              @ EM_DASH @ '' '' @ path_display dir @ '' and the '' @ show_nat added
              @ '' characters ssh adds '' @ EM_DASH @ '' and a unix socket's path can be at most ''
              @ show_nat (SOCKET_PATH_MAX linux)
              @ ''; set `[remote] manage_ssh_config = false` in config.toml, or '' @ HOME_ENV
              @ '' to a shorter directory''))
         else Ok ())"

text \<open>
  Once the path is known to fit, the directories are made and the last one closed to others:
  \<open>created\<close>, \<open>made\<close> and \<open>closed\<close> are what \<open>Home::create\<close>, \<open>create_dir_all\<close> and
  \<open>set_permissions\<close> answer.
\<close>

definition control_prepare ::
  "(io_error, unit) result \<Rightarrow> (io_error, unit) result \<Rightarrow> (io_error, unit) result \<Rightarrow> (io_error, unit) result" where
  "control_prepare created made closed = bind_result created (\<lambda>_. bind_result made (\<lambda>_. closed))"

definition control_dir ::
  "bool \<Rightarrow> (io_error, unit) result \<Rightarrow> (io_error, unit) result \<Rightarrow> (io_error, unit) result \<Rightarrow> home
   \<Rightarrow> (io_error, bytes) result" where
  "control_dir linux created made closed home =
     bind_result (control_dir_fits linux home) (\<lambda>_.
     bind_result (control_prepare created made closed) (\<lambda>_. Ok (ssh_dir home)))"

definition ssh_new ::
  "bool \<Rightarrow> (bytes \<Rightarrow> bytes option) \<Rightarrow> (io_error, unit) result \<Rightarrow> (io_error, unit) result
   \<Rightarrow> (io_error, unit) result \<Rightarrow> home \<Rightarrow> client_config \<Rightarrow> bytes \<Rightarrow> prompt
   \<Rightarrow> (io_error, ssh) result" where
  "ssh_new linux var created made closed home config target prompt =
     bind_result
       (if rc_manage_ssh_config (cc_remote config)
        then map_result (\<lambda>dir.
          [''-o'', ''ControlMaster=auto'',
           ''-o'', ''ControlPath='' @ path_display dir @ ''/%C'',
           ''-o'', ''ControlPersist='' @ show_nat CONTROL_PERSIST_SECONDS]) (control_dir linux created made closed home)
        else Ok [])
       (\<lambda>managed. Ok
         \<lparr>sh_program = (case var SSH_ENV of Some program \<Rightarrow> program | None \<Rightarrow> ''ssh''),
          sh_target = target,
          sh_options = [''-o'', ''ConnectTimeout='' @ show_nat CONNECT_TIMEOUT_SECONDS] @ managed
            @ (if prompt = Prompt_Never then [''-o'', ''BatchMode=yes''] else [])\<rparr>)"

definition quote_safe :: "char \<Rightarrow> bool" where
  "quote_safe c \<longleftrightarrow> is_ascii_alphanumeric c \<or> c \<in> set ''-_./=:@%+,''"

abbreviation QUOTE :: char where "QUOTE \<equiv> CHR 0x27"
abbreviation DOUBLE_QUOTE :: char where "DOUBLE_QUOTE \<equiv> CHR 0x22"

definition quote_quote :: bytes where
  "quote_quote = [QUOTE, DOUBLE_QUOTE, QUOTE, DOUBLE_QUOTE, QUOTE]"

definition quote :: "bytes \<Rightarrow> bytes" where
  "quote argument =
     (if argument \<noteq> [] \<and> list_all quote_safe argument then argument
      else [QUOTE] @ replace_char QUOTE quote_quote argument @ [QUOTE])"

definition ssh_command :: "bytes \<Rightarrow> ssh \<Rightarrow> bytes \<Rightarrow> bytes list" where
  "ssh_command script self remote =
     sh_program self # sh_options self @ [''-T'', sh_target self, ''sh -c '' @ quote (script @ [NEWLINE] @ remote)]"

section \<open>How a shell reads it\<close>

text \<open>
  POSIX token recognition, for a command made of words: blanks separate, a single quote takes all
  up to the next one literally, and a double quote all up to the next one that holds nothing the
  shell would expand. Whatever else means something to the shell - an expansion, an operator, a
  glob, a comment, a tilde - is not a literal word and is refused.
\<close>

datatype sh_error = Sh_Unterminated | Sh_Special char

definition sh_plain :: "char \<Rightarrow> bool" where
  "sh_plain c \<longleftrightarrow> c \<notin> set ''|&;<>()$`*?[]#~!{}'' \<and> c \<notin> {CHR 0x5C, QUOTE, DOUBLE_QUOTE}
     \<and> c \<notin> {CHR '' '', CHR 0x09, NEWLINE, CHR 0x00}"

datatype sh_mode = Sh_Between | Sh_Word | Sh_Single | Sh_Double

fun sh_words :: "sh_mode \<Rightarrow> bytes \<Rightarrow> bytes \<Rightarrow> (sh_error, bytes list) result" where
  "sh_words Sh_Between word [] = Ok []"
| "sh_words Sh_Word word [] = Ok [word]"
| "sh_words Sh_Single word [] = Err Sh_Unterminated"
| "sh_words Sh_Double word [] = Err Sh_Unterminated"
| "sh_words Sh_Single word (c # cs) =
     (if c = QUOTE then sh_words Sh_Word word cs else sh_words Sh_Single (word @ [c]) cs)"
| "sh_words Sh_Double word (c # cs) =
     (if c = DOUBLE_QUOTE then sh_words Sh_Word word cs
      else if c \<in> {CHR ''$'', CHR 0x60, CHR 0x5C} then Err (Sh_Special c)
      else sh_words Sh_Double (word @ [c]) cs)"
| "sh_words Sh_Between word (c # cs) =
     (if c \<in> {CHR '' '', CHR 0x09} then sh_words Sh_Between [] cs
      else if c = QUOTE then sh_words Sh_Single [] cs
      else if c = DOUBLE_QUOTE then sh_words Sh_Double [] cs
      else if sh_plain c then sh_words Sh_Word [c] cs
      else Err (Sh_Special c))"
| "sh_words Sh_Word word (c # cs) =
     (if c \<in> {CHR '' '', CHR 0x09} then map_result (Cons word) (sh_words Sh_Between [] cs)
      else if c = QUOTE then sh_words Sh_Single word cs
      else if c = DOUBLE_QUOTE then sh_words Sh_Double word cs
      else if sh_plain c then sh_words Sh_Word (word @ [c]) cs
      else Err (Sh_Special c))"

definition sh_split :: "bytes \<Rightarrow> (sh_error, bytes list) result" where
  "sh_split line = sh_words Sh_Between [] line"

lemma quote_safe_plain: "quote_safe c \<Longrightarrow> sh_plain c"
  by (auto simp: quote_safe_def sh_plain_def is_ascii_alphanumeric_def is_ascii_digit_def is_ascii_lower_def
      is_ascii_upper_def)

lemma sh_plain_simps:
  "sh_plain c \<Longrightarrow> c \<noteq> QUOTE \<and> c \<noteq> DOUBLE_QUOTE \<and> c \<notin> {CHR '' '', CHR 0x09}"
  by (auto simp: sh_plain_def)

lemma words_plain:
  "list_all quote_safe s \<Longrightarrow> sh_words Sh_Word word (s @ rest) = sh_words Sh_Word (word @ s) rest"
  by (induction s arbitrary: word) (auto dest: quote_safe_plain sh_plain_simps)

lemma words_single:
  "sh_words Sh_Single word (replace_char QUOTE quote_quote s @ [QUOTE] @ rest) = sh_words Sh_Word (word @ s) rest"
  by (induction s arbitrary: word) (simp_all add: replace_char_def quote_quote_def)

lemma words_quote: "sh_words Sh_Between [] (quote s @ rest) = sh_words Sh_Word s rest"
proof (cases "s \<noteq> [] \<and> list_all quote_safe s")
  case True
  then obtain c cs where s: "s = c # cs" "quote_safe c" "list_all quote_safe cs" by (cases s) auto
  with quote_safe_plain [OF s(2)] sh_plain_simps [OF quote_safe_plain [OF s(2)]] True
  show ?thesis using words_plain [OF s(3), of "[c]" rest] by (simp add: quote_def)
next
  case False
  then have "quote s = [QUOTE] @ replace_char QUOTE quote_quote s @ [QUOTE]" by (auto simp: quote_def)
  then show ?thesis using words_single [of "[]" s rest] by simp
qed

definition quote_all :: "bytes list \<Rightarrow> bytes" where
  "quote_all args = join_with '' '' (map quote args)"

lemma split_quoted: "sh_split (quote_all args) = Ok args"
proof (induction args)
  case (Cons a args)
  show ?case
  proof (cases args)
    case Nil
    then show ?thesis using words_quote [of a "[]"] by (simp add: sh_split_def quote_all_def)
  next
    case (Cons b rest)
    then have "quote_all (a # args) = quote a @ CHR '' '' # quote_all args" by (simp add: quote_all_def)
    with Cons.IH show ?thesis using words_quote [of a "CHR '' '' # quote_all args"]
      by (simp add: sh_split_def)
  qed
qed (simp add: sh_split_def quote_all_def)

interpretation shell: encoding quote_all sh_split
  by unfold_locales (rule split_quoted)

text \<open>
  C24. What is quoted reaches the remote command as it was: a shell that reads any arguments,
  each quoted and separated by spaces, finds exactly those arguments - quotes, spaces, dollars,
  newlines and all - so no two lists of arguments are ever confused, and the script of a command
  sent over SSH arrives whole as the one argument of \<open>sh -c\<close>.
\<close>

theorem quoting_survives_a_shell:
  "sh_split (quote_all args) = Ok args
   \<and> (quote_all args = quote_all args' \<longleftrightarrow> args = args')
   \<and> sh_split (last (ssh_command script self remote)) = Ok [''sh'', ''-c'', script @ [NEWLINE] @ remote]"
proof (intro conjI)
  have "quote_all [''sh'', ''-c'', script @ [NEWLINE] @ remote] = ''sh -c '' @ quote (script @ [NEWLINE] @ remote)"
    by (simp add: quote_all_def) (simp add: quote_def quote_safe_def is_ascii_alphanumeric_def is_ascii_lower_def)
  with shell.dec_enc [of "[''sh'', ''-c'', script @ [NEWLINE] @ remote]"]
  show "sh_split (last (ssh_command script self remote)) = Ok [''sh'', ''-c'', script @ [NEWLINE] @ remote]"
    by (simp add: ssh_command_def)
qed (simp_all add: shell.dec_enc shell.enc_eq_iff)

text \<open>
  A reconnect in the background can never hang on a prompt, and a shared connection is made
  only where its control socket fits: the options of a machine's \<open>ssh\<close> hold \<open>BatchMode=yes\<close> exactly
  when prompting is not allowed, name a control path exactly when the settings ask for it, and
  then its longest form is short enough to bind.
\<close>

theorem ssh_options_follow_the_settings:
  "case ssh_new linux var created made closed home config target prompt of
     Inr ssh \<Rightarrow>
       (''BatchMode=yes'' \<in> set (sh_options ssh) \<longleftrightarrow> prompt = Prompt_Never)
       \<and> (''ControlMaster=auto'' \<in> set (sh_options ssh) \<longleftrightarrow> rc_manage_ssh_config (cc_remote config))
       \<and> sh_target ssh = target
       \<and> \<not> (rc_manage_ssh_config (cc_remote config) \<and> length (ssh_dir home) + 58 > SOCKET_PATH_MAX linux)
   | Inl error \<Rightarrow> rc_manage_ssh_config (cc_remote config)
       \<and> (length (ssh_dir home) + 58 > SOCKET_PATH_MAX linux \<and> io_kind error = Io_InvalidInput
          \<or> control_prepare created made closed = Err error)"
  by (cases "control_prepare created made closed"; cases prompt)
     (auto simp: ssh_new_def control_dir_def control_dir_fits_def Let_def CONTROL_NAME_LENGTH_def
       CONTROL_TEMPORARY_SUFFIX_def CONTROL_PERSIST_SECONDS_def CONNECT_TIMEOUT_SECONDS_def)

end
