(* ===== verification/Remote.thy ===== *)
theory Remote
  imports Ssh "HOL-Library.List_Lexorder" "HOL-Library.Code_Target_Nat"
begin

text \<open>
  \<open>src/client/remote.rs\<close> and \<open>src/protocol/probe.rs\<close>: probing a host, what this build installs
  there and how, and starting its server. Running a process is a parameter: what it answered.
  So are the JSON reader, \<open>git\<close>, the file system and SHA-256.
\<close>

section \<open>Processes\<close>

text \<open>
  \<open>ExitStatus\<close>: the code, if the process exited rather than being killed, and the text
  \<open>Display\<close> gives it.
\<close>

record exit_status =
  es_code :: "nat option"
  es_text :: bytes

definition exit_success :: "exit_status \<Rightarrow> bool" where
  "exit_success status \<longleftrightarrow> es_code status = Some 0"

record process_output =
  ou_status :: exit_status
  ou_stdout :: bytes
  ou_stderr :: bytes

text \<open>\<open>{:?}\<close> of an \<open>Option<i32>\<close>.\<close>

definition show_code :: "nat option \<Rightarrow> bytes" where
  "show_code code = (case code of None \<Rightarrow> ''None'' | Some n \<Rightarrow> ''Some('' @ show_nat n @ '')'')"

section \<open>Probing\<close>

record probe =
  pb_installed :: bool
  pb_version :: bytes
  pb_client_protocol :: nat
  pb_build :: bytes
  pb_source_hash :: "bytes option"
  pb_server_running :: bool

definition short :: "bytes \<Rightarrow> bytes" where
  "short hash =
     (if 8 = length hash \<or> 8 < length hash \<and> \<not> is_cont (hash ! 8) then take 8 hash else hash)"

definition probe_describe :: "probe \<Rightarrow> bytes" where
  "probe_describe self =
     (if \<not> pb_installed self then ''nothing installed''
      else case (pb_build self = ''dev'', pb_source_hash self) of
             (True, Some hash) \<Rightarrow> ''dev, source '' @ short hash
           | (True, None) \<Rightarrow> ''dev, source unknown''
           | _ \<Rightarrow> ''release v'' @ pb_version self)"

datatype reach =
    Reach_Probed probe
  | Reach_NeedsLogin bytes
  | Reach_Unreachable bytes

definition LOGIN :: "bytes list" where
  "LOGIN = [''Permission denied'', ''Host key verification failed'', ''keyboard-interactive'',
            ''Too many authentication failures'', ''password'']"

definition classify_failure :: "nat option \<Rightarrow> bytes \<Rightarrow> reach" where
  "classify_failure code stderr =
     (if code = Some 255 \<and> list_ex (\<lambda>sign. str_contains stderr sign) LOGIN then Reach_NeedsLogin stderr
      else if stderr = [] then Reach_Unreachable (''ssh exited with '' @ show_code code)
      else Reach_Unreachable stderr)"

definition probe_remote :: bytes where
  "probe_remote = ''f='' @ REMOTE_FPK
     @ ''; if [ -x \"$f\" ]; then exec \"$f\" probe; else echo '' @ [QUOTE] @ ''{\"installed\":false}'' @ [QUOTE] @ ''; fi''"

definition remote_probe ::
  "bytes \<Rightarrow> (bytes \<Rightarrow> ('e, probe) result) \<Rightarrow> (bytes list \<Rightarrow> (io_error, process_output) result) \<Rightarrow> ssh \<Rightarrow> reach" where
  "remote_probe script from_json run ssh =
     (case run (ssh_command script ssh probe_remote) of
        Inl error \<Rightarrow> Reach_Unreachable (''cannot run ssh: '' @ io_text error)
      | Inr output \<Rightarrow>
          (let stderr = trim (from_utf8_lossy (ou_stderr output)) in
           if \<not> exit_success (ou_status output) then classify_failure (es_code (ou_status output)) stderr
           else (let stdout = from_utf8_lossy (ou_stdout output) in
                 case map_option from_json (find (\<lambda>line. trim line \<noteq> []) (rev (str_lines stdout))) of
                   Some (Inr probe) \<Rightarrow> Reach_Probed probe
                 | _ \<Rightarrow> Reach_Unreachable (''the host answered something other than a probe: '' @ trim stdout))))"

section \<open>What this build installs\<close>

record source =
  so_dir :: bytes
  so_files :: "bytes list"
  so_hash :: bytes

datatype wanted = Wanted_Release bytes | Wanted_Dev source

definition wanted_for_this_build :: "bool \<Rightarrow> bytes \<Rightarrow> (bytes, source) result \<Rightarrow> (bytes, wanted) result" where
  "wanted_for_this_build release version read =
     (if release then Ok (Wanted_Release version) else map_result Wanted_Dev read)"

fun wanted_describe :: "wanted \<Rightarrow> bytes" where
  "wanted_describe (Wanted_Release version) = ''release v'' @ version"
| "wanted_describe (Wanted_Dev source) = ''dev, source '' @ short (so_hash source)"

fun wanted_same :: "wanted \<Rightarrow> probe \<Rightarrow> bool" where
  "wanted_same (Wanted_Release version) probe \<longleftrightarrow> pb_build probe = ''release'' \<and> pb_version probe = version"
| "wanted_same (Wanted_Dev source) probe \<longleftrightarrow>
     pb_build probe = ''dev'' \<and> pb_source_hash probe = Some (so_hash source)"

definition mismatch :: "nat \<Rightarrow> wanted \<Rightarrow> probe \<Rightarrow> bytes option" where
  "mismatch client_protocol self probe =
     (if \<not> pb_installed probe then Some ''nothing is installed''
      else if wanted_same self probe \<and> pb_client_protocol probe = client_protocol then None
      else Some (''it has '' @ probe_describe probe))"

text \<open>The bytes of one file that go into the hash: its path, a NUL, its length, its content.\<close>

definition le_bytes :: "nat \<Rightarrow> bytes" where
  "le_bytes n = map (\<lambda>i. char_of (n div 256 ^ i)) [0..<8]"

definition hashed :: "bytes \<times> bytes \<Rightarrow> bytes" where
  "hashed file = fst file @ [NUL] @ le_bytes (length (snd file)) @ snd file"

fun hash_files ::
  "(bytes \<Rightarrow> (io_error, bytes) result) \<Rightarrow> bytes \<Rightarrow> bytes list \<Rightarrow> bytes \<Rightarrow> (bytes, bytes) result" where
  "hash_files read dir [] hasher = Ok hasher"
| "hash_files read dir (path # paths) hasher =
     (case read (path_join dir path) of
        Inl error \<Rightarrow> Err (''cannot read '' @ path @ '': '' @ io_text error)
      | Inr content \<Rightarrow> hash_files read dir paths (hasher @ hashed (path, content)))"

definition source_files :: "(bytes \<Rightarrow> bool) \<Rightarrow> bytes \<Rightarrow> bytes \<Rightarrow> bytes list" where
  "source_files is_file dir stdout =
     sort (filter (\<lambda>path. is_file (path_join dir path))
            (filter (\<lambda>path. \<not> starts_with path ''old/'')
              (map from_utf8_lossy (filter (\<lambda>path. path \<noteq> []) (split_on NUL stdout)))))"

definition source_read ::
  "(io_error, process_output) result \<Rightarrow> (bytes \<Rightarrow> bool) \<Rightarrow> (bytes \<Rightarrow> (io_error, bytes) result)
   \<Rightarrow> (bytes \<Rightarrow> bytes) \<Rightarrow> bytes \<Rightarrow> (bytes, source) result" where
  "source_read git is_file read sha256 dir =
     (case git of
        Inl error \<Rightarrow> Err (''cannot run git in '' @ path_display dir @ '': '' @ io_text error)
      | Inr output \<Rightarrow>
          if \<not> exit_success (ou_status output)
          then Err (''a dev build installs the source it was built from, and '' @ path_display dir
            @ '' is not a git checkout: '' @ trim (from_utf8_lossy (ou_stderr output)))
          else (let files = source_files is_file dir (ou_stdout output) in
                map_result (\<lambda>hasher. \<lparr>so_dir = path_display dir, so_files = files, so_hash = sha256 hasher\<rparr>)
                  (hash_files read dir files [])))"

section \<open>Installing\<close>

definition REPOSITORY :: bytes where
  "REPOSITORY = ''https://github.com/tanchihpin0517/file-peeker''"

text \<open>What running a script answers: starting \<open>ssh\<close>, feeding it, and how it ended.\<close>

record script_answers =
  sa_spawn :: "(io_error, unit) result"
  sa_fed :: "(io_error, unit) result"
  sa_wait :: "(io_error, exit_status) result"

definition script_remote :: "bytes list \<Rightarrow> bytes" where
  "script_remote args = ''sh -s -- '' @ quote_all args"

definition run_script :: "ssh \<Rightarrow> script_answers \<Rightarrow> (bytes, unit) result" where
  "run_script ssh answers =
     bind_result (map_err (\<lambda>error. ''cannot run ssh: '' @ io_text error) (sa_spawn answers)) (\<lambda>_.
     bind_result (map_err (\<lambda>error. ''cannot send the install script: '' @ io_text error) (sa_fed answers)) (\<lambda>_.
     bind_result (map_err (\<lambda>error. ''ssh did not finish: '' @ io_text error) (sa_wait answers)) (\<lambda>status.
     if exit_success status then Ok ()
     else Err (''installing on '' @ sh_target ssh @ '' failed ('' @ es_text status @ '')''))))"

record upload_answers =
  ua_tar :: "(io_error, unit) result"
  ua_pipe :: "(io_error, unit) result"
  ua_listed :: "(io_error, unit) result"
  ua_tarred :: "(io_error, exit_status) result"
  ua_received :: "(io_error, exit_status) result"

definition tar_args :: "source \<Rightarrow> bytes list" where
  "tar_args source = [''--no-xattrs'', ''-czf'', ''-'', ''-C'', so_dir source, ''--null'', ''-T'', ''-'']"

definition tar_list :: "source \<Rightarrow> bytes" where
  "tar_list source = join_with [NUL] (so_files source) @ [NUL]"

definition upload_remote :: bytes where
  "upload_remote =
     ''umask 077; src=\"$FPK_HOST_DIR/src\"; rm -rf \"$src\" && mkdir -p \"$src\" && tar -xzf - -C \"$src\"''"

definition upload :: "ssh \<Rightarrow> upload_answers \<Rightarrow> (bytes, unit) result" where
  "upload ssh answers =
     bind_result (map_err (\<lambda>error. ''cannot run tar: '' @ io_text error) (ua_tar answers)) (\<lambda>_.
     bind_result (map_err (\<lambda>error. ''cannot pipe tar into ssh: '' @ io_text error) (ua_pipe answers)) (\<lambda>_.
     bind_result (map_err (\<lambda>error. ''cannot list the source for tar: '' @ io_text error) (ua_listed answers)) (\<lambda>_.
     bind_result (map_err (\<lambda>error. ''tar did not finish: '' @ io_text error) (ua_tarred answers)) (\<lambda>tarred.
     bind_result (map_err (\<lambda>error. ''cannot run ssh: '' @ io_text error) (ua_received answers)) (\<lambda>received.
     if exit_success tarred \<and> exit_success received then Ok ()
     else Err (''uploading the source to '' @ sh_target ssh @ '' failed (tar '' @ es_text tarred
       @ '', ssh '' @ es_text received @ '')''))))))"

text \<open>The arguments of the script each build runs, and whether it ends well.\<close>

fun install_args :: "wanted \<Rightarrow> bytes list" where
  "install_args (Wanted_Release version) = [version, REPOSITORY]"
| "install_args (Wanted_Dev source) = [so_hash source]"

fun remote_install :: "ssh \<Rightarrow> wanted \<Rightarrow> upload_answers \<Rightarrow> script_answers \<Rightarrow> (bytes, unit) result" where
  "remote_install ssh (Wanted_Release version) uploading script = run_script ssh script"
| "remote_install ssh (Wanted_Dev source) uploading script =
     bind_result (upload ssh uploading) (\<lambda>_. run_script ssh script)"

definition start_remote :: bytes where
  "start_remote = REMOTE_FPK @ '' server start >/dev/null''"

definition remote_start_server :: "ssh \<Rightarrow> (io_error, exit_status) result \<Rightarrow> (bytes, unit) result" where
  "remote_start_server ssh status =
     bind_result (map_err (\<lambda>error. ''cannot run ssh: '' @ io_text error) status) (\<lambda>status.
     if exit_success status then Ok ()
     else Err (''starting the server on '' @ sh_target ssh @ '' failed ('' @ es_text status @ '')''))"

definition bridge_remote :: bytes where
  "bridge_remote = ''exec '' @ REMOTE_FPK @ '' bridge''"

section \<open>What a source hash pins\<close>

lemma digits_mod:
  "(\<And>i. i < k \<Longrightarrow> n div 256 ^ i mod 256 = m div 256 ^ i mod 256) \<Longrightarrow> n mod 256 ^ k = m mod (256 ^ k :: nat)"
proof (induction k)
  case (Suc k)
  from Suc.IH Suc.prems have "n mod 256 ^ k = m mod 256 ^ k" by simp
  moreover have "n div 256 ^ k mod 256 = m div 256 ^ k mod 256" by (rule Suc.prems) simp
  ultimately show ?case by (simp add: mod_mult2_eq mult.commute [of 256])
qed simp

lemma le_bytes_inj: "le_bytes n = le_bytes m \<Longrightarrow> n < 2 ^ 64 \<Longrightarrow> m < 2 ^ 64 \<Longrightarrow> n = m"
proof -
  assume eq: "le_bytes n = le_bytes m" and less: "n < 2 ^ 64" "m < 2 ^ 64"
  have "n div 256 ^ i mod 256 = m div 256 ^ i mod 256" if "i < 8" for i
  proof -
    have "(char_of (n div 256 ^ i) :: char) = char_of (m div 256 ^ i)"
      using arg_cong [OF eq, of "\<lambda>l. l ! i"] that by (simp add: le_bytes_def)
    then show ?thesis by (simp add: char_of_eq_iff take_bit_eq_mod)
  qed
  then have "n mod 256 ^ 8 = m mod 256 ^ 8" by (rule digits_mod)
  with less show ?thesis by simp
qed

lemma length_le_bytes [simp]: "length (le_bytes n) = 8"
  by (simp add: le_bytes_def)

lemma until_NUL_inj:
  "p @ [NUL] @ s = p' @ [NUL] @ s' \<Longrightarrow> NUL \<notin> set p \<Longrightarrow> NUL \<notin> set p' \<Longrightarrow> p = p' \<and> s = s'"
proof (induction p arbitrary: p')
  case Nil
  then show ?case by (cases p') auto
next
  case (Cons c p)
  then show ?case by (cases p') auto
qed

text \<open>A file as it can be on disk: its path has no NUL and its length fits in 64 bits.\<close>

definition hashable :: "bytes \<times> bytes \<Rightarrow> bool" where
  "hashable file \<longleftrightarrow> NUL \<notin> set (fst file) \<and> length (snd file) < 2 ^ 64"

lemma hashed_inj:
  assumes "hashed f @ s = hashed f' @ s'" and "hashable f" and "hashable f'"
  shows "f = f' \<and> s = s'"
proof -
  obtain p c p' c' where f: "f = (p, c)" "f' = (p', c')" by fastforce
  with assms(1) have "p @ [NUL] @ le_bytes (length c) @ c @ s = p' @ [NUL] @ le_bytes (length c') @ c' @ s'"
    by (simp add: hashed_def)
  from until_NUL_inj [OF this] assms(2,3)
  have "p = p'" and rest: "le_bytes (length c) @ c @ s = le_bytes (length c') @ c' @ s'"
    by (simp_all add: hashable_def f)
  moreover from rest have "le_bytes (length c) = le_bytes (length c')" by simp
  with le_bytes_inj have "length c = length c'" using assms(2,3) by (simp add: hashable_def f)
  ultimately show ?thesis using rest by (simp add: f)
qed

lemma hashed_list_inj:
  "concat (map hashed fs) = concat (map hashed gs) \<Longrightarrow> list_all hashable fs \<Longrightarrow> list_all hashable gs \<Longrightarrow> fs = gs"
proof (induction fs arbitrary: gs)
  case Nil
  then show ?case by (cases gs) (auto simp: hashed_def)
next
  case (Cons f fs)
  show ?case
  proof (cases gs)
    case Nil
    with Cons.prems show ?thesis by (auto simp: hashed_def)
  next
    case (Cons g gs')
    then have "hashed f @ concat (map hashed fs) = hashed g @ concat (map hashed gs')"
      using Cons.prems by simp
    from hashed_inj [OF this] Cons.prems Cons Cons.IH [of gs'] show ?thesis by auto
  qed
qed

lemma hash_files_Ok:
  "hash_files read dir paths hasher = Ok h \<longleftrightarrow>
   (\<exists>files. h = hasher @ concat (map hashed files) \<and> map fst files = paths
     \<and> (\<forall>(path, content) \<in> set files. read (path_join dir path) = Ok content))"
proof (induction paths arbitrary: hasher)
  case (Cons path paths)
  show ?case
  proof (cases "read (path_join dir path)")
    case (Inr content)
    have "(\<exists>files. h = hasher @ hashed (path, content) @ concat (map hashed files) \<and> map fst files = paths
            \<and> (\<forall>(path, content) \<in> set files. read (path_join dir path) = Ok content))
      \<longleftrightarrow> (\<exists>files. h = hasher @ concat (map hashed files) \<and> map fst files = path # paths
            \<and> (\<forall>(path, content) \<in> set files. read (path_join dir path) = Ok content))" (is "?l \<longleftrightarrow> ?r")
    proof
      assume ?l
      then obtain files where "h = hasher @ hashed (path, content) @ concat (map hashed files)" "map fst files = paths"
        "\<forall>(path, content) \<in> set files. read (path_join dir path) = Ok content" by blast
      with Inr show ?r by (intro exI [of _ "(path, content) # files"]) simp
    next
      assume ?r
      with Inr show ?l by (auto simp: map_eq_Cons_conv)
    qed
    with Inr show ?thesis by (simp add: Cons.IH)
  qed (auto simp: map_eq_Cons_conv)
qed auto

lemma lossy_set: "c \<in> set (from_utf8_lossy s) \<Longrightarrow> c \<in> set s \<or> c \<in> set REPLACEMENT"
proof (induction s rule: from_utf8_lossy.induct)
  case (1 s)
  show ?case
  proof (cases "utf8_head s")
    case Utf8_End
    with "1.prems" show ?thesis by (simp add: from_utf8_lossy.simps [of s])
  next
    case (Utf8_Char n)
    with "1.prems" "1.IH"(1) [OF Utf8_Char] show ?thesis
      by (auto simp: from_utf8_lossy.simps [of s] dest: in_set_takeD in_set_dropD)
  next
    case (Utf8_Bad e)
    with "1.prems" "1.IH"(2) [OF Utf8_Bad] show ?thesis
      by (cases e) (auto simp: from_utf8_lossy.simps [of s] dest: in_set_dropD)
  qed
qed

lemma source_files_facts:
  assumes "path \<in> set (source_files is_file dir stdout)"
  shows "NUL \<notin> set path" "is_file (path_join dir path)" "\<not> starts_with path ''old/''"
proof -
  from assms obtain raw where raw: "path = from_utf8_lossy raw" "raw \<in> set (split_on NUL stdout)"
    by (auto simp: source_files_def)
  from split_on_runs [OF raw(2)] show "NUL \<notin> set path"
    using lossy_set [of NUL raw] by (auto simp: raw(1) REPLACEMENT_def)
  show "is_file (path_join dir path)" "\<not> starts_with path ''old/''"
    using assms by (auto simp: source_files_def)
qed

lemma source_read_Ok:
  assumes "source_read git is_file read sha256 dir = Ok source"
  obtains files where "so_hash source = sha256 (concat (map hashed files))" "map fst files = so_files source"
    "\<And>path content. (path, content) \<in> set files \<Longrightarrow> read (path_join dir path) = Ok content"
    "\<And>path. path \<in> set (so_files source) \<Longrightarrow> NUL \<notin> set path"
proof -
  from assms obtain ran hasher where out: "git = Ok ran"
    and files: "hash_files read dir (source_files is_file dir (ou_stdout ran)) [] = Ok hasher"
    and source: "source = \<lparr>so_dir = path_display dir, so_files = source_files is_file dir (ou_stdout ran),
      so_hash = sha256 hasher\<rparr>"
    by (auto simp: source_read_def Let_def split: sum.splits if_splits)
  from files [unfolded hash_files_Ok] obtain fs where "hasher = concat (map hashed fs)"
    "map fst fs = source_files is_file dir (ou_stdout ran)"
    "\<forall>(path, content) \<in> set fs. read (path_join dir path) = Ok content" by auto
  with source source_files_facts(1) show ?thesis by (intro that [of fs]) auto
qed


text \<open>One file in two checkouts, beside one under \<open>old/\<close>, and a hash that keeps everything.\<close>

definition example_read :: "bytes \<Rightarrow> bytes \<Rightarrow> (io_error, bytes) result" where
  "example_read file path = (if path = file then Ok ''x'' else Err (io_error_new Io_NotFound ''no such file''))"

definition example_git :: "(io_error, process_output) result" where
  "example_git = Ok \<lparr>ou_status = \<lparr>es_code = Some 0, es_text = ''exit status: 0''\<rparr>,
     ou_stdout = ''a.rs'' @ [NUL] @ ''old/b.rs'' @ [NUL], ou_stderr = []\<rparr>"

lemma example_source:
  "source_read example_git (\<lambda>_. True) (example_read ''/s/a.rs'') id ''/s'' =
     Ok \<lparr>so_dir = ''/s'', so_files = [''a.rs''], so_hash = hashed (''a.rs'', ''x'')\<rparr>"
  "source_read example_git (\<lambda>_. True) (example_read ''/t/a.rs'') id ''/t'' =
     Ok \<lparr>so_dir = ''/t'', so_files = [''a.rs''], so_hash = hashed (''a.rs'', ''x'')\<rparr>"
  by code_simp+


end
