(* ===== verification/Machines.thy ===== *)
theory Machines
  imports Remote
begin

text \<open>
  \<open>src/client/machines.rs\<close> and \<open>src/cli/machine.rs\<close>: the catalog of saved machines, and the
  commands that add, list, forget and reach one. The TOML reader and writer are parameters, as is
  what the file system, the terminal and the host answer.
\<close>

section \<open>The catalog\<close>

record saved_machine =
  sm_id :: bytes
  sm_label :: bytes
  sm_ssh :: bytes
  sm_enabled :: bool

definition saved_machine_new :: "bytes \<Rightarrow> bytes \<Rightarrow> bytes \<Rightarrow> saved_machine" where
  "saved_machine_new uuid label ssh =
     \<lparr>sm_id = ''m-'' @ take 8 uuid, sm_label = label, sm_ssh = ssh, sm_enabled = True\<rparr>"

definition catalog_load ::
  "(bytes \<Rightarrow> (bytes, saved_machine list) result) \<Rightarrow> (bytes \<Rightarrow> (io_error, bytes) result) \<Rightarrow> home
   \<Rightarrow> (bytes, saved_machine list) result" where
  "catalog_load from_toml read_to_string home =
     (let path = machines_file home in
      case read_to_string path of
        Inr text \<Rightarrow> map_err (\<lambda>error. path_display path @ '' is not valid: '' @ error) (from_toml text)
      | Inl error \<Rightarrow>
          if io_kind error = Io_NotFound then Ok []
          else Err (''cannot read '' @ path_display path @ '': '' @ io_text error))"

text \<open>
  Files are what a path holds. Any step may fail; one that writes may have written a part first,
  which is also all a crash there leaves.
\<close>

type_synonym files = "bytes \<Rightarrow> bytes option"

datatype saving_step = SvCreate | SvWrite | SvRename

definition catalog_save ::
  "(saved_machine list \<Rightarrow> (bytes, bytes) result) \<Rightarrow> (saving_step \<Rightarrow> io_error option) \<Rightarrow> nat \<Rightarrow> home
   \<Rightarrow> saved_machine list \<Rightarrow> files \<Rightarrow> (bytes, unit) result \<times> files" where
  "catalog_save to_toml fails written home machines files =
     (let path = machines_file home;
          refuse = (\<lambda>error. Err (''cannot write '' @ path_display path @ '': '' @ io_text error)) in
      case to_toml machines of
        Inl error \<Rightarrow> (Err (''cannot encode '' @ path_display path @ '': '' @ error), files)
      | Inr text \<Rightarrow>
          (let partial = with_extension path ''toml.partial'' in
           case fails SvCreate of
             Some error \<Rightarrow> (refuse error, files)
           | None \<Rightarrow>
               (case fails SvWrite of
                  Some error \<Rightarrow> (refuse error, files(partial \<mapsto> take written text))
                | None \<Rightarrow>
                    (case fails SvRename of
                       Some error \<Rightarrow> (refuse error, files(partial \<mapsto> text))
                     | None \<Rightarrow> (Ok (), files(path \<mapsto> text, partial := None))))))"

definition contains_control :: "bytes \<Rightarrow> bool" where
  "contains_control s \<longleftrightarrow> list_ex (\<lambda>c. byte_val c < 0x20 \<or> byte_val c = 0x7F) s
     \<or> list_ex (\<lambda>n. str_contains s [CHR 0xC2, char_of n]) [0x80..<0xA0::nat]"

definition invalid_label :: "bytes \<Rightarrow> bytes option" where
  "invalid_label label =
     (if label = [] then Some ''a label cannot be empty''
      else if label = ''local'' then Some ''`local` is this machine's own label''
      else if list_ex (\<lambda>w. str_contains label w) WHITESPACE \<or> contains_control label
      then Some ''a label cannot contain spaces''
      else None)"

section \<open>Adding a machine\<close>

text \<open>What a command does that can be seen outside it, in order, and how it ends.\<close>

datatype machine_act =
    MaProbe
  | MaAsk bytes
  | MaInstall wanted
  | MaStop
  | MaStart
  | MaSave "saved_machine list"

type_synonym 'a flow = "(bytes, 'a) result \<times> machine_act list"

definition flow_return :: "(bytes, 'a) result \<Rightarrow> 'a flow" where
  "flow_return r = (r, [])"

definition flow_act :: "machine_act \<Rightarrow> (bytes, 'a) result \<Rightarrow> 'a flow" where
  "flow_act act r = (r, [act])"

definition flow_bind :: "'a flow \<Rightarrow> ('a \<Rightarrow> 'b flow) \<Rightarrow> 'b flow" where
  "flow_bind m f =
     (case fst m of
        Inl e \<Rightarrow> (Inl e, snd m)
      | Inr a \<Rightarrow> (fst (f a), snd m @ snd (f a)))"

lemma flow_simps [result_simps]:
  "flow_bind (flow_return (Inl e)) f = flow_return (Inl e)"
  "flow_bind (flow_return (Inr a)) f = f a"
  "flow_bind (flow_act act (Inl e)) f = flow_act act (Inl e)"
  "flow_bind (flow_act act (Inr a)) f = (fst (f a), act # snd (f a))"
  by (simp_all add: flow_bind_def flow_return_def flow_act_def)

text \<open>
  What answers: the settings, the catalog, this build, the \<open>ssh\<close> to the target, the two probes,
  a person, and each thing done to the host.
\<close>

record add_answers =
  aa_config :: "(bytes, client_config) result"
  aa_load :: "(bytes, saved_machine list) result"
  aa_wanted :: "(bytes, wanted) result"
  aa_ssh :: "client_config \<Rightarrow> (io_error, ssh) result"
  aa_probe :: "ssh \<Rightarrow> reach"
  aa_confirm :: "bytes \<Rightarrow> (bytes, bool) result"
  aa_install :: "(bytes, unit) result"
  aa_stop :: "(io_error, exit_status) result"
  aa_probe_after :: "ssh \<Rightarrow> reach"
  aa_start :: "(bytes, unit) result"
  aa_uuid :: bytes
  aa_save :: "saved_machine list \<Rightarrow> (bytes, unit) result"

definition confirm ::
  "bool \<Rightarrow> (io_error, unit) result \<Rightarrow> (io_error, bytes) result \<Rightarrow> (bytes, bool) result" where
  "confirm is_terminal flush read_line =
     (if \<not> is_terminal then Ok False
      else bind_result (map_err io_text flush) (\<lambda>_.
           bind_result (map_err io_text read_line) (\<lambda>answer. Ok (trim answer \<in> {''y'', ''Y'', ''yes''}))))"

definition install_question :: "bool \<Rightarrow> bytes \<Rightarrow> bytes \<Rightarrow> wanted \<Rightarrow> bytes" where
  "install_question release target why wanted =
     target @ '': '' @ why @ ''. Install '' @ wanted_describe wanted @ '' into ~/'' @ DIRECTORY_NAME release
       @ ''/hosts/<its machine ID>/bin/fpk there?''"

definition restart_question :: "bytes \<Rightarrow> bytes" where
  "restart_question target =
     target @ '''s server is still the old build. Restart it? Its tasks are cancelled.''"

text \<open>\<open>yes || confirm(&question)?\<close>\<close>

definition agreed :: "add_answers \<Rightarrow> bool \<Rightarrow> bytes \<Rightarrow> bool flow" where
  "agreed answers yes question =
     (if yes then flow_return (Ok True) else flow_act (MaAsk question) (aa_confirm answers question))"

definition add_restart :: "add_answers \<Rightarrow> bytes \<Rightarrow> bool \<Rightarrow> probe \<Rightarrow> unit flow" where
  "add_restart answers target yes probe =
     (if \<not> pb_server_running probe then flow_return (Ok ())
      else flow_bind (agreed answers yes (restart_question target)) (\<lambda>restart.
           if \<not> restart then flow_return (Ok ())
           else flow_bind (flow_act MaStop (map_err (\<lambda>error. ''cannot run ssh: '' @ io_text error) (aa_stop answers))) (\<lambda>stop.
                if exit_success stop then flow_return (Ok ())
                else flow_return (Err (''stopping the old server on '' @ target @ '' failed'')))))"

definition add_check :: "nat \<Rightarrow> add_answers \<Rightarrow> bytes \<Rightarrow> wanted \<Rightarrow> ssh \<Rightarrow> unit flow" where
  "add_check client_protocol answers target wanted ssh =
     flow_act MaProbe
       (case aa_probe_after answers ssh of
          Reach_Probed after \<Rightarrow>
            if mismatch client_protocol wanted after = None then Ok ()
            else Err (target @ '' still has '' @ probe_describe after @ '' after installing'')
        | Reach_NeedsLogin why \<Rightarrow> Err (''cannot reach '' @ target @ '' after installing: '' @ why)
        | Reach_Unreachable why \<Rightarrow> Err (''cannot reach '' @ target @ '' after installing: '' @ why))"

definition add_install ::
  "bool \<Rightarrow> nat \<Rightarrow> add_answers \<Rightarrow> bytes \<Rightarrow> bytes \<Rightarrow> bool \<Rightarrow> wanted \<Rightarrow> ssh \<Rightarrow> probe \<Rightarrow> unit flow" where
  "add_install release client_protocol answers label target yes wanted ssh probe =
     (case mismatch client_protocol wanted probe of
        None \<Rightarrow> flow_return (Ok ())
      | Some why \<Rightarrow>
          flow_bind (agreed answers yes (install_question release target why wanted)) (\<lambda>install.
          if \<not> install then flow_return (Err (''nothing was installed, and `'' @ label @ ''` was not saved''))
          else flow_bind (flow_act (MaInstall wanted) (aa_install answers)) (\<lambda>_.
               flow_bind (add_restart answers target yes probe) (\<lambda>_.
               add_check client_protocol answers target wanted ssh))))"

definition add_probe :: "add_answers \<Rightarrow> bytes \<Rightarrow> ssh \<Rightarrow> probe flow" where
  "add_probe answers target ssh =
     flow_act MaProbe
       (case aa_probe answers ssh of
          Reach_Probed probe \<Rightarrow> Ok probe
        | Reach_NeedsLogin why \<Rightarrow> Err (''cannot reach '' @ target @ '': '' @ why)
        | Reach_Unreachable why \<Rightarrow> Err (''cannot reach '' @ target @ '': '' @ why))"

definition add_saved :: "add_answers \<Rightarrow> bytes \<Rightarrow> bytes \<Rightarrow> saved_machine list \<Rightarrow> unit flow" where
  "add_saved answers label target saved =
     (if list_ex (\<lambda>machine. sm_label machine = label) saved then flow_return (Ok ())
      else (let saved' = saved @ [saved_machine_new (aa_uuid answers) label target] in
            flow_act (MaSave saved') (aa_save answers saved')))"

definition add_known :: "bytes \<Rightarrow> bytes \<Rightarrow> saved_machine list \<Rightarrow> unit flow" where
  "add_known label target saved =
     (case find (\<lambda>machine. sm_label machine = label) saved of
        Some existing \<Rightarrow>
          flow_return (if sm_ssh existing \<noteq> target
            then Err (''`'' @ label @ ''` is already saved for '' @ sm_ssh existing
              @ ''; remove it first to point it elsewhere'')
            else Ok ())
      | None \<Rightarrow> flow_return (Ok ()))"

definition machine_add :: "bool \<Rightarrow> nat \<Rightarrow> add_answers \<Rightarrow> bytes \<Rightarrow> bytes \<Rightarrow> bool \<Rightarrow> unit flow" where
  "machine_add release client_protocol answers label target yes =
     (case invalid_label label of
        Some reason \<Rightarrow> flow_return (Err (''cannot name a machine `'' @ label @ ''`: '' @ reason))
      | None \<Rightarrow>
          flow_bind (flow_return (aa_config answers)) (\<lambda>config.
          flow_bind (flow_return (aa_load answers)) (\<lambda>saved.
          flow_bind (add_known label target saved) (\<lambda>_.
          flow_bind (flow_return (aa_wanted answers)) (\<lambda>wanted.
          flow_bind (flow_return (map_err io_text (aa_ssh answers config))) (\<lambda>ssh.
          flow_bind (add_probe answers target ssh) (\<lambda>probe.
          flow_bind (add_install release client_protocol answers label target yes wanted ssh probe) (\<lambda>_.
          flow_bind (flow_act MaStart (aa_start answers)) (\<lambda>_.
          add_saved answers label target saved)))))))))"

section \<open>The other commands\<close>

definition char_count :: "bytes \<Rightarrow> nat" where
  "char_count s = length (filter (\<lambda>c. \<not> is_cont c) s)"

definition pad_left :: "nat \<Rightarrow> bytes \<Rightarrow> bytes" where
  "pad_left width s = s @ replicate (width - char_count s) (CHR '' '')"

definition machine_list :: "(bytes, saved_machine list) result \<Rightarrow> (bytes, bytes list) result" where
  "machine_list load =
     map_result (\<lambda>saved.
       if saved = [] then [''no machines saved; add one with `fpk machine add <label> <ssh-target>`'']
       else (let width = Max (set (map (\<lambda>machine. length (sm_label machine)) saved)) in
             map (\<lambda>machine. pad_left width (sm_label machine) @ ''  '' @ sm_ssh machine
                    @ (if sm_enabled machine then [] else ''  (disabled)'')) saved)) load"

definition machine_remove ::
  "(bytes, saved_machine list) result \<Rightarrow> (saved_machine list \<Rightarrow> (bytes, unit) result) \<Rightarrow> bytes
   \<Rightarrow> unit flow" where
  "machine_remove load save label =
     flow_bind (flow_return load) (\<lambda>saved.
       let kept = filter (\<lambda>machine. sm_label machine \<noteq> label) saved in
       if length kept = length saved then flow_return (Err (''no machine is saved as `'' @ label @ ''`''))
       else flow_act (MaSave kept) (save kept))"

definition ssh_for ::
  "(bytes, client_config) result \<Rightarrow> (bytes, saved_machine list) result
   \<Rightarrow> (client_config \<Rightarrow> bytes \<Rightarrow> prompt \<Rightarrow> (io_error, ssh) result) \<Rightarrow> bytes \<Rightarrow> prompt \<Rightarrow> (bytes, ssh) result" where
  "ssh_for config load new label prompt =
     bind_result config (\<lambda>config.
     bind_result load (\<lambda>saved.
     case find (\<lambda>machine. sm_label machine = label) saved of
       None \<Rightarrow> Err (''no machine is saved as `'' @ label @ ''`; see `fpk machine list`'')
     | Some machine \<Rightarrow> map_err io_text (new config (sm_ssh machine) prompt)))"

definition machine_login ::
  "(bytes, ssh) result \<Rightarrow> (ssh \<Rightarrow> (io_error, exit_status) result) \<Rightarrow> bytes \<Rightarrow> (bytes, unit) result" where
  "machine_login ssh run label =
     bind_result ssh (\<lambda>ssh.
     bind_result (map_err (\<lambda>error. ''cannot run ssh: '' @ io_text error) (run ssh)) (\<lambda>status.
     if exit_success status then Ok ()
     else Err (''signing in to `'' @ label @ ''` failed ('' @ es_text status @ '')'')))"

definition EXIT_FAILURE :: nat where "EXIT_FAILURE = 1"

definition remote_args :: "bytes list \<Rightarrow> bytes" where
  "remote_args args = REMOTE_FPK @ '' '' @ quote_all (map from_utf8_lossy args)"

definition run_remote ::
  "(bytes, ssh) result \<Rightarrow> (ssh \<Rightarrow> bytes \<Rightarrow> (io_error, exit_status) result) \<Rightarrow> bytes list \<Rightarrow> (bytes, nat) result" where
  "run_remote ssh run args =
     bind_result ssh (\<lambda>ssh.
     bind_result (map_err (\<lambda>error. ''cannot run ssh: '' @ io_text error) (run ssh (remote_args args))) (\<lambda>status.
     Ok (case es_code status of
           Some code \<Rightarrow> if code < 256 then code else EXIT_FAILURE
         | None \<Rightarrow> EXIT_FAILURE)))"

section \<open>The catalog is old or new\<close>

definition read_files :: "files \<Rightarrow> bytes \<Rightarrow> (io_error, bytes) result" where
  "read_files files path =
     (case files path of
        Some text \<Rightarrow> Ok text
      | None \<Rightarrow> Err (io_error_new Io_NotFound ''No such file or directory''))"

definition partial_catalog :: "home \<Rightarrow> bytes" where
  "partial_catalog home = with_extension (machines_file home) ''toml.partial''"

lemma last_name_join: "SLASH \<notin> set name \<Longrightarrow> last_name (path_join dir name) = name"
proof -
  assume name: "SLASH \<notin> set name"
  then have "\<not> is_absolute name" by (auto simp: is_absolute_def)
  moreover have "takeWhile (\<lambda>c. c \<noteq> SLASH) (rev name @ rest) = rev name @ takeWhile (\<lambda>c. c \<noteq> SLASH) rest" for rest
    using name by (intro takeWhile_append2) auto
  moreover have "takeWhile (\<lambda>c. c \<noteq> SLASH) (rev dir) = []" if "dir = [] \<or> last dir = SLASH"
    using that by (cases dir rule: rev_cases) auto
  ultimately show ?thesis by (auto simp: last_name_def path_join_relative)
qed

lemma partial_apart: "partial_catalog home \<noteq> machines_file home"
proof -
  have stem: "last_name (machines_file home) = ''machines.toml''"
    unfolding machines_file_def by (rule last_name_join) simp
  have "file_stem ''machines.toml'' = ''machines''" by (simp add: file_stem_def)
  with stem have "last (partial_catalog home) = CHR ''l'' \<and> length (partial_catalog home) =
      length (take (length (machines_file home) - 13) (machines_file home)) + 21"
    by (simp add: partial_catalog_def with_extension_def)
  moreover have "13 \<le> length (machines_file home)"
    unfolding machines_file_def by (simp add: path_join_def)
  ultimately show ?thesis by auto
qed

text \<open>
  C22. Saving machines never loses them: read back, the catalog is the one just saved when the
  save succeeds, and exactly the one from before when any step of it fails or the program dies
  there - and no other file is touched but the partial one beside it.
\<close>

theorem catalog_is_old_or_new:
  assumes "catalog_save to_toml fails written home machines files = (r, files')"
    and "\<And>text. to_toml machines = Ok text \<Longrightarrow> from_toml text = Ok machines"
  shows "catalog_load from_toml (read_files files') home =
      (if r = Ok () then Ok machines else catalog_load from_toml (read_files files) home)
    \<and> (\<forall>path. path \<noteq> machines_file home \<and> path \<noteq> with_extension (machines_file home) ''toml.partial'' \<longrightarrow>
         files' path = files path)"
  using assms partial_apart [of home]
  by (auto simp: catalog_save_def catalog_load_def read_files_def Let_def partial_catalog_def
      split: sum.splits option.splits)

definition example_machine :: saved_machine where
  "example_machine = saved_machine_new ''0123456789'' ''box'' ''me@box''"

theorem catalog_is_old_or_new_witness:
  "\<exists>files'. catalog_save (\<lambda>ms. Ok (concat (map sm_label ms))) (\<lambda>step. if step = SvWrite then Some (io_error_new Io_Other ''full'') else None)
       2 (home_at ''/h'') [example_machine] ((\<lambda>_. None)(''/h/machines.toml'' \<mapsto> [])) = (Err ''cannot write /h/machines.toml: full'', files')
     \<and> files' ''/h/machines.toml.partial'' = Some ''bo''
     \<and> catalog_load (\<lambda>text. if text = [] then Ok [] else Ok [example_machine]) (read_files files') (home_at ''/h'') = Ok []"
proof -
  let ?files = "(\<lambda>_. None)(''/h/machines.toml'' \<mapsto> []) :: files"
  let ?save = "catalog_save (\<lambda>ms. Ok (concat (map sm_label ms))) (\<lambda>step. if step = SvWrite then Some (io_error_new Io_Other ''full'') else None)
       2 (home_at ''/h'') [example_machine] ?files"
  have "fst ?save = Err ''cannot write /h/machines.toml: full''" by code_simp
  moreover have "snd ?save ''/h/machines.toml.partial'' = Some ''bo''" by code_simp
  moreover have "catalog_load (\<lambda>text. if text = [] then Ok [] else Ok [example_machine]) (read_files ?files) (home_at ''/h'') = Ok []"
    by code_simp
  ultimately show ?thesis
    using catalog_is_old_or_new [of "\<lambda>ms. Ok (concat (map sm_label ms))" _ 2 "home_at ''/h''" "[example_machine]" ?files
        "fst ?save" "snd ?save" "\<lambda>text. if text = [] then Ok [] else Ok [example_machine]"]
    by (cases ?save) (auto simp: example_machine_def saved_machine_new_def)
qed

section \<open>Nothing is done unasked\<close>

lemma flow_bind_snd:
  "act \<in> set (snd (flow_bind m f)) \<longleftrightarrow> act \<in> set (snd m) \<or> (\<exists>a. fst m = Inr a \<and> act \<in> set (snd (f a)))"
  by (auto simp: flow_bind_def split: sum.splits)

lemma flow_bind_fst: "fst (flow_bind m f) = Inr b \<longleftrightarrow> (\<exists>a. fst m = Inr a \<and> fst (f a) = Inr b)"
  by (auto simp: flow_bind_def split: sum.splits)

lemma flow_leaf [simp]:
  "fst (flow_return r) = r" "snd (flow_return r) = []"
  "fst (flow_act act r) = r" "snd (flow_act act r) = [act]"
  by (simp_all add: flow_return_def flow_act_def)

lemma agreed_facts:
  "fst (agreed answers yes question) = Inr True \<Longrightarrow> yes \<or> aa_confirm answers question = Ok True"
  "act \<in> set (snd (agreed answers yes question)) \<Longrightarrow> act = MaAsk question \<and> \<not> yes"
  by (auto simp: agreed_def split: if_splits)

lemma add_restart_acts:
  "act \<in> set (snd (add_restart answers target yes probe)) \<Longrightarrow>
   act = MaAsk (restart_question target) \<or>
   act = MaStop \<and> pb_server_running probe \<and> (yes \<or> aa_confirm answers (restart_question target) = Ok True)"
  by (auto simp: add_restart_def flow_bind_snd dest: agreed_facts split: if_splits)

lemma add_install_acts:
  assumes "act \<in> set (snd (add_install release protocol answers label target yes wanted ssh probe))"
  obtains why where "mismatch protocol wanted probe = Some why"
    and "act = MaAsk (install_question release target why wanted)
      \<or> (yes \<or> aa_confirm answers (install_question release target why wanted) = Ok True)
        \<and> (act = MaInstall wanted \<or> act = MaProbe \<or> act \<in> set (snd (add_restart answers target yes probe)))"
  using assms
  by (fastforce simp: add_install_def add_check_def flow_bind_snd dest: agreed_facts split: if_splits option.splits)

lemma add_saved_acts:
  "act \<in> set (snd (add_saved answers label target saved)) \<Longrightarrow>
   act = MaSave (saved @ [saved_machine_new (aa_uuid answers) label target])
   \<and> \<not> list_ex (\<lambda>machine. sm_label machine = label) saved"
  by (auto simp: add_saved_def Let_def split: if_splits)

lemma add_known_facts:
  "snd (add_known label target saved) = []"
  "fst (add_known label target saved) = Ok () \<longleftrightarrow>
     (\<forall>machine. find (\<lambda>machine. sm_label machine = label) saved = Some machine \<longrightarrow> sm_ssh machine = target)"
  by (auto simp: add_known_def split: option.splits)

text \<open>The steps of an addition that got as far as probing the host.\<close>

lemma machine_add_flow:
  assumes "snd (machine_add release protocol answers label target yes) \<noteq> []
    \<or> fst (machine_add release protocol answers label target yes) = Ok ()"
  obtains config saved wanted ssh where "invalid_label label = None" "aa_load answers = Ok saved"
    "aa_wanted answers = Ok wanted" "aa_ssh answers config = Ok ssh" "fst (add_known label target saved) = Ok ()"
    "machine_add release protocol answers label target yes =
       flow_bind (add_probe answers target ssh) (\<lambda>probe.
       flow_bind (add_install release protocol answers label target yes wanted ssh probe) (\<lambda>_.
       flow_bind (flow_act MaStart (aa_start answers)) (\<lambda>_.
       add_saved answers label target saved)))"
proof -
  note unfolded = machine_add_def
  have known: "fst (add_known label target saved) = r \<Longrightarrow> add_known label target saved = flow_return r" for saved r
    using add_known_facts(1) [of label target saved] by (simp add: flow_return_def prod_eq_iff)
  show ?thesis
  proof (cases "invalid_label label")
    case None
    show ?thesis
    proof (cases "aa_config answers")
      case config: (Inr config)
      show ?thesis
      proof (cases "aa_load answers")
        case load: (Inr saved)
        show ?thesis
        proof (cases "fst (add_known label target saved)")
          case ok: (Inr u)
          show ?thesis
          proof (cases "aa_wanted answers"; cases "aa_ssh answers config")
            fix wanted ssh assume "aa_wanted answers = Inr wanted" "aa_ssh answers config = Inr ssh"
            then show ?thesis using that [of saved wanted config ssh] None config load ok
              by (simp add: unfolded flow_simps known [OF ok])
          qed (use assms None config load ok in \<open>auto simp: unfolded flow_simps known [OF ok]\<close>)
        next
          case (Inl e)
          with assms None config load show ?thesis by (auto simp: unfolded flow_simps known [OF Inl])
        qed
      qed (use assms None config in \<open>auto simp: unfolded flow_simps\<close>)
    qed (use assms None in \<open>auto simp: unfolded flow_simps\<close>)
  qed (use assms in \<open>auto simp: unfolded\<close>)
qed

lemma add_cases:
  assumes "(r, log) =
       flow_bind (add_probe answers target ssh) (\<lambda>probe.
       flow_bind (install probe) (\<lambda>_.
       flow_bind (flow_act MaStart (aa_start answers)) (\<lambda>_. saving)))"
  obtains (unreached) "log = [MaProbe]" "r \<noteq> Ok ()"
  | (stopped) probe where "aa_probe answers ssh = Reach_Probed probe" "log = MaProbe # snd (install probe)" "r \<noteq> Ok ()"
  | (unstarted) probe where "aa_probe answers ssh = Reach_Probed probe"
      "log = MaProbe # snd (install probe) @ [MaStart]" "r \<noteq> Ok ()"
  | (started) probe where "aa_probe answers ssh = Reach_Probed probe"
      "log = MaProbe # snd (install probe) @ MaStart # snd saving" "r = fst saving" "aa_start answers = Ok ()"
proof (cases "aa_probe answers ssh")
  case (Reach_Probed probe)
  then have add: "(r, log) = (let m = flow_bind (install probe) (\<lambda>_.
       flow_bind (flow_act MaStart (aa_start answers)) (\<lambda>_. saving)) in (fst m, MaProbe # snd m))"
    using assms by (simp add: add_probe_def flow_simps Let_def)
  show ?thesis
  proof (cases "fst (install probe)")
    case (Inl e)
    with add show ?thesis using stopped [OF Reach_Probed] by (simp add: flow_bind_def)
  next
    case (Inr u)
    show ?thesis
    proof (cases "aa_start answers")
      case (Inl e)
      with Inr add show ?thesis using unstarted [OF Reach_Probed] by (simp add: flow_bind_def flow_act_def)
    next
      case (Inr u')
      with \<open>fst (install probe) = Inr u\<close> add show ?thesis
        using started [OF Reach_Probed] by (simp add: flow_bind_def flow_act_def)
    qed
  qed
qed (use assms unreached in \<open>simp_all add: add_probe_def flow_bind_def flow_act_def\<close>)

text \<open>
  C21. Adding a machine does nothing to its host that nobody agreed to: \<open>fpk\<close> is installed there
  only if what is there differs from what this client needs, and a running server is stopped only
  after that, each only with \<open>--yes\<close> or a person's own yes to that very question; a machine is
  saved only once its server has been started, and an addition that ends well leaves the label
  saved for that very target.
\<close>

theorem nothing_is_done_unasked:
  assumes "machine_add release protocol answers label target yes = (r, log)"
  shows "(\<forall>w. MaInstall w \<in> set log \<longrightarrow> aa_wanted answers = Ok w
            \<and> (\<exists>ssh probe why. aa_probe answers ssh = Reach_Probed probe \<and> mismatch protocol w probe = Some why
                 \<and> (yes \<or> aa_confirm answers (install_question release target why w) = Ok True)))
       \<and> (MaStop \<in> set log \<longrightarrow> (\<exists>ssh probe. aa_probe answers ssh = Reach_Probed probe \<and> pb_server_running probe)
            \<and> (yes \<or> aa_confirm answers (restart_question target) = Ok True))
       \<and> (\<forall>ms. MaSave ms \<in> set log \<longrightarrow> MaStart \<in> set log \<and> aa_start answers = Ok ())
       \<and> (r = Ok () \<longrightarrow> invalid_label label = None \<and> (\<exists>saved. aa_load answers = Ok saved
            \<and> ((\<exists>machine. find (\<lambda>machine. sm_label machine = label) saved = Some machine \<and> sm_ssh machine = target)
               \<or> (\<exists>new. sm_label new = label \<and> sm_ssh new = target \<and> MaSave (saved @ [new]) \<in> set log
                    \<and> aa_save answers (saved @ [new]) = Ok ()))))"
proof (cases "log = [] \<and> r \<noteq> Ok ()")
  case False
  with assms have "snd (machine_add release protocol answers label target yes) \<noteq> []
    \<or> fst (machine_add release protocol answers label target yes) = Ok ()" by auto
  from machine_add_flow [OF this] obtain config saved wanted ssh where
    flow: "invalid_label label = None" "aa_load answers = Ok saved" "aa_wanted answers = Ok wanted"
    "fst (add_known label target saved) = Ok ()"
    and add: "(r, log) =
       flow_bind (add_probe answers target ssh) (\<lambda>probe.
       flow_bind (add_install release protocol answers label target yes wanted ssh probe) (\<lambda>_.
       flow_bind (flow_act MaStart (aa_start answers)) (\<lambda>_.
       add_saved answers label target saved)))"
    unfolding assms by metis
  have saves: "fst (add_saved answers label target saved) = Ok () \<Longrightarrow>
      (\<exists>machine. find (\<lambda>machine. sm_label machine = label) saved = Some machine \<and> sm_ssh machine = target)
      \<or> (\<exists>new. sm_label new = label \<and> sm_ssh new = target \<and> aa_save answers (saved @ [new]) = Ok ()
           \<and> MaSave (saved @ [new]) \<in> set (snd (add_saved answers label target saved)))"
    using flow(4) unfolding add_known_facts(2)
    by (cases "find (\<lambda>machine. sm_label machine = label) saved")
       (auto simp: add_saved_def Let_def find_None_iff list_ex_iff find_Some_iff saved_machine_new_def split: if_splits)
  from add show ?thesis
  proof (cases rule: add_cases)
    case unreached
    then show ?thesis by auto
  next
    case (stopped probe)
    then show ?thesis using flow
      by (auto elim!: add_install_acts dest!: add_restart_acts)
  next
    case (unstarted probe)
    then show ?thesis using flow
      by (auto elim!: add_install_acts dest!: add_restart_acts)
  next
    case (started probe)
    then have sub: "set (snd (add_saved answers label target saved)) \<subseteq> set log" by auto
    have ends: "invalid_label label = None \<and> (\<exists>saved. aa_load answers = Ok saved
        \<and> ((\<exists>machine. find (\<lambda>machine. sm_label machine = label) saved = Some machine \<and> sm_ssh machine = target)
           \<or> (\<exists>new. sm_label new = label \<and> sm_ssh new = target \<and> MaSave (saved @ [new]) \<in> set log
                \<and> aa_save answers (saved @ [new]) = Ok ())))" if "r = Ok ()"
    proof -
      have "fst (add_saved answers label target saved) = Ok ()" using that started(3) by (simp only:)
      from saves [OF this] show ?thesis using flow(1,2) sub by (elim disjE exE conjE) blast+
    qed
    have "\<forall>w. MaInstall w \<in> set log \<longrightarrow> aa_wanted answers = Ok w
            \<and> (\<exists>ssh probe why. aa_probe answers ssh = Reach_Probed probe \<and> mismatch protocol w probe = Some why
                 \<and> (yes \<or> aa_confirm answers (install_question release target why w) = Ok True))"
      using started flow by (auto elim!: add_install_acts dest!: add_restart_acts add_saved_acts)
    moreover have "MaStop \<in> set log \<longrightarrow> (\<exists>ssh probe. aa_probe answers ssh = Reach_Probed probe \<and> pb_server_running probe)
            \<and> (yes \<or> aa_confirm answers (restart_question target) = Ok True)"
      using started flow by (auto elim!: add_install_acts dest!: add_restart_acts add_saved_acts)
    ultimately show ?thesis using ends started by auto
  qed
qed auto

text \<open>A host with nothing installed, and a person who agrees.\<close>

definition example_ssh :: ssh where
  "example_ssh = \<lparr>sh_program = ''ssh'', sh_target = ''box'', sh_options = []\<rparr>"

definition example_probe :: "bool \<Rightarrow> probe" where
  "example_probe installed = \<lparr>pb_installed = installed, pb_version = ''1'', pb_client_protocol = 3,
     pb_build = ''release'', pb_source_hash = None, pb_server_running = False\<rparr>"

definition example_answers :: "bool \<Rightarrow> add_answers" where
  "example_answers says = \<lparr>aa_config = Ok client_config_default, aa_load = Ok [], aa_wanted = Ok (Wanted_Release ''1''),
     aa_ssh = (\<lambda>_. Ok example_ssh), aa_probe = (\<lambda>_. Reach_Probed (example_probe False)), aa_confirm = (\<lambda>_. Ok says),
     aa_install = Ok (), aa_stop = Ok \<lparr>es_code = Some 0, es_text = []\<rparr>,
     aa_probe_after = (\<lambda>_. Reach_Probed (example_probe True)), aa_start = Ok (), aa_uuid = ''0123456789'',
     aa_save = (\<lambda>_. Ok ())\<rparr>"

lemma example_add:
  "machine_add True 3 (example_answers True) ''box'' ''me@box'' False =
     (Ok (), [MaProbe, MaAsk (install_question True ''me@box'' ''nothing is installed'' (Wanted_Release ''1'')),
              MaInstall (Wanted_Release ''1''), MaProbe, MaStart, MaSave [saved_machine_new ''0123456789'' ''box'' ''me@box'']])"
  by code_simp

theorem nothing_is_done_unasked_witness:
  "\<exists>log. machine_add True 3 (example_answers True) ''box'' ''me@box'' False = (Ok (), log)
     \<and> MaInstall (Wanted_Release ''1'') \<in> set log
     \<and> aa_confirm (example_answers True) (install_question True ''me@box'' ''nothing is installed'' (Wanted_Release ''1'')) = Ok True
     \<and> invalid_label ''box'' = None"
proof -
  have "aa_confirm (example_answers True) question = Ok True" for question by (simp add: example_answers_def)
  moreover from nothing_is_done_unasked [OF example_add] have "invalid_label ''box'' = None" by blast
  ultimately show ?thesis unfolding example_add by simp
qed

end
