(* ===== verification/Connection.thy ===== *)
theory Connection
  imports Watch Machines
begin

text \<open>
  \<open>src/tui/connection.rs\<close>: one machine's connection, which attaches, holds the stream, and
  reconnects with a growing delay; and the terminal client it serves, which shows its events and
  sends it commands through a queue of four. A step is what lies between two awaits; what an
  attempt to attach and a process answer, the clock and the user are the environment.
\<close>

section \<open>Delays\<close>

definition DURATION_MAX :: duration where
  "DURATION_MAX = (2 ^ 64 - 1) * 10 ^ 9 + 999999999"

definition U32_MAX :: nat where "U32_MAX = 2 ^ 32 - 1"

record backoff =
  bo_base :: duration
  bo_max :: duration

definition BACKOFF_DEFAULT :: backoff where
  "BACKOFF_DEFAULT = \<lparr>bo_base = 1 * 10 ^ 9, bo_max = 120 * 10 ^ 9\<rparr>"

definition backoff_delay :: "backoff \<Rightarrow> nat \<Rightarrow> duration" where
  "backoff_delay self attempt =
     (let factor = if attempt < 32 then 2 ^ attempt else U32_MAX in
      min (min (bo_base self * factor) DURATION_MAX) (bo_max self))"

section \<open>Attaching\<close>

datatype target = Target_Local | Target_Remote ssh

datatype lost = Lost_Retry "bytes option" | Lost_Attention attention

definition client_error_text :: "(status \<Rightarrow> bytes) \<Rightarrow> client_error \<Rightarrow> bytes" where
  "client_error_text show_status e =
     (case e of
        CE_Io context error \<Rightarrow> context @ '': '' @ io_text error
      | CE_Unstartable why \<Rightarrow> ''cannot start a server here: '' @ why
      | CE_StartTimeout log \<Rightarrow> ''the server did not start within 5s; see '' @ log
      | CE_Incompatible why \<Rightarrow>
          ''the server refused to attach: '' @ why @ ''; stop it with `fpk server stop` and run this again''
      | CE_Handshake status \<Rightarrow> ''the server failed the handshake: '' @ show_status status
      | CE_Transport error \<Rightarrow> ''cannot open the client protocol channel: '' @ error)"

text \<open>What answers: the local server, the probe, the bridge's channel, and the handshake over it.\<close>

record attach_answers =
  an_watch :: "(client_error, attached) result"
  an_reach :: reach
  an_channel :: "(client_error, unit) result"
  an_watch_on :: "(client_error, attached) result"

definition conn_attach ::
  "(status \<Rightarrow> bytes) \<Rightarrow> target \<Rightarrow> attach_answers \<Rightarrow> (lost, attached) result" where
  "conn_attach show_status target answers =
     (let retry = (\<lambda>error. Lost_Retry (Some (client_error_text show_status error))) in
      case target of
        Target_Local \<Rightarrow> map_err (\<lambda>_. Lost_Retry None) (an_watch answers)
      | Target_Remote ssh \<Rightarrow>
          (case an_reach answers of
             Reach_NeedsLogin _ \<Rightarrow> Err (Lost_Attention NeedsLogin)
           | Reach_Unreachable why \<Rightarrow> Err (Lost_Retry (Some why))
           | Reach_Probed probe \<Rightarrow>
               if \<not> pb_installed probe then Err (Lost_Attention NotInstalled)
               else if pb_client_protocol probe \<noteq> CLIENT_PROTOCOL
               then Err (Lost_Attention (Incompatible (probe_describe probe)))
               else if \<not> pb_server_running probe then Err (Lost_Retry (Some ''its server is not running''))
               else bind_result (map_err retry (an_channel answers)) (\<lambda>_. map_err retry (an_watch_on answers))))"

section \<open>The connection\<close>

datatype conn_phase =
    Cn_Top
  | Cn_Attaching
  | Cn_Watching
  | Cn_Lost lost
  | Cn_Waiting
  | Cn_Starting
  | Cn_Sending connection_event conn_phase   \<comment> \<open>awaiting room for the event, then on\<close>
  | Cn_Returned

text \<open>What happened, for the properties: nothing in the code reads it.\<close>

datatype mark =
    Mk_Pressed
  | Mk_Attached
  | Mk_Lost instant duration
  | Mk_Start

record conn =
  cn_attempt :: nat
  cn_phase :: conn_phase
  cn_sent :: "connection_event list"
  cn_commands :: "command list"
  cn_marks :: "mark list"

definition conn_new :: conn where
  "conn_new = \<lparr>cn_attempt = 0, cn_phase = Cn_Top, cn_sent = [], cn_commands = [], cn_marks = []\<rparr>"

definition lost_event :: "instant \<Rightarrow> lost \<Rightarrow> connection_event" where
  "lost_event retry_at lost =
     (case lost of
        Lost_Retry reason \<Rightarrow> CE_Disconnected retry_at reason
      | Lost_Attention attention \<Rightarrow> CE_NeedsAttention attention retry_at)"

definition conn_lose :: "backoff \<Rightarrow> lost \<Rightarrow> instant \<Rightarrow> conn \<Rightarrow> conn" where
  "conn_lose backoff lost now c =
     (let delay = backoff_delay backoff (cn_attempt c) in
      c\<lparr>cn_attempt := min (cn_attempt c + 1) U32_MAX,
        cn_phase := Cn_Sending (lost_event (now + delay) lost) Cn_Waiting,
        cn_marks := cn_marks c @ [Mk_Lost now delay]\<rparr>)"

inductive conn_step :: "(status \<Rightarrow> bytes) \<Rightarrow> target \<Rightarrow> backoff \<Rightarrow> conn \<Rightarrow> conn \<Rightarrow> bool"
  for show_status :: "status \<Rightarrow> bytes" and target :: target and backoff :: backoff where
  cs_top: "cn_phase c = Cn_Top \<Longrightarrow>
    conn_step show_status target backoff c (c\<lparr>cn_phase := Cn_Sending CE_Attaching Cn_Attaching\<rparr>)"
| cs_send: "cn_phase c = Cn_Sending event next \<Longrightarrow>
    conn_step show_status target backoff c (c\<lparr>cn_sent := cn_sent c @ [event], cn_phase := next\<rparr>)"
| cs_attached: "cn_phase c = Cn_Attaching \<Longrightarrow> conn_attach show_status target answers = Ok attached \<Longrightarrow>
    conn_step show_status target backoff c
      (c\<lparr>cn_attempt := 0, cn_marks := cn_marks c @ [Mk_Attached],
         cn_phase := Cn_Sending (CE_Attached (at_server_version attached) (at_pid attached)) Cn_Watching\<rparr>)"
| cs_failed: "cn_phase c = Cn_Attaching \<Longrightarrow> conn_attach show_status target answers = Err lost \<Longrightarrow>
    conn_step show_status target backoff c (c\<lparr>cn_phase := Cn_Lost lost\<rparr>)"
| cs_update: "cn_phase c = Cn_Watching \<Longrightarrow>
    conn_step show_status target backoff c (c\<lparr>cn_phase := Cn_Sending (CE_Tasks update) Cn_Watching\<rparr>)"
| cs_ended: "cn_phase c = Cn_Watching \<Longrightarrow>
    conn_step show_status target backoff c (c\<lparr>cn_phase := Cn_Lost (Lost_Retry None)\<rparr>)"
| cs_lost: "cn_phase c = Cn_Lost lost \<Longrightarrow>
    conn_step show_status target backoff c (conn_lose backoff lost now c)"
| cs_slept: "cn_phase c = Cn_Waiting \<Longrightarrow>
    conn_step show_status target backoff c (c\<lparr>cn_phase := Cn_Top\<rparr>)"
| cs_command: "cn_phase c = Cn_Waiting \<Longrightarrow> cn_commands c = StartServer # rest \<Longrightarrow>
    conn_step show_status target backoff c
      (c\<lparr>cn_commands := rest, cn_phase := Cn_Sending CE_Starting Cn_Starting\<rparr>)"
| cs_start: "cn_phase c = Cn_Starting \<Longrightarrow>
    conn_step show_status target backoff c
      (c\<lparr>cn_attempt := 0, cn_phase := Cn_Top, cn_marks := cn_marks c @ [Mk_Start]\<rparr>)"
| cs_gone: "cn_phase c \<in> {Cn_Watching, Cn_Waiting} \<or> (\<exists>event next. cn_phase c = Cn_Sending event next) \<Longrightarrow>
    conn_step show_status target backoff c (c\<lparr>cn_phase := Cn_Returned\<rparr>)"

section \<open>The client beside it\<close>

definition COMMANDS_HELD :: nat where "COMMANDS_HELD = 4"

record session =
  ss_conn :: conn
  ss_app :: app
  ss_shown :: nat

definition session_new :: session where
  "session_new = \<lparr>ss_conn = conn_new, ss_app = app_new [], ss_shown = 0\<rparr>"

text \<open>\<open>try_send\<close>: dropped when the queue is full.\<close>

definition send_command :: "command option \<Rightarrow> conn \<Rightarrow> conn" where
  "send_command cmd c =
     (case cmd of
        None \<Rightarrow> c
      | Some cmd \<Rightarrow>
          if length (cn_commands c) < COMMANDS_HELD
          then c\<lparr>cn_commands := cn_commands c @ [cmd], cn_marks := cn_marks c @ [Mk_Pressed]\<rparr>
          else c)"

inductive session_step :: "(status \<Rightarrow> bytes) \<Rightarrow> target \<Rightarrow> backoff \<Rightarrow> session \<Rightarrow> session \<Rightarrow> bool"
  for show_status :: "status \<Rightarrow> bytes" and target :: target and backoff :: backoff where
  ss_connection: "conn_step show_status target backoff (ss_conn s) c \<Longrightarrow>
    session_step show_status target backoff s (s\<lparr>ss_conn := c\<rparr>)"
| ss_show: "ss_shown s < length (cn_sent (ss_conn s)) \<Longrightarrow>
    session_step show_status target backoff s
      (s\<lparr>ss_shown := ss_shown s + 1,
         ss_app := on_connection_at 0 (cn_sent (ss_conn s) ! ss_shown s) now (ss_app s)\<rparr>)"
| ss_key: "on_key key (ss_app s) = (cmd, app) \<Longrightarrow>
    session_step show_status target backoff s (s\<lparr>ss_app := app, ss_conn := send_command cmd (ss_conn s)\<rparr>)"
| ss_mouse: "on_mouse kind spot column row (ss_app s) = (cmd, app) \<Longrightarrow>
    session_step show_status target backoff s (s\<lparr>ss_app := app, ss_conn := send_command cmd (ss_conn s)\<rparr>)"
| ss_tick: "session_step show_status target backoff s (s\<lparr>ss_app := expire now (ss_app s)\<rparr>)"

inductive session_reachable :: "(status \<Rightarrow> bytes) \<Rightarrow> target \<Rightarrow> backoff \<Rightarrow> session \<Rightarrow> bool"
  for show_status :: "status \<Rightarrow> bytes" and target :: target and backoff :: backoff where
  session_reachable_new: "session_reachable show_status target backoff session_new"
| session_reachable_step: "session_reachable show_status target backoff s \<Longrightarrow>
    session_step show_status target backoff s s' \<Longrightarrow> session_reachable show_status target backoff s'"

section \<open>What is on purpose, and how long the waits are\<close>

definition presses :: "mark list \<Rightarrow> nat" where "presses marks = count_list marks Mk_Pressed"
definition starts :: "mark list \<Rightarrow> nat" where "starts marks = count_list marks Mk_Start"

text \<open>How many times in a row the machine was lost.\<close>

definition failures :: "mark list \<Rightarrow> nat" where
  "failures marks = fold (\<lambda>m n. case m of Mk_Lost _ _ \<Rightarrow> n + 1 | Mk_Pressed \<Rightarrow> n | Mk_Attached \<Rightarrow> 0 | Mk_Start \<Rightarrow> 0) marks 0"

lemma marks_simps [simp]:
  "presses [] = 0" "starts [] = 0" "failures [] = 0"
  "presses (marks @ [m]) = presses marks + (if m = Mk_Pressed then 1 else 0)"
  "starts (marks @ [m]) = starts marks + (if m = Mk_Start then 1 else 0)"
  "failures (marks @ [Mk_Pressed]) = failures marks"
  "failures (marks @ [Mk_Attached]) = 0"
  "failures (marks @ [Mk_Lost now delay]) = failures marks + 1"
  "failures (marks @ [Mk_Start]) = 0"
  by (simp_all add: presses_def starts_def failures_def)

fun owed :: "conn_phase \<Rightarrow> nat" where
  "owed Cn_Starting = 1"
| "owed (Cn_Sending event next) = owed next"
| "owed _ = 0"

definition paid :: "mark list \<Rightarrow> bool" where
  "paid marks \<longleftrightarrow> (\<forall>k. starts (take k marks) \<le> presses (take k marks))"

definition delays_ok :: "backoff \<Rightarrow> mark list \<Rightarrow> bool" where
  "delays_ok backoff marks \<longleftrightarrow> (\<forall>before now delay rest. marks = before @ Mk_Lost now delay # rest \<longrightarrow>
     delay = backoff_delay backoff (min (failures before) U32_MAX))"

lemma paid_snoc: "paid (marks @ [m]) \<longleftrightarrow> paid marks \<and> starts (marks @ [m]) \<le> presses (marks @ [m])"
proof -
  have "take k (marks @ [m]) = (if k \<le> length marks then take k marks else marks @ [m])" for k
    by (simp add: take_Cons' split: nat.split)
  then show ?thesis unfolding paid_def by (metis le_refl not_less_eq_eq nle_le take_all)
qed

lemma delays_snoc: "delays_ok backoff (marks @ [m]) \<longleftrightarrow> delays_ok backoff marks
   \<and> (\<forall>now delay. m = Mk_Lost now delay \<longrightarrow> delay = backoff_delay backoff (min (failures marks) U32_MAX))"
proof -
  have "marks @ [m] = before @ Mk_Lost now delay # rest \<longleftrightarrow>
      (rest = [] \<and> marks = before \<and> m = Mk_Lost now delay)
      \<or> (\<exists>most. rest = most @ [m] \<and> marks = before @ Mk_Lost now delay # most)" for before now delay rest
    by (cases rest rule: rev_cases) auto
  then show ?thesis unfolding delays_ok_def by metis
qed

definition conn_inv :: "backoff \<Rightarrow> conn \<Rightarrow> bool" where
  "conn_inv backoff c \<longleftrightarrow> paid (cn_marks c)
     \<and> starts (cn_marks c) + owed (cn_phase c) + length (cn_commands c) \<le> presses (cn_marks c)
     \<and> cn_attempt c = min (failures (cn_marks c)) U32_MAX \<and> delays_ok backoff (cn_marks c)"

lemma owed_le: "owed phase \<le> 1"
  by (induction phase) auto

lemma conn_inv_step: "conn_step show_status target backoff c c' \<Longrightarrow> conn_inv backoff c \<Longrightarrow> conn_inv backoff c'"
  by (induction rule: conn_step.induct)
     (auto simp: conn_inv_def paid_snoc delays_snoc conn_lose_def Let_def)

lemma conn_inv_send: "conn_inv backoff c \<Longrightarrow> conn_inv backoff (send_command cmd c)"
  by (cases cmd) (auto simp: conn_inv_def send_command_def paid_snoc delays_snoc)

lemma session_inv: "session_reachable show_status target backoff s \<Longrightarrow> conn_inv backoff (ss_conn s)"
proof (induction rule: session_reachable.induct)
  case session_reachable_new
  then show ?case by (simp add: session_new_def conn_inv_def conn_new_def paid_def delays_ok_def)
next
  case (session_reachable_step s s')
  from session_reachable_step(2,3) show ?case
    by (cases rule: session_step.cases) (auto intro: conn_inv_step conn_inv_send)
qed

lemma backoff_delay_max: "backoff_delay backoff attempt \<le> bo_max backoff"
  by (simp add: backoff_delay_def Let_def)

lemma backoff_delay_mono: "i \<le> j \<Longrightarrow> backoff_delay backoff i \<le> backoff_delay backoff j"
proof -
  assume le: "i \<le> j"
  let ?factor = "\<lambda>n. if n < 32 then 2 ^ n else U32_MAX"
  have "?factor i \<le> ?factor j"
  proof (cases "i < 32 \<and> 32 \<le> j")
    case True
    then have "(2::nat) ^ i \<le> 2 ^ 31" by (intro power_increasing) auto
    also have "\<dots> \<le> U32_MAX" by (simp add: U32_MAX_def)
    finally show ?thesis using True by simp
  qed (use le in \<open>auto intro: power_increasing\<close>)
  then show ?thesis unfolding backoff_delay_def Let_def by (intro min.mono mult_le_mono2 order_refl)
qed

text \<open>
  C17. A machine's server is started only on purpose: in every run of a terminal client and a
  connection, however they interleave, no moment has seen more servers started than start
  commands pressed by then.
\<close>

theorem starts_are_pressed:
  assumes "session_reachable show_status target backoff s"
  shows "starts (take k (cn_marks (ss_conn s))) \<le> presses (take k (cn_marks (ss_conn s)))
    \<and> length (filter (\<lambda>cmd. cmd = StartServer) (cn_commands (ss_conn s))) + starts (cn_marks (ss_conn s))
        \<le> presses (cn_marks (ss_conn s))"
proof -
  have inv: "conn_inv backoff (ss_conn s)" by (rule session_inv [OF assms])
  have "filter (\<lambda>cmd. cmd = StartServer) cmds = cmds" for cmds by (induction cmds) (auto intro: command.exhaust)
  with inv show ?thesis by (auto simp: conn_inv_def paid_def)
qed

text \<open>
  Reconnecting backs off: each time a machine is lost the wait is the one the number of
  losses in a row sets - never longer than the longest allowed, never shorter than the wait
  before it, exactly doubled until the longest is reached - and a successful attach or a started
  server begins again with the shortest.
\<close>

theorem reconnects_back_off:
  assumes "session_reachable show_status target backoff s"
    and "cn_marks (ss_conn s) = before @ Mk_Lost now delay # rest"
  shows "delay = backoff_delay backoff (min (failures before) U32_MAX) \<and> delay \<le> bo_max backoff
    \<and> (\<forall>n < failures before. backoff_delay backoff (min n U32_MAX) \<le> delay)
    \<and> (failures before < 32 \<and> bo_base backoff * 2 ^ failures before \<le> min DURATION_MAX (bo_max backoff) \<longrightarrow>
         delay = bo_base backoff * 2 ^ failures before)"
proof -
  have delay: "delay = backoff_delay backoff (min (failures before) U32_MAX)"
    using session_inv [OF assms(1)] assms(2) unfolding conn_inv_def delays_ok_def by blast
  moreover have "backoff_delay backoff (min (failures before) U32_MAX) = bo_base backoff * 2 ^ failures before"
    if "failures before < 32" "bo_base backoff * 2 ^ failures before \<le> min DURATION_MAX (bo_max backoff)"
    using that by (simp add: backoff_delay_def Let_def U32_MAX_def)
  moreover have "backoff_delay backoff (min n U32_MAX) \<le> delay" if "n < failures before" for n
    using that delay backoff_delay_mono [of "min n U32_MAX" "min (failures before) U32_MAX" backoff] by simp
  ultimately show ?thesis using backoff_delay_max by blast
qed

end
