(* ===== verification/ConnectionRun.thy ===== *)
theory ConnectionRun
  imports Connection
begin

text \<open>
  What a connection says, in order, and what its client shows; and schedules of the two,
  executed, for the runs the properties speak of.
\<close>

section \<open>The order of events\<close>

definition next_shown :: "connection_event \<Rightarrow> machine_state \<Rightarrow> machine_state" where
  "next_shown event state = (case state_of_event event of None \<Rightarrow> state | Some state' \<Rightarrow> state')"

fun event_ok :: "machine_state \<Rightarrow> connection_event \<Rightarrow> bool" where
  "event_ok MS_Starting CE_Attaching = True"
| "event_ok MS_Attaching (CE_Attached _ _) = True"
| "event_ok MS_Attaching (CE_Disconnected _ _) = True"
| "event_ok MS_Attaching (CE_NeedsAttention _ _) = True"
| "event_ok (MS_Attached _ _) (CE_Tasks _) = True"
| "event_ok (MS_Attached _ _) (CE_Disconnected _ None) = True"
| "event_ok (MS_Disconnected _ _) CE_Attaching = True"
| "event_ok (MS_Disconnected _ _) CE_Starting = True"
| "event_ok (MS_NeedsAttention _ _) CE_Attaching = True"
| "event_ok (MS_NeedsAttention _ _) CE_Starting = True"
| "event_ok _ _ = False"

text \<open>Before its first event a connection may only begin, as after a start.\<close>

definition said_state :: "connection_event list \<Rightarrow> machine_state" where
  "said_state events = fold next_shown events MS_Starting"

definition events_ok :: "connection_event list \<Rightarrow> bool" where
  "events_ok events \<longleftrightarrow> (\<forall>k < length events. event_ok (said_state (take k events)) (events ! k))"

lemma said_state_simps [simp]:
  "said_state [] = MS_Starting" "said_state (events @ [event]) = next_shown event (said_state events)"
  by (simp_all add: said_state_def)

lemma events_ok_snoc: "events_ok (events @ [event]) \<longleftrightarrow> events_ok events \<and> event_ok (said_state events) event"
  by (auto simp: events_ok_def less_Suc_eq nth_append)

fun phase_ok :: "machine_state \<Rightarrow> conn_phase \<Rightarrow> bool" where
  "phase_ok state Cn_Top \<longleftrightarrow> event_ok state CE_Attaching"
| "phase_ok state Cn_Attaching \<longleftrightarrow> state = MS_Attaching"
| "phase_ok state Cn_Watching \<longleftrightarrow> (\<exists>version pid. state = MS_Attached version pid)"
| "phase_ok state (Cn_Lost lost) \<longleftrightarrow>
     state = MS_Attaching \<or> (\<exists>version pid. state = MS_Attached version pid) \<and> lost = Lost_Retry None"
| "phase_ok state Cn_Waiting \<longleftrightarrow> event_ok state CE_Starting"
| "phase_ok state Cn_Starting \<longleftrightarrow> state = MS_Starting"
| "phase_ok state (Cn_Sending event next) \<longleftrightarrow> event_ok state event \<and> phase_ok (next_shown event state) next"
| "phase_ok state Cn_Returned \<longleftrightarrow> True"

lemma starting_attaching: "event_ok state CE_Starting \<Longrightarrow> event_ok state CE_Attaching"
  by (cases state) auto

definition story :: "conn \<Rightarrow> bool" where
  "story c \<longleftrightarrow> events_ok (cn_sent c) \<and> phase_ok (said_state (cn_sent c)) (cn_phase c)"

lemma story_step: "conn_step show_status target backoff c c' \<Longrightarrow> story c \<Longrightarrow> story c'"
  by (induction rule: conn_step.induct)
     (auto simp: story_def events_ok_snoc conn_lose_def Let_def lost_event_def next_shown_def
       starting_attaching split: lost.splits)

lemma story_send [simp]: "story (send_command cmd c) = story c" "cn_sent (send_command cmd c) = cn_sent c"
  by (auto simp: story_def send_command_def split: option.splits)

definition shown_ok :: "session \<Rightarrow> bool" where
  "shown_ok s \<longleftrightarrow> ss_shown s \<le> length (cn_sent (ss_conn s)) \<and> length (ap_machines (ss_app s)) = 1
     \<and> mc_state (ap_machines (ss_app s) ! 0) = fold next_shown (take (ss_shown s) (cn_sent (ss_conn s))) MS_Attaching"

lemma machine_event_state: "mc_state (machine_event event now m) = next_shown event (mc_state m)"
  by (cases event)
     (auto simp: machine_event_def next_shown_def apply_update_def expire_machine_def Let_def
       split: task_update.splits prod.splits)

lemma expire_state [simp]: "mc_state (expire_machine now m) = mc_state m"
  by (simp add: expire_machine_def Let_def)

lemma on_key_machines: "ap_machines (snd (on_key key a)) = ap_machines a"
  by (simp add: on_key_def select_next_def select_previous_def)

lemma open_menu_machines: "ap_machines (open_menu whose column row a) = ap_machines a"
  by (simp add: open_menu_def Let_def split: menu_of.splits)

lemma on_mouse_machines: "ap_machines (snd (on_mouse kind spot column row a)) = ap_machines a"
  by (simp add: on_mouse_def Let_def open_menu_machines select_next_def select_previous_def
      split: option.splits mouse_event_kind.splits mouse_button.splits spot.splits hint.splits)

lemma conn_sent_grows: "conn_step show_status target backoff c c' \<Longrightarrow> \<exists>new. cn_sent c' = cn_sent c @ new"
  by (induction rule: conn_step.induct) (auto simp: conn_lose_def Let_def)

lemma shown_step:
  assumes "session_step show_status target backoff s s'" and "shown_ok s"
  shows "shown_ok s'"
  using assms
proof cases
  case (ss_connection c)
  from conn_sent_grows [OF ss_connection(2)] obtain new where "cn_sent c = cn_sent (ss_conn s) @ new" by blast
  with assms(2) ss_connection show ?thesis by (auto simp: shown_ok_def)
next
  case (ss_show now)
  with assms(2) show ?thesis
    by (auto simp: shown_ok_def on_connection_at_def machine_event_state take_Suc_conv_app_nth)
next
  case (ss_key key cmd app)
  with assms(2) on_key_machines [of key "ss_app s"] show ?thesis by (auto simp: shown_ok_def)
next
  case (ss_mouse kind spot column row cmd app)
  with assms(2) on_mouse_machines [of kind spot column row "ss_app s"] show ?thesis by (auto simp: shown_ok_def)
next
  case (ss_tick now)
  with assms(2) show ?thesis by (auto simp: shown_ok_def expire_def)
qed

lemma session_story: "session_reachable show_status target backoff s \<Longrightarrow> story (ss_conn s) \<and> shown_ok s"
proof (induction rule: session_reachable.induct)
  case session_reachable_new
  then show ?case
    by (simp add: session_new_def story_def conn_new_def events_ok_def shown_ok_def app_new_def machine_new_def)
next
  case (session_reachable_step s s')
  then have "shown_ok s'" using shown_step by blast
  moreover from session_reachable_step(2,3) have "story (ss_conn s')"
    by (cases rule: session_step.cases) (auto intro: story_step)
  ultimately show ?case by blast
qed

text \<open>
  C18. A connection tells a story that makes sense, and the client shows it: every event is one
  that can follow those before it - tasks only while attached, an attachment only after trying,
  a start only of a machine that was lost - what is on screen is what the last event shown said,
  and a client that has seen them all while the connection waits for a command offers a start
  exactly where pressing it is heard.
\<close>

theorem connection_tells_a_story:
  assumes "session_reachable show_status target backoff s"
  shows "(\<forall>k < length (cn_sent (ss_conn s)).
            event_ok (said_state (take k (cn_sent (ss_conn s)))) (cn_sent (ss_conn s) ! k))
    \<and> mc_state (ap_machines (ss_app s) ! 0) =
        fold next_shown (take (ss_shown s) (cn_sent (ss_conn s))) MS_Attaching
    \<and> (cn_phase (ss_conn s) = Cn_Waiting \<longrightarrow> event_ok (said_state (cn_sent (ss_conn s))) CE_Starting)"
  using session_story [OF assms] by (auto simp: story_def events_ok_def shown_ok_def)

section \<open>Schedules\<close>

datatype session_action =
    SA_Top | SA_Send | SA_Attach attach_answers | SA_End | SA_Lost instant | SA_Slept | SA_Command | SA_Start
  | SA_Show instant | SA_Key key_event

definition conn_act :: "(status \<Rightarrow> bytes) \<Rightarrow> target \<Rightarrow> backoff \<Rightarrow> session_action \<Rightarrow> conn \<Rightarrow> conn option" where
  "conn_act show_status target backoff a c =
     (case (a, cn_phase c) of
        (SA_Top, Cn_Top) \<Rightarrow> Some (c\<lparr>cn_phase := Cn_Sending CE_Attaching Cn_Attaching\<rparr>)
      | (SA_Send, Cn_Sending event next) \<Rightarrow> Some (c\<lparr>cn_sent := cn_sent c @ [event], cn_phase := next\<rparr>)
      | (SA_Attach answers, Cn_Attaching) \<Rightarrow>
          (case conn_attach show_status target answers of
             Inr attached \<Rightarrow>
               Some (c\<lparr>cn_attempt := 0, cn_marks := cn_marks c @ [Mk_Attached],
                 cn_phase := Cn_Sending (CE_Attached (at_server_version attached) (at_pid attached)) Cn_Watching\<rparr>)
           | Inl lost \<Rightarrow> Some (c\<lparr>cn_phase := Cn_Lost lost\<rparr>))
      | (SA_End, Cn_Watching) \<Rightarrow> Some (c\<lparr>cn_phase := Cn_Lost (Lost_Retry None)\<rparr>)
      | (SA_Lost now, Cn_Lost lost) \<Rightarrow> Some (conn_lose backoff lost now c)
      | (SA_Slept, Cn_Waiting) \<Rightarrow> Some (c\<lparr>cn_phase := Cn_Top\<rparr>)
      | (SA_Command, Cn_Waiting) \<Rightarrow>
          (case cn_commands c of
             [] \<Rightarrow> None
           | cmd # rest \<Rightarrow> Some (c\<lparr>cn_commands := rest, cn_phase := Cn_Sending CE_Starting Cn_Starting\<rparr>))
      | (SA_Start, Cn_Starting) \<Rightarrow>
          Some (c\<lparr>cn_attempt := 0, cn_phase := Cn_Top, cn_marks := cn_marks c @ [Mk_Start]\<rparr>)
      | _ \<Rightarrow> None)"

lemma conn_act_step: "conn_act show_status target backoff a c = Some c' \<Longrightarrow> conn_step show_status target backoff c c'"
proof (cases "a = SA_Command")
  case True
  assume "conn_act show_status target backoff a c = Some c'"
  with True show ?thesis
    by (auto simp: conn_act_def intro: conn_step.intros split: conn_phase.splits list.splits)
       (metis command.exhaust cs_command)
qed (auto simp: conn_act_def intro: conn_step.intros
      split: session_action.splits conn_phase.splits sum.splits list.splits)

definition session_act ::
  "(status \<Rightarrow> bytes) \<Rightarrow> target \<Rightarrow> backoff \<Rightarrow> session_action \<Rightarrow> session \<Rightarrow> session option" where
  "session_act show_status target backoff a s =
     (case a of
        SA_Show now \<Rightarrow>
          (if ss_shown s < length (cn_sent (ss_conn s))
           then Some (s\<lparr>ss_shown := ss_shown s + 1,
                        ss_app := on_connection_at 0 (cn_sent (ss_conn s) ! ss_shown s) now (ss_app s)\<rparr>)
           else None)
      | SA_Key key \<Rightarrow>
          (case on_key key (ss_app s) of
             (cmd, app) \<Rightarrow> Some (s\<lparr>ss_app := app, ss_conn := send_command cmd (ss_conn s)\<rparr>))
      | _ \<Rightarrow> map_option (\<lambda>c. s\<lparr>ss_conn := c\<rparr>) (conn_act show_status target backoff a (ss_conn s)))"

lemma session_act_step:
  "session_act show_status target backoff a s = Some s' \<Longrightarrow> session_step show_status target backoff s s'"
  by (cases a) (auto simp: session_act_def intro: session_step.intros ss_show [simplified] conn_act_step
      split: if_splits prod.splits)

fun session_run ::
  "(status \<Rightarrow> bytes) \<Rightarrow> target \<Rightarrow> backoff \<Rightarrow> session_action list \<Rightarrow> session \<Rightarrow> session option" where
  "session_run show_status target backoff [] s = Some s"
| "session_run show_status target backoff (a # as) s =
     (case session_act show_status target backoff a s of
        None \<Rightarrow> None
      | Some s' \<Rightarrow> session_run show_status target backoff as s')"

lemma session_run_reachable:
  "session_reachable show_status target backoff s \<Longrightarrow> session_run show_status target backoff as s = Some s' \<Longrightarrow>
   session_reachable show_status target backoff s'"
  by (induction "as" arbitrary: s) (auto split: option.splits dest: session_act_step intro: session_reachable_step)

definition press :: "char \<Rightarrow> session_action" where
  "press c = SA_Key \<lparr>ke_code = KC_Char c, ke_control = False, ke_kind = Press\<rparr>"

definition answers_with :: "(client_error, attached) result \<Rightarrow> session_action" where
  "answers_with r = SA_Attach \<lparr>an_watch = r, an_reach = Reach_Unreachable [], an_channel = Ok (), an_watch_on = r\<rparr>"

definition tries :: "(client_error, attached) result \<Rightarrow> session_action list" where
  "tries r = [SA_Top, SA_Send, SA_Show 0, answers_with r]"

definition loses :: "session_action list" where
  "loses = [SA_Lost 0, SA_Send, SA_Show 0]"

definition starts_it :: "session_action list" where
  "starts_it = [SA_Command, SA_Send, SA_Show 0, SA_Start]"

text \<open>
  The server is not running; the user presses \<open>s\<close> twice; it starts and the client attaches. Later
  the user stops it from elsewhere.
\<close>

definition stale_start :: "session_action list" where
  "stale_start = tries (Err (CE_Transport [])) @ loses @ [press CHR ''s'', press CHR ''s''] @ starts_it
     @ tries (Ok \<lparr>at_server_version = ''1'', at_pid = 7, at_started = False\<rparr>) @ [SA_Send, SA_Show 0]
     @ [SA_End] @ loses @ starts_it"

lemma stale_run:
  "case session_run (\<lambda>_. []) Target_Local BACKOFF_DEFAULT stale_start session_new of
     None \<Rightarrow> False
   | Some s \<Rightarrow> cn_marks (ss_conn s) = [Mk_Lost 0 1000000000, Mk_Pressed, Mk_Pressed, Mk_Start, Mk_Attached,
       Mk_Lost 0 1000000000, Mk_Start]"
  by code_simp

text \<open>
  C28. A start can be stale: a second press of \<open>s\<close> while the machine is shown disconnected waits
  in the queue, is not dropped when the client attaches, and starts a server again as soon as the
  user has stopped the one it attached to - with nothing pressed since then.
\<close>

theorem a_stale_start_is_served:
  "\<exists>s before between. session_reachable (\<lambda>_. []) Target_Local BACKOFF_DEFAULT s
     \<and> cn_marks (ss_conn s) = before @ Mk_Attached # between @ [Mk_Start]
     \<and> Mk_Pressed \<notin> set between \<and> Mk_Lost 0 1000000000 \<in> set between"
proof -
  obtain s where s: "session_run (\<lambda>_. []) Target_Local BACKOFF_DEFAULT stale_start session_new = Some s"
    "cn_marks (ss_conn s) = [Mk_Lost 0 1000000000, Mk_Pressed, Mk_Pressed, Mk_Start, Mk_Attached,
       Mk_Lost 0 1000000000, Mk_Start]"
    using stale_run by (auto split: option.splits)
  moreover have "session_reachable (\<lambda>_. []) Target_Local BACKOFF_DEFAULT s"
    by (rule session_run_reachable [OF session_reachable_new s(1)])
  moreover have "cn_marks (ss_conn s) = [Mk_Lost 0 1000000000, Mk_Pressed, Mk_Pressed, Mk_Start]
      @ Mk_Attached # [Mk_Lost 0 1000000000] @ [Mk_Start]"
    by (simp add: s(2))
  ultimately show ?thesis by fastforce
qed

text \<open>The same run, for what is true of every run.\<close>

lemma stale_reachable: obtains s where "session_reachable (\<lambda>_. []) Target_Local BACKOFF_DEFAULT s"
  "cn_marks (ss_conn s) = [Mk_Lost 0 1000000000, Mk_Pressed, Mk_Pressed, Mk_Start, Mk_Attached,
     Mk_Lost 0 1000000000, Mk_Start]"
  using stale_run session_run_reachable [OF session_reachable_new] by (force split: option.splits)

theorem starts_are_pressed_witness:
  "\<exists>s. session_reachable (\<lambda>_. []) Target_Local BACKOFF_DEFAULT s \<and> starts (take 7 (cn_marks (ss_conn s))) = 2
     \<and> starts (take 7 (cn_marks (ss_conn s))) \<le> presses (take 7 (cn_marks (ss_conn s)))"
proof -
  from stale_reachable obtain s where s: "session_reachable (\<lambda>_. []) Target_Local BACKOFF_DEFAULT s"
    "cn_marks (ss_conn s) = [Mk_Lost 0 1000000000, Mk_Pressed, Mk_Pressed, Mk_Start, Mk_Attached,
       Mk_Lost 0 1000000000, Mk_Start]" .
  from starts_are_pressed [OF s(1), of 7] s show ?thesis by (intro exI [of _ s]) (simp add: starts_def)
qed

theorem reconnects_back_off_witness:
  "\<exists>s before rest. session_reachable (\<lambda>_. []) Target_Local BACKOFF_DEFAULT s
     \<and> cn_marks (ss_conn s) = before @ Mk_Lost 0 1000000000 # rest \<and> failures before = 0
     \<and> 1000000000 = backoff_delay BACKOFF_DEFAULT (min (failures before) U32_MAX)"
proof -
  from stale_reachable obtain s where s: "session_reachable (\<lambda>_. []) Target_Local BACKOFF_DEFAULT s"
    "cn_marks (ss_conn s) = [Mk_Lost 0 1000000000, Mk_Pressed, Mk_Pressed, Mk_Start, Mk_Attached,
       Mk_Lost 0 1000000000, Mk_Start]" .
  then have "cn_marks (ss_conn s) = [Mk_Lost 0 1000000000, Mk_Pressed, Mk_Pressed, Mk_Start, Mk_Attached]
      @ Mk_Lost 0 1000000000 # [Mk_Start]" by simp
  with reconnects_back_off [OF s(1) this] s(1) show ?thesis
    by (intro exI [of _ s] exI [of _ "[Mk_Lost 0 1000000000, Mk_Pressed, Mk_Pressed, Mk_Start, Mk_Attached]"]
        exI [of _ "[Mk_Start]"]) (simp add: failures_def)
qed

theorem connection_tells_a_story_witness:
  "\<exists>s. session_reachable (\<lambda>_. []) Target_Local BACKOFF_DEFAULT s
     \<and> (\<forall>k < length (cn_sent (ss_conn s)).
          event_ok (said_state (take k (cn_sent (ss_conn s)))) (cn_sent (ss_conn s) ! k))"
  using stale_reachable connection_tells_a_story by (metis (no_types, lifting))

end
