(* ===== verification/ServerLife.thy ===== *)
theory ServerLife
  imports Home "HOL-Library.Code_Target_Nat"
begin

text \<open>
  \<open>src/server/mod.rs\<close> and \<open>src/server/listener.rs\<close>: the life of server processes on one machine,
  from the lock to the removal of the sockets. Processes, the cleaner of \<open>/tmp\<close> and crashes
  interleave at every system call that another process can see: an action is one of them. The
  kernel's \<open>flock\<close> is held by at most one process, and released when it dies; a socket file is who
  bound it and its inode.
\<close>

section \<open>Processes\<close>

definition SHUTDOWN_TIMEOUT :: duration where "SHUTDOWN_TIMEOUT = 5 * 10 ^ 9"
definition LOCK_GRACE :: duration where "LOCK_GRACE = 1 * 10 ^ 9"
definition LOCK_POLL :: duration where "LOCK_POLL = 10 * 10 ^ 6"

type_synonym pid = nat
type_synonym inode = nat

datatype server_error =
    SE_AlreadyRunning bytes
  | SE_SocketUnseen bytes bytes
  | SE_SocketPathTooLong bytes
  | SE_Io bytes io_error
  | SE_Grpc bytes

definition server_error_text :: "server_error \<Rightarrow> bytes" where
  "server_error_text e =
     (case e of
        SE_AlreadyRunning dir \<Rightarrow> ''a server is already running for '' @ path_display dir
      | SE_SocketUnseen dir socket \<Rightarrow>
          ''a server is already running for '' @ path_display dir @ '', but its socket '' @ path_display socket
            @ '' cannot be seen from here; this session has a /tmp of its own, as a container or a per-session namespace gives''
      | SE_SocketPathTooLong why \<Rightarrow> why
      | SE_Io context error \<Rightarrow> context @ '': '' @ io_text error
      | SE_Grpc error \<Rightarrow> ''client protocol server failed: '' @ error)"

text \<open>Where a server is: each phase is named for what it does next.\<close>

datatype server_phase =
    Sp_Locking instant
  | Sp_Guard1 instant                             \<comment> \<open>would block: the first look for the socket\<close>
  | Sp_Guard2                                     \<comment> \<open>and the second\<close>
  | Sp_Sleeping instant
  | Sp_Checking                                   \<comment> \<open>holds the lock from here\<close>
  | Sp_Claim_api
  | Sp_Claim_client
  | Sp_Bind_api
  | Sp_Bind_client inode
  | Sp_Serving inode inode
  | Sp_Stopping                                   \<comment> \<open>tasks cancelled, waiting for them\<close>
  | Sp_Closing                                    \<comment> \<open>streams closed, waiting for clients\<close>
  | Sp_Drop_api "(server_error, unit) result"
  | Sp_Drop_client "(server_error, unit) result"
  | Sp_Unlocking "(server_error, unit) result"    \<comment> \<open>to here\<close>
  | Sp_Exited "(server_error, unit) result"
  | Sp_Crashed

record host =
  ho_lock :: "pid option"
  ho_api :: "(pid \<times> inode) option"
  ho_client :: "(pid \<times> inode) option"
  ho_inodes :: inode
  ho_procs :: "(pid \<times> server_phase) list"

definition host_new :: host where
  "host_new = \<lparr>ho_lock = None, ho_api = None, ho_client = None, ho_inodes = 0, ho_procs = []\<rparr>"

abbreviation phase_of :: "host \<Rightarrow> pid \<Rightarrow> server_phase option" where
  "phase_of h p \<equiv> map_of (ho_procs h) p"

definition to_phase :: "pid \<Rightarrow> server_phase \<Rightarrow> host \<Rightarrow> host" where
  "to_phase p phase h = h\<lparr>ho_procs := AList.update p phase (ho_procs h)\<rparr>"

section \<open>What a server does\<close>

definition guard1 :: "instant \<Rightarrow> instant \<Rightarrow> host \<Rightarrow> server_phase" where
  "guard1 now deadline h = (if ho_client h = None \<and> now < deadline then Sp_Sleeping deadline else Sp_Guard2)"

definition guard2 :: "home \<Rightarrow> host \<Rightarrow> server_phase" where
  "guard2 home h =
     Sp_Exited (Err (if ho_client h \<noteq> None then SE_AlreadyRunning (hm_dir home)
                     else SE_SocketUnseen (hm_dir home) (client_socket home)))"

definition try_lock :: "pid \<Rightarrow> instant \<Rightarrow> host \<Rightarrow> host" where
  "try_lock p deadline h =
     (if ho_lock h = None then to_phase p Sp_Checking (h\<lparr>ho_lock := Some p\<rparr>)
      else to_phase p (Sp_Guard1 deadline) h)"

definition in_use :: "bytes \<Rightarrow> (server_error, unit) result" where
  "in_use path = Err (SE_Io (''cannot bind '' @ path_display path) (io_error_new Io_Other ''Address already in use''))"

definition bind_api :: "home \<Rightarrow> pid \<Rightarrow> host \<Rightarrow> host" where
  "bind_api home p h =
     (if ho_api h = None
      then to_phase p (Sp_Bind_client (ho_inodes h)) (h\<lparr>ho_api := Some (p, ho_inodes h), ho_inodes := ho_inodes h + 1\<rparr>)
      else to_phase p (Sp_Drop_api (in_use (api_socket home))) h)"

definition bind_client :: "home \<Rightarrow> pid \<Rightarrow> inode \<Rightarrow> host \<Rightarrow> host" where
  "bind_client home p api h =
     (if ho_client h = None
      then to_phase p (Sp_Serving api (ho_inodes h)) (h\<lparr>ho_client := Some (p, ho_inodes h), ho_inodes := ho_inodes h + 1\<rparr>)
      else to_phase p (Sp_Drop_api (in_use (client_socket home))) h)"

text \<open>\<open>Sockets::claim\<close> removes what a crashed server left, and dropping them what this one bound.\<close>

definition claim_api :: "pid \<Rightarrow> host \<Rightarrow> host" where
  "claim_api p h = to_phase p Sp_Claim_client (h\<lparr>ho_api := None\<rparr>)"

definition claim_client :: "pid \<Rightarrow> host \<Rightarrow> host" where
  "claim_client p h = to_phase p Sp_Bind_api (h\<lparr>ho_client := None\<rparr>)"

definition drop_api :: "pid \<Rightarrow> (server_error, unit) result \<Rightarrow> host \<Rightarrow> host" where
  "drop_api p r h = to_phase p (Sp_Drop_client r) (h\<lparr>ho_api := None\<rparr>)"

definition drop_client :: "pid \<Rightarrow> (server_error, unit) result \<Rightarrow> host \<Rightarrow> host" where
  "drop_client p r h = to_phase p (Sp_Unlocking r) (h\<lparr>ho_client := None\<rparr>)"

text \<open>The next thing a server does, when the system lets it.\<close>

fun serve_next :: "bool \<Rightarrow> home \<Rightarrow> instant \<Rightarrow> pid \<Rightarrow> server_phase \<Rightarrow> host \<Rightarrow> host" where
  "serve_next linux home now p (Sp_Locking deadline) h = try_lock p deadline h"
| "serve_next linux home now p (Sp_Guard1 deadline) h = to_phase p (guard1 now deadline h) h"
| "serve_next linux home now p Sp_Guard2 h = to_phase p (guard2 home h) h"
| "serve_next linux home now p (Sp_Sleeping deadline) h = to_phase p (Sp_Locking deadline) h"
| "serve_next linux home now p Sp_Checking h =
     to_phase p (case check_sockets linux home of
                   Inl why \<Rightarrow> Sp_Unlocking (Err (SE_SocketPathTooLong why))
                 | Inr _ \<Rightarrow> Sp_Claim_api) h"
| "serve_next linux home now p Sp_Claim_api h = claim_api p h"
| "serve_next linux home now p Sp_Claim_client h = claim_client p h"
| "serve_next linux home now p Sp_Bind_api h = bind_api home p h"
| "serve_next linux home now p (Sp_Bind_client api) h = bind_client home p api h"
| "serve_next linux home now p (Sp_Serving api client) h = h"
| "serve_next linux home now p Sp_Stopping h = to_phase p Sp_Closing h"
| "serve_next linux home now p Sp_Closing h = to_phase p (Sp_Drop_api (Ok ())) h"
| "serve_next linux home now p (Sp_Drop_api r) h = drop_api p r h"
| "serve_next linux home now p (Sp_Drop_client r) h = drop_client p r h"
| "serve_next linux home now p (Sp_Unlocking r) h = to_phase p (Sp_Exited r) (h\<lparr>ho_lock := None\<rparr>)"
| "serve_next linux home now p (Sp_Exited r) h = h"
| "serve_next linux home now p Sp_Crashed h = h"

text \<open>What it does when that system call fails instead; where none can, nothing.\<close>

fun serve_fails :: "home \<Rightarrow> io_error \<Rightarrow> pid \<Rightarrow> server_phase \<Rightarrow> host \<Rightarrow> host" where
  "serve_fails home error p (Sp_Locking deadline) h =
     to_phase p (Sp_Exited (Err (SE_Io (''cannot lock '' @ path_display (home_lock home)) error))) h"
| "serve_fails home error p Sp_Claim_api h =
     to_phase p (Sp_Drop_api (Err (SE_Io (''cannot remove stale '' @ path_display (api_socket home)) error))) h"
| "serve_fails home error p Sp_Claim_client h =
     to_phase p (Sp_Drop_api (Err (SE_Io (''cannot remove stale '' @ path_display (client_socket home)) error))) h"
| "serve_fails home error p Sp_Bind_api h =
     to_phase p (Sp_Drop_api (Err (SE_Io (''cannot bind '' @ path_display (api_socket home)) error))) h"
| "serve_fails home error p (Sp_Bind_client api) h =
     to_phase p (Sp_Drop_api (Err (SE_Io (''cannot bind '' @ path_display (client_socket home)) error))) h"
| "serve_fails home error p Sp_Closing h = to_phase p (Sp_Drop_api (Err (SE_Grpc (io_text error)))) h"
| "serve_fails home error p (Sp_Drop_api r) h = to_phase p (Sp_Drop_client r) h"
| "serve_fails home error p (Sp_Drop_client r) h = to_phase p (Sp_Unlocking r) h"
| "serve_fails home error p phase h = h"

text \<open>A listener's check of its socket: bound again where another file, or none, is.\<close>

definition check_api :: "pid \<Rightarrow> host \<Rightarrow> host" where
  "check_api p h =
     (case phase_of h p of
        Some (Sp_Serving api client) \<Rightarrow>
          (if map_option snd (ho_api h) = Some api then h
           else to_phase p (Sp_Serving (ho_inodes h) client)
                  (h\<lparr>ho_api := Some (p, ho_inodes h), ho_inodes := ho_inodes h + 1\<rparr>))
      | _ \<Rightarrow> h)"

definition check_client :: "pid \<Rightarrow> host \<Rightarrow> host" where
  "check_client p h =
     (case phase_of h p of
        Some (Sp_Serving api client) \<Rightarrow>
          (if map_option snd (ho_client h) = Some client then h
           else to_phase p (Sp_Serving api (ho_inodes h))
                  (h\<lparr>ho_client := Some (p, ho_inodes h), ho_inodes := ho_inodes h + 1\<rparr>))
      | _ \<Rightarrow> h)"

datatype host_action =
    Ho_Launch pid instant
  | Ho_Next pid instant
  | Ho_Fails pid io_error
  | Ho_Shutdown pid
  | Ho_Check_api pid
  | Ho_Check_client pid
  | Ho_Crash pid
  | Ho_Clean_api
  | Ho_Clean_client

definition crash :: "pid \<Rightarrow> host \<Rightarrow> host" where
  "crash p h = to_phase p Sp_Crashed (h\<lparr>ho_lock := if ho_lock h = Some p then None else ho_lock h\<rparr>)"

fun host_act :: "bool \<Rightarrow> home \<Rightarrow> host_action \<Rightarrow> host \<Rightarrow> host" where
  "host_act linux home (Ho_Launch p now) h =
     (if phase_of h p = None then to_phase p (Sp_Locking (now + LOCK_GRACE)) h else h)"
| "host_act linux home (Ho_Next p now) h =
     (case phase_of h p of None \<Rightarrow> h | Some phase \<Rightarrow> serve_next linux home now p phase h)"
| "host_act linux home (Ho_Fails p error) h =
     (case phase_of h p of None \<Rightarrow> h | Some phase \<Rightarrow> serve_fails home error p phase h)"
| "host_act linux home (Ho_Shutdown p) h =
     (case phase_of h p of Some (Sp_Serving api client) \<Rightarrow> to_phase p Sp_Stopping h | _ \<Rightarrow> h)"
| "host_act linux home (Ho_Check_api p) h = check_api p h"
| "host_act linux home (Ho_Check_client p) h = check_client p h"
| "host_act linux home (Ho_Crash p) h =
     (case phase_of h p of None \<Rightarrow> h | Some (Sp_Exited r) \<Rightarrow> h | Some phase \<Rightarrow> crash p h)"
| "host_act linux home Ho_Clean_api h = h\<lparr>ho_api := None\<rparr>"
| "host_act linux home Ho_Clean_client h = h\<lparr>ho_client := None\<rparr>"

definition host_run :: "bool \<Rightarrow> home \<Rightarrow> host_action list \<Rightarrow> host" where
  "host_run linux home actions = fold (host_act linux home) actions host_new"

section \<open>One server\<close>

fun holding :: "server_phase \<Rightarrow> bool" where
  "holding (Sp_Locking _) = False"
| "holding (Sp_Guard1 _) = False"
| "holding Sp_Guard2 = False"
| "holding (Sp_Sleeping _) = False"
| "holding (Sp_Exited _) = False"
| "holding Sp_Crashed = False"
| "holding _ = True"

fun ended :: "server_phase \<Rightarrow> bool" where
  "ended (Sp_Exited _) = True"
| "ended Sp_Crashed = True"
| "ended _ = False"

definition holds :: "host \<Rightarrow> pid \<Rightarrow> bool" where
  "holds h p \<longleftrightarrow> (\<exists>phase. phase_of h p = Some phase \<and> holding phase)"

definition alive :: "host \<Rightarrow> pid \<Rightarrow> bool" where
  "alive h p \<longleftrightarrow> (\<exists>phase. phase_of h p = Some phase \<and> \<not> ended phase)"

definition socket_ok :: "host \<Rightarrow> (pid \<times> inode) option \<Rightarrow> bool" where
  "socket_ok h socket \<longleftrightarrow> (\<forall>p i. socket = Some (p, i) \<longrightarrow> phase_of h p \<noteq> None \<and> (alive h p \<longrightarrow> holds h p))"

definition host_ok :: "host \<Rightarrow> bool" where
  "host_ok h \<longleftrightarrow> (\<forall>p. holds h p \<longleftrightarrow> ho_lock h = Some p) \<and> socket_ok h (ho_api h) \<and> socket_ok h (ho_client h)"

lemma phase_to_phase [simp]: "phase_of (to_phase p phase h) q = (if q = p then Some phase else phase_of h q)"
  by (simp add: to_phase_def)

lemma to_phase_simps [simp]:
  "ho_lock (to_phase p phase h) = ho_lock h" "ho_api (to_phase p phase h) = ho_api h"
  "ho_client (to_phase p phase h) = ho_client h" "ho_inodes (to_phase p phase h) = ho_inodes h"
  by (simp_all add: to_phase_def)

lemma holds_to_phase: "holds (to_phase p phase h) q \<longleftrightarrow> (if q = p then holding phase else holds h q)"
  by (simp add: holds_def)

lemma alive_to_phase: "alive (to_phase p phase h) q \<longleftrightarrow> (if q = p then \<not> ended phase else alive h q)"
  by (simp add: alive_def)

lemma lock_own: "host_ok h \<Longrightarrow> phase_of h p = Some phase \<Longrightarrow> holding phase \<longleftrightarrow> ho_lock h = Some p"
  unfolding host_ok_def holds_def by (metis option.inject)

lemma ok_to_phase:
  assumes ok: "host_ok h" and phase: "phase_of h p = Some phase" and procs: "ho_procs h' = ho_procs h"
    and fate: "holding phase' \<or> ended phase' \<or> \<not> holding phase \<and> \<not> ended phase"
    and lock: "ho_lock h' = (if holding phase' then Some p else if holding phase then None else ho_lock h)"
    and free: "holding phase' \<Longrightarrow> holding phase \<or> ho_lock h = None"
    and api: "ho_api h' = ho_api h \<or> ho_api h' = None \<or> holding phase' \<and> (\<exists>i. ho_api h' = Some (p, i))"
    and client: "ho_client h' = ho_client h \<or> ho_client h' = None \<or> holding phase' \<and> (\<exists>i. ho_client h' = Some (p, i))"
  shows "host_ok (to_phase p phase' h')"
proof -
  have locks: "holds h q \<longleftrightarrow> ho_lock h = Some q" for q using ok by (simp add: host_ok_def)
  note own = lock_own [OF ok phase]
  have holds': "holds (to_phase p phase' h') q \<longleftrightarrow> (if q = p then holding phase' else holds h q)" for q
    by (simp add: holds_to_phase) (simp add: holds_def procs)
  have alive': "alive (to_phase p phase' h') q \<longleftrightarrow> (if q = p then \<not> ended phase' else alive h q)" for q
    by (simp add: alive_to_phase) (simp add: alive_def procs)
  have socket: "socket_ok (to_phase p phase' h') s'"
    if "s' = s \<or> s' = None \<or> holding phase' \<and> (\<exists>i. s' = Some (p, i))" "socket_ok h s" for s s'
    unfolding socket_ok_def
  proof (intro allI impI)
    fix q i assume s': "s' = Some (q, i)"
    show "phase_of (to_phase p phase' h') q \<noteq> None
        \<and> (alive (to_phase p phase' h') q \<longrightarrow> holds (to_phase p phase' h') q)"
    proof (cases "q = p")
      case True
      have "ended phase' \<or> holding phase'"
        using that s' fate phase True by (auto simp: socket_ok_def alive_def holds_def)
      then show ?thesis using True by (auto simp: holds' alive')
    next
      case False
      with that(1) s' have "s = Some (q, i)" by auto
      with that(2) False show ?thesis by (auto simp: socket_ok_def holds' alive' procs)
    qed
  qed
  have "holds (to_phase p phase' h') q \<longleftrightarrow> ho_lock (to_phase p phase' h') = Some q" for q
    using own locks [of q] lock free by (auto simp: holds')
  then show ?thesis
    unfolding host_ok_def using socket [OF api] socket [OF client] ok by (simp add: host_ok_def)
qed

lemma ok_next:
  assumes "host_ok h" and phase: "phase_of h p = Some phase"
  shows "host_ok (serve_next linux home now p phase h)"
  using lock_own [OF assms] assms
  by (cases phase)
     (auto simp: try_lock_def guard1_def guard2_def bind_api_def bind_client_def
       claim_api_def claim_client_def drop_api_def drop_client_def
         intro!: ok_to_phase [OF assms] split: sum.splits)

lemma ok_fails:
  assumes "host_ok h" and phase: "phase_of h p = Some phase"
  shows "host_ok (serve_fails home error p phase h)"
  using lock_own [OF assms] assms by (cases phase) (auto intro!: ok_to_phase [OF assms])

lemma ok_launch: "host_ok h \<Longrightarrow> phase_of h p = None \<Longrightarrow> host_ok (to_phase p (Sp_Locking deadline) h)"
proof -
  assume ok: "host_ok h" and new: "phase_of h p = None"
  then have "ho_lock h \<noteq> Some p" unfolding host_ok_def holds_def by (metis option.distinct(1))
  with ok new show ?thesis by (auto simp: host_ok_def socket_ok_def holds_to_phase alive_to_phase)
qed

lemma ok_crash:
  assumes "host_ok h" and "phase_of h p = Some phase"
  shows "host_ok (crash p h)"
  unfolding crash_def using lock_own [OF assms] by (intro ok_to_phase [OF assms]) auto

lemma ok_check:
  assumes "host_ok h"
  shows "host_ok (check_api p h)" "host_ok (check_client p h)"
proof -
  have "ho_lock h = Some p" if "phase_of h p = Some (Sp_Serving a c)" for a c
    using lock_own [OF assms that] by simp
  with assms show "host_ok (check_api p h)" "host_ok (check_client p h)"
    by (auto simp: check_api_def check_client_def intro!: ok_to_phase [OF assms]
        split: option.splits server_phase.splits)
qed

lemma frame_sockets:
  "holds (h\<lparr>ho_api := api\<rparr>) p = holds h p" "holds (h\<lparr>ho_client := client\<rparr>) p = holds h p"
  "socket_ok (h\<lparr>ho_api := api\<rparr>) s = socket_ok h s" "socket_ok (h\<lparr>ho_client := client\<rparr>) s = socket_ok h s"
  "socket_ok h None"
  by (simp_all add: holds_def socket_ok_def alive_def)

lemma ok_act: "host_ok h \<Longrightarrow> host_ok (host_act linux home action h)"
proof (cases action)
  case (Ho_Shutdown p)
  assume ok: "host_ok h"
  then have "ho_lock h = Some p" if "phase_of h p = Some (Sp_Serving a c)" for a c
    using lock_own [OF ok that] by simp
  with ok Ho_Shutdown show ?thesis
    by (auto intro!: ok_to_phase [OF ok] split: option.splits server_phase.splits)
next
  case Ho_Clean_api
  assume "host_ok h"
  with Ho_Clean_api show ?thesis by (simp add: host_ok_def frame_sockets)
next
  case Ho_Clean_client
  assume "host_ok h"
  with Ho_Clean_client show ?thesis by (simp add: host_ok_def frame_sockets)
qed (auto intro: ok_launch ok_next ok_fails ok_check ok_crash split: option.splits server_phase.splits)

interpretation machine_host: event_loop "host_act linux home" "\<lambda>_. True" host_ok for linux home
  by unfold_locales (rule ok_act)

lemma ok_run: "host_ok (host_run linux home actions)"
proof -
  have "host_ok host_new" by (simp add: host_ok_def socket_ok_def host_new_def holds_def)
  then show ?thesis unfolding host_run_def by (rule machine_host.run_ok) (simp add: list_all_iff)
qed

text \<open>Whose step an action is.\<close>

fun actor :: "host_action \<Rightarrow> pid option" where
  "actor (Ho_Launch p _) = Some p"
| "actor (Ho_Next p _) = Some p"
| "actor (Ho_Fails p _) = Some p"
| "actor (Ho_Shutdown p) = Some p"
| "actor (Ho_Check_api p) = Some p"
| "actor (Ho_Check_client p) = Some p"
| "actor (Ho_Crash p) = Some p"
| "actor Ho_Clean_api = None"
| "actor Ho_Clean_client = None"

lemma sockets_kept:
  "\<not> holding phase \<Longrightarrow> ho_client (serve_next linux home now p phase h) = ho_client h"
  "\<not> holding phase \<Longrightarrow> ho_api (serve_next linux home now p phase h) = ho_api h"
  "\<not> holding phase \<Longrightarrow> ho_client (serve_fails home error p phase h) = ho_client h"
  "\<not> holding phase \<Longrightarrow> ho_api (serve_fails home error p phase h) = ho_api h"
  by (cases phase; simp add: try_lock_def)+

lemma sockets_need_lock:
  assumes "host_ok h" and "actor action = Some p"
    and "ho_client (host_act linux home action h) \<noteq> ho_client h \<or> ho_api (host_act linux home action h) \<noteq> ho_api h"
  shows "holds h p"
proof -
  have held: "holds h p" if "phase_of h p = Some phase" "holding phase" for phase using that by (simp add: holds_def)
  have goes: "holds h p" if "phase_of h p = Some phase" "ho_client (serve_next linux home now p phase h) \<noteq> ho_client h
      \<or> ho_api (serve_next linux home now p phase h) \<noteq> ho_api h" for phase now
    using that held sockets_kept(1,2) by metis
  have fails: "holds h p" if "phase_of h p = Some phase" "ho_client (serve_fails home error p phase h) \<noteq> ho_client h
      \<or> ho_api (serve_fails home error p phase h) \<noteq> ho_api h" for phase error
    using that held sockets_kept(3,4) by metis
  show ?thesis using assms(2,3) held goes fails
    by (cases action)
       (auto simp: check_api_def check_client_def crash_def split: option.splits server_phase.splits if_splits)
qed

text \<open>
  C19. One server a machine: however servers start, stop, fail and crash, and whatever is cleaned
  from /tmp, at most one is past the lock; a socket file of a process that still runs is that
  server's; and nothing another process does - claiming stale sockets, binding again, dropping its
  own - ever takes that server's sockets away.
\<close>

theorem one_server_a_machine:
  fixes linux :: bool and home :: home and actions :: "host_action list"
  defines "h \<equiv> host_run linux home actions"
  shows "(holds h p \<and> holds h q \<longrightarrow> p = q)
    \<and> (\<forall>i. (ho_client h = Some (p, i) \<or> ho_api h = Some (p, i)) \<and> alive h p \<longrightarrow>
         holds h p
         \<and> (\<forall>action q. actor action = Some q \<and> q \<noteq> p \<longrightarrow>
              ho_client (host_act linux home action h) = ho_client h \<and> ho_api (host_act linux home action h) = ho_api h))"
proof -
  have ok: "host_ok h" unfolding h_def by (rule ok_run)
  have one: "p = q" if "holds h p" "holds h q" for p q
    using ok that by (metis host_ok_def option.inject)
  have "holds h p" if "ho_client h = Some (p, i) \<or> ho_api h = Some (p, i)" "alive h p" for i
    using ok that by (auto simp: host_ok_def socket_ok_def)
  moreover have "ho_client (host_act linux home action h) = ho_client h \<and> ho_api (host_act linux home action h) = ho_api h"
    if "holds h p" "actor action = Some q" "q \<noteq> p" for action q
    using sockets_need_lock [OF ok that(2)] one [OF that(1), of q] that(3) by blast
  ultimately show ?thesis using one by blast
qed

text \<open>The steps of one server from its lock to its sockets.\<close>

definition serves :: "pid \<Rightarrow> host_action list" where
  "serves p = Ho_Launch p 0 # replicate 6 (Ho_Next p 0)"

lemma serving_run:
  "phase_of (host_run True (home_at ''/h'') (serves 1)) 1 = Some (Sp_Serving 0 1)
   \<and> ho_client (host_run True (home_at ''/h'') (serves 1)) = Some (1, 1)"
  by code_simp

theorem one_server_a_machine_witness:
  "\<exists>h. h = host_run True (home_at ''/h'') (serves 1) \<and> ho_client h = Some (1, 1) \<and> alive h 1
     \<and> ho_client (host_act True (home_at ''/h'') (Ho_Launch 2 0) h) = ho_client h
     \<and> (holds h 1 \<and> holds h 1 \<longrightarrow> (1::nat) = 1)"
proof -
  have "alive (host_run True (home_at ''/h'') (serves 1)) 1" using serving_run by (simp add: alive_def)
  with serving_run one_server_a_machine [of True "home_at ''/h''" "serves 1" 1 1] show ?thesis
    by (metis actor.simps(1) one_eq_numeral_iff semiring_norm(83))
qed

text \<open>
  C30. A server that is just stopping can look like one in another world: a second server finds
  the lock taken, sees the socket of the first, and then, because the first removes it before the
  second look, refuses to start with the message that its socket cannot be seen from here -
  although nothing cleaned it away, both see the same files, and the second's grace for exactly
  this moment has not even begun to pass.
\<close>

theorem a_stopping_server_looks_unseen:
  "\<exists>actions. phase_of (host_run True (home_at ''/h'') actions) 2 =
       Some (Sp_Exited (Err (SE_SocketUnseen ''/h'' ''/h/run/client.sock'')))
     \<and> phase_of (host_run True (home_at ''/h'') actions) 1 = Some (Sp_Unlocking (Ok ()))
     \<and> set actions \<subseteq> {Ho_Launch 1 0, Ho_Next 1 0, Ho_Shutdown 1, Ho_Launch 2 0, Ho_Next 2 0}"
proof -
  let ?actions = "serves 1 @ [Ho_Launch 2 0, Ho_Next 2 0, Ho_Next 2 0, Ho_Shutdown 1] @ replicate 4 (Ho_Next 1 0) @ [Ho_Next 2 0]"
  have "phase_of (host_run True (home_at ''/h'') ?actions) 2 =
      Some (Sp_Exited (Err (SE_SocketUnseen ''/h'' ''/h/run/client.sock'')))"
    "phase_of (host_run True (home_at ''/h'') ?actions) 1 = Some (Sp_Unlocking (Ok ()))"
    by code_simp+
  moreover have "set ?actions \<subseteq> {Ho_Launch 1 0, Ho_Next 1 0, Ho_Shutdown 1, Ho_Launch 2 0, Ho_Next 2 0}"
    by (simp add: serves_def)
  ultimately show ?thesis by blast
qed

end
