(* ===== verification/Api.thy ===== *)
theory Api
  imports Machines TaskRegistry
begin

text \<open>
  The public API: \<open>src/protocol/api.rs\<close>, the server's end in \<open>src/server/api.rs\<close>, the client's in
  \<open>src/client/api.rs\<close>, and the task the API can start, \<open>src/server/demo.rs\<close>. JSON is a library's:
  its values are a type \<open>'v\<close>, and its readers and writers, with what they document, parameters.
\<close>

section \<open>Shapes\<close>

definition API_GENERATION :: nat where "API_GENERATION = 1"
definition METHOD_STATUS :: bytes where "METHOD_STATUS = ''server.status''"
definition METHOD_STOP :: bytes where "METHOD_STOP = ''server.stop''"
definition METHOD_TASK_DEMO :: bytes where "METHOD_TASK_DEMO = ''task.demo''"
definition ERROR_INVALID_REQUEST :: bytes where "ERROR_INVALID_REQUEST = ''invalid_request''"
definition ERROR_UNKNOWN_METHOD :: bytes where "ERROR_UNKNOWN_METHOD = ''unknown_method''"

record 'v api_request =
  aq_id :: "nat option"
  aq_method :: bytes
  aq_params :: 'v

record api_error =
  ae_code :: bytes
  ae_message :: bytes

record 'v api_response =
  ar_id :: "nat option"
  ar_result :: "'v option"
  ar_error :: "api_error option"

definition response_ok :: "nat option \<Rightarrow> 'v \<Rightarrow> 'v api_response" where
  "response_ok i result = \<lparr>ar_id = i, ar_result = Some result, ar_error = None\<rparr>"

definition response_err :: "nat option \<Rightarrow> bytes \<Rightarrow> bytes \<Rightarrow> 'v api_response" where
  "response_err i code message =
     \<lparr>ar_id = i, ar_result = None, ar_error = Some \<lparr>ae_code = code, ae_message = message\<rparr>\<rparr>"

record demo_params =
  dp_seconds :: nat
  dp_fail :: bool

definition default_seconds :: nat where "default_seconds = 5"

record server_status =
  ss_version :: bytes
  ss_pid :: nat
  ss_client_protocol :: nat
  ss_api_generation :: nat
  ss_started_unix_seconds :: nat
  ss_home :: bytes

record server_info =
  si_pid :: nat
  si_started :: system_time
  si_home :: bytes

text \<open>A start before 1970 counts as the epoch; times are in nanoseconds.\<close>

definition info_status :: "bytes \<Rightarrow> nat \<Rightarrow> server_info \<Rightarrow> server_status" where
  "info_status version client_protocol self =
     \<lparr>ss_version = version, ss_pid = si_pid self, ss_client_protocol = client_protocol,
      ss_api_generation = API_GENERATION,
      ss_started_unix_seconds = (if si_started self < 0 then 0 else nat (si_started self) div 10 ^ 9),
      ss_home = si_home self\<rparr>"

text \<open>The JSON library, as the code uses it.\<close>

record 'v json =
  js_null :: 'v
  js_object :: 'v
  js_request_of :: "bytes \<Rightarrow> (bytes, 'v api_request) result"
  js_request_text :: "'v api_request \<Rightarrow> (bytes, bytes) result"
  js_response_of :: "bytes \<Rightarrow> (bytes, 'v api_response) result"
  js_response_text :: "'v api_response \<Rightarrow> (bytes, bytes) result"
  js_status_value :: "server_status \<Rightarrow> (bytes, 'v) result"
  js_status_of :: "'v \<Rightarrow> (bytes, server_status) result"
  js_demo_value :: "demo_params \<Rightarrow> (bytes, 'v) result"
  js_demo_of :: "'v \<Rightarrow> (bytes, demo_params) result"
  js_submitted_value :: "bytes \<Rightarrow> (bytes, 'v) result"
  js_submitted_of :: "'v \<Rightarrow> (bytes, bytes) result"

section \<open>The server's end\<close>

text \<open>The third part is the demo submitted, if one was: the runtime gives it the identifier.\<close>

definition submit_demo ::
  "'v json \<Rightarrow> bytes \<Rightarrow> nat option \<Rightarrow> 'v \<Rightarrow> 'v api_response \<times> demo_params option" where
  "submit_demo json new_id i params =
     (let params = if params = js_null json then js_object json else params in
      case js_demo_of json params of
        Inl error \<Rightarrow> (response_err i ERROR_INVALID_REQUEST error, None)
      | Inr demo \<Rightarrow>
          ((case js_submitted_value json new_id of
              Inr result \<Rightarrow> response_ok i result
            | Inl error \<Rightarrow> response_err i ERROR_INVALID_REQUEST error), Some demo))"

definition respond ::
  "'v json \<Rightarrow> server_status \<Rightarrow> bytes \<Rightarrow> bytes \<Rightarrow> 'v api_response \<times> demo_params option \<times> bool" where
  "respond json status new_id line =
     (case js_request_of json line of
        Inl error \<Rightarrow> (response_err None ERROR_INVALID_REQUEST error, None, False)
      | Inr request \<Rightarrow>
          if aq_method request = METHOD_STATUS
          then ((case js_status_value json status of
                   Inr result \<Rightarrow> response_ok (aq_id request) result
                 | Inl error \<Rightarrow> response_err (aq_id request) ERROR_INVALID_REQUEST error), None, False)
          else if aq_method request = METHOD_TASK_DEMO
          then (case submit_demo json new_id (aq_id request) (aq_params request) of
                  (response, demo) \<Rightarrow> (response, demo, False))
          else if aq_method request = METHOD_STOP
          then (response_ok (aq_id request) (js_object json), None, True)
          else (response_err (aq_id request) ERROR_UNKNOWN_METHOD
                  (''no method named `'' @ aq_method request @ ''`''), None, False))"

text \<open>
  A connection: what its client sent, line by line, each with the identifier a task would get and
  whether the answer can be written; what was written, the tasks started, and whether it asked
  the server to stop. Shutdown takes the rest of the lines away.
\<close>

fun connection ::
  "'v json \<Rightarrow> server_status \<Rightarrow> (bytes \<times> bytes \<times> bool) list \<Rightarrow> bytes list \<times> demo_params list \<times> bool" where
  "connection json status [] = ([], [], False)"
| "connection json status ((line, new_id, writes) # lines) =
     (case respond json status new_id line of
        (response, demo, stop) \<Rightarrow>
          (let started = (case demo of None \<Rightarrow> [] | Some demo \<Rightarrow> [demo]) in
           case js_response_text json response of
             Inl error \<Rightarrow> ([], started, False)
           | Inr encoded \<Rightarrow>
               if \<not> writes then ([], started, False)
               else if stop then ([encoded @ [NEWLINE]], started, True)
               else (case connection json status lines of
                       (answers, demos, stopped) \<Rightarrow>
                         ((encoded @ [NEWLINE]) # answers, started @ demos, stopped))))"

section \<open>The client's end\<close>

datatype api_client_error =
    AC_NotRunning
  | AC_Io io_error
  | AC_Decode bytes
  | AC_NoResponse
  | AC_Api api_error
  | AC_StopTimeout

definition api_client_error_text :: "api_client_error \<Rightarrow> bytes" where
  "api_client_error_text e =
     (case e of
        AC_NotRunning \<Rightarrow> ''no server is running''
      | AC_Io error \<Rightarrow> ''API connection failed: '' @ io_text error
      | AC_Decode error \<Rightarrow> ''the server sent an unreadable response: '' @ error
      | AC_NoResponse \<Rightarrow> ''the server closed the connection without answering''
      | AC_Api error \<Rightarrow> ae_code error @ '': '' @ ae_message error
      | AC_StopTimeout \<Rightarrow> ''the server did not stop within 10s'')"

definition api_connect :: "(io_error, unit) result \<Rightarrow> (api_client_error, unit) result" where
  "api_connect connected =
     map_err (\<lambda>error. if io_kind error \<in> {Io_NotFound, Io_ConnectionRefused} then AC_NotRunning else AC_Io error)
       connected"

text \<open>
  \<open>exchange\<close> is the connection: what the server answers to a line, if it answers. The client's
  state is the identifier of its next request.
\<close>

definition call_with ::
  "'v json \<Rightarrow> (bytes \<Rightarrow> (io_error, bytes option) result) \<Rightarrow> bytes \<Rightarrow> 'v \<Rightarrow> nat
   \<Rightarrow> (api_client_error, 'v) result \<times> nat" where
  "call_with json exchange method params next_id =
     (bind_result (map_err AC_Decode (js_request_text json \<lparr>aq_id = Some next_id, aq_method = method, aq_params = params\<rparr>)) (\<lambda>line.
      bind_result (map_err AC_Io (exchange (line @ [NEWLINE]))) (\<lambda>answer.
      case answer of
        None \<Rightarrow> Err AC_NoResponse
      | Some line \<Rightarrow>
          bind_result (map_err AC_Decode (js_response_of json line)) (\<lambda>response.
          case (ar_result response, ar_error response) of
            (_, Some error) \<Rightarrow> Err (AC_Api error)
          | (Some result, None) \<Rightarrow> Ok result
          | (None, None) \<Rightarrow> Err AC_NoResponse))), next_id + 1)"

definition api_call ::
  "'v json \<Rightarrow> (bytes \<Rightarrow> (io_error, bytes option) result) \<Rightarrow> bytes \<Rightarrow> nat \<Rightarrow> (api_client_error, 'v) result \<times> nat" where
  "api_call json exchange method next_id = call_with json exchange method (js_null json) next_id"

definition api_status ::
  "'v json \<Rightarrow> (bytes \<Rightarrow> (io_error, bytes option) result) \<Rightarrow> nat \<Rightarrow> (api_client_error, server_status) result \<times> nat" where
  "api_status json exchange next_id =
     (case api_call json exchange METHOD_STATUS next_id of
        (result, n) \<Rightarrow> (bind_result result (\<lambda>v. map_err AC_Decode (js_status_of json v)), n))"

definition api_submit_demo ::
  "'v json \<Rightarrow> (bytes \<Rightarrow> (io_error, bytes option) result) \<Rightarrow> demo_params \<Rightarrow> nat
   \<Rightarrow> (api_client_error, bytes) result \<times> nat" where
  "api_submit_demo json exchange params next_id =
     (case js_demo_value json params of
        Inl error \<Rightarrow> (Err (AC_Decode error), next_id)
      | Inr v \<Rightarrow>
          (case call_with json exchange METHOD_TASK_DEMO v next_id of
             (result, n) \<Rightarrow> (bind_result result (\<lambda>v. map_err AC_Decode (js_submitted_of json v)), n)))"

section \<open>The demo\<close>

definition DEMO_STEP :: duration where "DEMO_STEP = 100 * 10 ^ 6"

definition demo_descriptor :: "demo_params \<Rightarrow> task_descriptor" where
  "demo_descriptor self =
     (let descriptor = td_with (task_descriptor_new ''demo.count'' Background) ''seconds'' (show_nat (dp_seconds self)) in
      if dp_fail self then td_with descriptor ''fail'' ''true'' else descriptor)"

definition demo_total :: "demo_params \<Rightarrow> nat" where
  "demo_total self = max (min (dp_seconds self * 10) (2 ^ 64 - 1)) 1"

definition demo_progress :: "nat \<Rightarrow> nat \<Rightarrow> progress" where
  "demo_progress whole finished = \<lparr>pr_phase = Some ''counting'', pr_measure = Items finished (Some whole)\<rparr>"

text \<open>
  The counts left to do, whether cancellation wins each wait, and what is reported until the end.
  \<open>done * 2\<close> wraps at 64 bits.
\<close>

fun demo_loop :: "demo_params \<Rightarrow> (nat \<Rightarrow> bool) \<Rightarrow> nat list \<Rightarrow> progress list \<times> (io_error, unit) result" where
  "demo_loop self cancelled [] = ([], Ok ())"
| "demo_loop self cancelled (finished # counts) =
     (if cancelled finished then ([], Err (io_error_new Io_Interrupted ''operation interrupted''))
      else if dp_fail self \<and> demo_total self \<le> (finished * 2) mod 2 ^ 64
      then ([demo_progress (demo_total self) finished], Err (io_error_new Io_Other ''the demo was told to fail''))
      else (case demo_loop self cancelled counts of
              (reports, r) \<Rightarrow> (demo_progress (demo_total self) finished # reports, r)))"

definition demo_run :: "demo_params \<Rightarrow> (nat \<Rightarrow> bool) \<Rightarrow> progress list \<times> (io_error, unit) result" where
  "demo_run self cancelled = demo_loop self cancelled [1..<demo_total self + 1]"

section \<open>Answers\<close>

text \<open>
  Requests on a connection are answered in order, each with the answer to that very line;
  the server is asked to stop exactly by a readable \<open>server.stop\<close>, only once the answer to it has
  been written, and nothing sent after it is looked at.
\<close>

theorem requests_are_answered_in_order:
  assumes "connection json status lines = (answers, demos, stopped)"
  shows "length answers \<le> length lines
    \<and> (\<forall>k < length answers. \<exists>encoded. answers ! k = encoded @ [NEWLINE]
         \<and> js_response_text json (fst (respond json status (fst (snd (lines ! k))) (fst (lines ! k)))) = Ok encoded)
    \<and> (\<forall>k < length answers. (\<exists>request. js_request_of json (fst (lines ! k)) = Ok request \<and> aq_method request = METHOD_STOP)
         \<longleftrightarrow> stopped \<and> k = length answers - 1)
    \<and> (stopped \<longrightarrow> answers \<noteq> [])"
  using assms
proof (induction lines arbitrary: answers demos stopped)
  case (Cons l lines)
  obtain line new_id writes where l: "l = (line, new_id, writes)" by (cases l)
  obtain response demo stop where r: "respond json status new_id line = (response, demo, stop)"
    by (cases "respond json status new_id line")
  have stop: "stop \<longleftrightarrow> (\<exists>request. js_request_of json line = Ok request \<and> aq_method request = METHOD_STOP)"
    using r by (auto simp: respond_def METHOD_STATUS_def METHOD_STOP_def METHOD_TASK_DEMO_def
        split: sum.splits if_splits prod.splits)
  show ?case
  proof (cases "\<exists>encoded. js_response_text json response = Ok encoded \<and> writes")
    case False
    with Cons.prems show ?thesis by (auto simp: l r Let_def split: sum.splits)
  next
    case True
    then obtain encoded where encoded: "js_response_text json response = Ok encoded" "writes" by blast
    show ?thesis
    proof (cases stop)
      case True
      with Cons.prems encoded have "answers = [encoded @ [NEWLINE]]" "stopped" by (auto simp: l r Let_def)
      with True stop encoded(1) show ?thesis by (auto simp: l r)
    next
      case False
      obtain answers' demos' where rest: "connection json status lines = (answers', demos', stopped)"
        "answers = (encoded @ [NEWLINE]) # answers'"
        using Cons.prems encoded False by (auto simp: l r Let_def split: prod.splits)
      note ih = Cons.IH [OF rest(1)]
      have first: "(\<exists>request. js_request_of json line = Ok request \<and> aq_method request = METHOD_STOP) \<longleftrightarrow>
          stopped \<and> 0 = length answers - 1"
        using False stop ih by (auto simp: rest(2))
      have length_answers: "length answers = Suc (length answers')" by (simp add: rest(2))
      have later: "j < length answers' \<Longrightarrow> j = length answers' - 1 \<longleftrightarrow> Suc j = length answers - 1" for j
        by (auto simp: rest(2))
      show ?thesis
        unfolding length_answers All_less_Suc2
        using ih first encoded(1) later by (auto simp: l r rest(2))
    qed
  qed
qed auto

text \<open>A JSON of a few words, enough to run the server's and the client's end.\<close>

definition example_json :: "bytes json" where
  "example_json =
     \<lparr>js_null = ''null'', js_object = ''{}'',
      js_request_of = (\<lambda>line. if line = [] then Err ''EOF''
        else Ok \<lparr>aq_id = Some 1, aq_method = line, aq_params = ''null''\<rparr>),
      js_request_text = (\<lambda>request. Ok (aq_method request)),
      js_response_of = (\<lambda>line. if starts_with line ''unknown_method: ''
        then Ok (response_err (Some 1) ERROR_UNKNOWN_METHOD (drop 16 line)) else Ok (response_ok (Some 1) line)),
      js_response_text = (\<lambda>response. case ar_error response of
          Some error \<Rightarrow> Ok (ae_code error @ '': '' @ ae_message error)
        | None \<Rightarrow> Ok (case ar_result response of Some v \<Rightarrow> v | None \<Rightarrow> [])),
      js_status_value = (\<lambda>status. Ok (ss_version status)), js_status_of = (\<lambda>v. Err ''no''),
      js_demo_value = (\<lambda>_. Ok ''{}''), js_demo_of = (\<lambda>_. Ok \<lparr>dp_seconds = default_seconds, dp_fail = False\<rparr>),
      js_submitted_value = Ok, js_submitted_of = Ok\<rparr>"

definition example_status :: server_status where
  "example_status = info_status ''2.0'' 3 \<lparr>si_pid = 7, si_started = 1500000000, si_home = ''/h''\<rparr>"

theorem requests_are_answered_in_order_witness:
  "\<exists>answers. connection example_json example_status
       [(''server.status'', ''1'', True), (''nope'', ''2'', True), (''server.stop'', ''3'', True), (''server.status'', ''4'', True)]
       = (answers, [], True)
     \<and> answers = [''2.0'' @ [NEWLINE], ''unknown_method: no method named `nope`'' @ [NEWLINE], ''{}'' @ [NEWLINE]]
     \<and> (\<exists>encoded. answers ! 1 = encoded @ [NEWLINE]
          \<and> js_response_text example_json (fst (respond example_json example_status ''2'' ''nope'')) = Ok encoded)"
proof -
  let ?lines = "[(''server.status'', ''1'', True), (''nope'', ''2'', True), (''server.stop'', ''3'', True), (''server.status'', ''4'', True)]"
  have run: "connection example_json example_status ?lines =
      ([''2.0'' @ [NEWLINE], ''unknown_method: no method named `nope`'' @ [NEWLINE], ''{}'' @ [NEWLINE]], [], True)"
    by code_simp
  from requests_are_answered_in_order [OF run] have "\<exists>encoded. [''2.0'' @ [NEWLINE], ''unknown_method: no method named `nope`'' @ [NEWLINE], ''{}'' @ [NEWLINE]] ! 1 = encoded @ [NEWLINE]
      \<and> js_response_text example_json (fst (respond example_json example_status (fst (snd (?lines ! 1))) (fst (?lines ! 1)))) = Ok encoded"
    by (metis One_nat_def Suc_less_eq length_Cons zero_less_Suc)
  with run show ?thesis by simp
qed

section \<open>A call and its answer\<close>

text \<open>The server at the other end of a connection, given what the client writes.\<close>

definition api_exchange ::
  "'v json \<Rightarrow> server_status \<Rightarrow> bytes \<Rightarrow> bytes \<Rightarrow> (io_error, bytes option) result" where
  "api_exchange json status new_id written =
     (case str_lines written of
        [] \<Rightarrow> Ok None
      | line # _ \<Rightarrow>
          (case connection json status [(line, new_id, True)] of
             ([], _) \<Rightarrow> Ok None
           | (answer # _, _) \<Rightarrow> Ok (Some (hd (str_lines answer)))))"

lemma str_lines_one: "NEWLINE \<notin> set l \<Longrightarrow> CHR 0x0D \<notin> set l \<Longrightarrow> str_lines (l @ [NEWLINE]) = [l]"
proof -
  assume l: "NEWLINE \<notin> set l" "CHR 0x0D \<notin> set l"
  have "split_on NEWLINE (l @ [NEWLINE]) = [l, []]"
    using l(1) by (induction l) auto
  moreover have "strip_cr l = l" using l(2) unfolding strip_cr_def by (metis last_in_set)
  ultimately show ?thesis by (simp add: str_lines_def)
qed

text \<open>
  What the client asks is what the server answers: over one connection, and with a JSON that
  reads this request and this response back as they were written, on one line, a call returns the
  status, the empty object of a stop, or the identifier of the demo it started; and a method the
  server does not have, or parameters it cannot read, come back as that error.
\<close>

theorem call_gets_the_answer:
  fixes json :: "'v json"
  assumes "js_request_text json \<lparr>aq_id = Some n, aq_method = method, aq_params = params\<rparr> = Ok line"
    and "js_request_of json line = Ok \<lparr>aq_id = Some n, aq_method = method, aq_params = params\<rparr>"
    and "js_response_text json (fst (respond json status new_id line)) = Ok encoded"
    and "js_response_of json encoded = Ok (fst (respond json status new_id line))"
    and "\<forall>c \<in> {NEWLINE, CHR 0x0D}. c \<notin> set line \<and> c \<notin> set encoded"
  shows "call_with json (api_exchange json status new_id) method params n =
     (if method = METHOD_STATUS
      then map_err (\<lambda>error. AC_Api \<lparr>ae_code = ERROR_INVALID_REQUEST, ae_message = error\<rparr>) (js_status_value json status)
      else if method = METHOD_TASK_DEMO
      then map_err (\<lambda>error. AC_Api \<lparr>ae_code = ERROR_INVALID_REQUEST, ae_message = error\<rparr>)
             (bind_result (js_demo_of json (if params = js_null json then js_object json else params))
                (\<lambda>_. js_submitted_value json new_id))
      else if method = METHOD_STOP then Ok (js_object json)
      else Err (AC_Api \<lparr>ae_code = ERROR_UNKNOWN_METHOD, ae_message = ''no method named `'' @ method @ ''`''\<rparr>), n + 1)"
proof -
  obtain response demo stop where r: "respond json status new_id line = (response, demo, stop)"
    by (cases "respond json status new_id line")
  have "connection json status [(line, new_id, True)] =
      ([encoded @ [NEWLINE]], (case demo of None \<Rightarrow> [] | Some demo \<Rightarrow> [demo]), stop)"
    using assms(3) by (simp add: r Let_def)
  then have "api_exchange json status new_id (line @ [NEWLINE]) = Ok (Some encoded)"
    using assms(5) by (simp add: api_exchange_def str_lines_one)
  with assms(1,4) have call: "call_with json (api_exchange json status new_id) method params n =
      (case (ar_result response, ar_error response) of
         (_, Some error) \<Rightarrow> Err (AC_Api error)
       | (Some result, None) \<Rightarrow> Ok result
       | (None, None) \<Rightarrow> Err AC_NoResponse, n + 1)"
    by (simp add: call_with_def r)
  have "response = fst (respond json status new_id line)" by (simp add: r)
  then show ?thesis
    unfolding call
    by (auto simp: respond_def assms(2) submit_demo_def Let_def response_ok_def response_err_def
        METHOD_STATUS_def METHOD_STOP_def METHOD_TASK_DEMO_def split: sum.splits)
qed

theorem call_gets_the_answer_witness:
  "call_with example_json (api_exchange example_json example_status ''9'') METHOD_STATUS ''null'' 1 = (Ok ''2.0'', 2)
   \<and> call_with example_json (api_exchange example_json example_status ''9'') ''nope'' ''null'' 1 =
      (Err (AC_Api \<lparr>ae_code = ERROR_UNKNOWN_METHOD, ae_message = ''no method named `nope`''\<rparr>), 2)"
proof
  show "call_with example_json (api_exchange example_json example_status ''9'') METHOD_STATUS ''null'' 1 = (Ok ''2.0'', 2)"
    by (subst call_gets_the_answer [where line = METHOD_STATUS and encoded = "''2.0''"]; code_simp)
  show "call_with example_json (api_exchange example_json example_status ''9'') ''nope'' ''null'' 1 =
      (Err (AC_Api \<lparr>ae_code = ERROR_UNKNOWN_METHOD, ae_message = ''no method named `nope`''\<rparr>), 2)"
    by (subst call_gets_the_answer [where line = "''nope''" and encoded = "''unknown_method: no method named `nope`''"]; code_simp)
qed

section \<open>The demo counts to its end\<close>

lemma demo_loop_runs:
  assumes "\<forall>k \<in> set (counts @ rest). \<not> cancelled k" and "dp_fail self \<Longrightarrow> \<forall>k \<in> set counts. k * 2 mod 2 ^ 64 < demo_total self"
  shows "demo_loop self cancelled (counts @ rest) =
     (map (demo_progress (demo_total self)) counts @ fst (demo_loop self cancelled rest), snd (demo_loop self cancelled rest))"
  using assms by (induction counts) (auto split: prod.splits)

lemma upt_split: "a \<le> k \<Longrightarrow> k < b \<Longrightarrow> [a..<b] = [a..<k] @ k # [k + 1..<b]"
  using upt_add_eq_append [of a k "b - k"] by (simp add: upt_conv_Cons)

text \<open>
  The demo does what it was told, whatever number of seconds that is short of some hundred
  million years: left alone it reports every count once, in order, up to ten for each second and
  at least one, and ends well; told to fail, it stops with an error at the first count that is at
  least half; cancelled before a count, it reports those before it and settles as cancelled.
\<close>

theorem demo_counts_to_its_end:
  assumes "dp_seconds self * 10 < 2 ^ 62"
  shows "1 \<le> demo_total self
    \<and> (\<not> dp_fail self \<longrightarrow> demo_run self (\<lambda>_. False) =
         (map (demo_progress (demo_total self)) [1..<demo_total self + 1], Ok ()))
    \<and> (dp_fail self \<longrightarrow> demo_run self (\<lambda>_. False) =
         (map (demo_progress (demo_total self)) [1..<(demo_total self + 1) div 2 + 1],
          Err (io_error_new Io_Other ''the demo was told to fail'')))
    \<and> (\<not> dp_fail self \<and> 1 \<le> k \<and> k \<le> demo_total self \<longrightarrow>
         demo_run self (\<lambda>finished. k \<le> finished) =
           (map (demo_progress (demo_total self)) [1..<k], Err (io_error_new Io_Interrupted ''operation interrupted''))
         \<and> state_of_outcome (outcome_of True (Joined (snd (demo_run self (\<lambda>finished. k \<le> finished))))) = Cancelled)"
proof (intro conjI impI)
  let ?total = "demo_total self"
  have total: "1 \<le> ?total" "?total < 2 ^ 62" using assms by (auto simp: demo_total_def)
  show "1 \<le> ?total" by (rule total)
  show "demo_run self (\<lambda>_. False) = (map (demo_progress ?total) [1..<?total + 1], Ok ())" if "\<not> dp_fail self"
    using demo_loop_runs [of "[1..<?total + 1]" "[]" "\<lambda>_. False" self] that by (simp add: demo_run_def)
  show "demo_run self (\<lambda>_. False) = (map (demo_progress ?total) [1..<(?total + 1) div 2 + 1],
      Err (io_error_new Io_Other ''the demo was told to fail''))" if fail: "dp_fail self"
  proof -
    let ?half = "(?total + 1) div 2"
    have "[1..<?total + 1] = [1..<?half] @ ?half # [?half + 1..<?total + 1]"
      using total(1) by (intro upt_split) auto
    moreover have "k * 2 mod 2 ^ 64 < ?total" if "k \<in> set [1..<?half]" for k
      using that total(2) by auto
    moreover have "?total \<le> ?half * 2 mod 2 ^ 64" using total(2) by auto
    ultimately show ?thesis
      using demo_loop_runs [of "[1..<?half]" "?half # [?half + 1..<?total + 1]" "\<lambda>_. False" self] fail total(1)
      by (simp add: demo_run_def)
  qed
  show stopped: "demo_run self (\<lambda>finished. k \<le> finished) =
      (map (demo_progress ?total) [1..<k], Err (io_error_new Io_Interrupted ''operation interrupted''))"
    if k: "\<not> dp_fail self \<and> 1 \<le> k \<and> k \<le> ?total"
  proof -
    have split: "[1..<?total + 1] = [1..<k] @ k # [k + 1..<?total + 1]"
      using k by (intro upt_split) auto
    have "demo_loop self (\<lambda>finished. k \<le> finished) (counts @ k # rest) =
        (map (demo_progress ?total) counts, Err (io_error_new Io_Interrupted ''operation interrupted''))"
      if "\<forall>c \<in> set counts. c < k" for counts rest
      using that k by (induction counts) auto
    with split show ?thesis by (simp add: demo_run_def)
  qed
  show "state_of_outcome (outcome_of True (Joined (snd (demo_run self (\<lambda>finished. k \<le> finished))))) = Cancelled"
    if "\<not> dp_fail self \<and> 1 \<le> k \<and> k \<le> ?total"
    by (simp add: stopped [OF that] outcome_of_def state_of_outcome_def)
qed

theorem demo_counts_to_its_end_witness:
  "demo_run \<lparr>dp_seconds = 1, dp_fail = True\<rparr> (\<lambda>_. False) =
     (map (demo_progress 10) [1, 2, 3, 4, 5], Err (io_error_new Io_Other ''the demo was told to fail''))"
proof -
  have "demo_total \<lparr>dp_seconds = 1, dp_fail = True\<rparr> = 10" by (simp add: demo_total_def)
  moreover have "[1..<(10 + 1) div 2 + 1 :: nat] = [1, 2, 3, 4, 5]" by code_simp
  ultimately show ?thesis
    using demo_counts_to_its_end [of "\<lparr>dp_seconds = 1, dp_fail = True\<rparr>"] by simp
qed

end
