(* ===== verification/ClientStart.thy ===== *)
theory ClientStart
  imports Api Watch
begin

text \<open>
  Waiting for a server: \<open>src/client/mod.rs\<close>'s starting of one and the client's side of stopping
  one in \<open>src/client/api.rs\<close>. What the machine answers is a function of the time it is asked; a
  look takes some time of its own, and a sleep at least as long as asked.
\<close>

section \<open>Loops with a deadline\<close>

text \<open>
  The contract of a loop that looks, sleeps and looks again while the deadline is ahead. It asks
  only that time moves on by the poll between two looks; what it gives is that the loop ends,
  after a bounded number of looks, with the first answer found before the deadline or with the
  time-out.
\<close>

locale polling =
  fixes loop :: "instant \<Rightarrow> 'r"
    and found :: "instant \<Rightarrow> 'r option"
    and again :: "instant \<Rightarrow> instant"
    and deadline :: instant
    and poll :: duration
    and timeout :: 'r
  assumes loop_eq: "loop now = (if now < deadline
      then (case found now of Some r \<Rightarrow> r | None \<Rightarrow> loop (again now)) else timeout)"
    and again_later: "now + poll \<le> again now"
    and poll_pos: "0 < poll"
begin

definition look :: "instant \<Rightarrow> nat \<Rightarrow> instant" where
  "look now k = (again ^^ k) now"

lemma look_later: "now + k * poll \<le> look now k"
proof (induction k)
  case (Suc k)
  have "now + Suc k * poll \<le> look now k + poll" using Suc.IH by simp
  also have "\<dots> \<le> look now (Suc k)" using again_later by (simp add: look_def)
  finally show ?case .
qed (simp add: look_def)

lemma loop_ends:
  "(\<exists>k. look now k < deadline \<and> (\<forall>j < k. found (look now j) = None) \<and> found (look now k) = Some (loop now))
   \<or> loop now = timeout \<and> (\<exists>k. deadline \<le> look now k \<and> (\<forall>j < k. look now j < deadline \<and> found (look now j) = None))"
proof (induction "deadline - now" arbitrary: now rule: less_induct)
  case less
  show ?case
  proof (cases "now < deadline")
    case False
    then have "loop now = timeout" by (subst loop_eq) simp
    moreover have "deadline \<le> look now 0" using False by (simp add: look_def)
    ultimately show ?thesis by blast
  next
    case True
    show ?thesis
    proof (cases "found now")
      case (Some r)
      then have "loop now = r" using True by (subst loop_eq) simp
      with Some True have "look now 0 < deadline \<and> found (look now 0) = Some (loop now)" by (simp add: look_def)
      then show ?thesis by blast
    next
      case None
      then have loop: "loop now = loop (again now)" using True by (subst loop_eq) simp
      have "deadline - again now < deadline - now" using True again_later [of now] poll_pos by linarith
      note ih = less [OF this]
      have shift: "look (again now) j = look now (Suc j)" for j
        by (simp add: look_def funpow_swap1)
      have first: "look now 0 < deadline \<and> found (look now 0) = None" using True None by (simp add: look_def)
      from ih show ?thesis
      proof (elim disjE exE conjE)
        fix k assume "look (again now) k < deadline" "\<forall>j < k. found (look (again now) j) = None"
          "found (look (again now) k) = Some (loop (again now))"
        with first have "look now (Suc k) < deadline \<and> (\<forall>j < Suc k. found (look now j) = None)
            \<and> found (look now (Suc k)) = Some (loop now)"
          by (simp add: shift loop All_less_Suc2)
        then show ?thesis by blast
      next
        fix k assume "loop (again now) = timeout" "deadline \<le> look (again now) k"
          "\<forall>j < k. look (again now) j < deadline \<and> found (look (again now) j) = None"
        with first have "loop now = timeout \<and> deadline \<le> look now (Suc k)
            \<and> (\<forall>j < Suc k. look now j < deadline \<and> found (look now j) = None)"
          by (simp add: shift loop All_less_Suc2)
        then show ?thesis by blast
      qed
    qed
  qed
qed

lemma looks_bounded: "look now k < deadline \<Longrightarrow> k * poll < deadline - now"
  using look_later [of now k] by linarith

end

section \<open>Starting a server\<close>

definition START_TIMEOUT :: duration where "START_TIMEOUT = 5 * 10 ^ 9"
definition START_POLL :: duration where "START_POLL = 25 * 10 ^ 6"

function wait_until_running ::
  "(instant \<Rightarrow> bool) \<Rightarrow> (instant \<Rightarrow> duration) \<Rightarrow> home \<Rightarrow> instant \<Rightarrow> instant \<Rightarrow> (client_error, unit) result" where
  "wait_until_running is_running took home deadline now =
     (if now < deadline
      then if is_running now then Ok ()
           else wait_until_running is_running took home deadline (now + took now + START_POLL)
      else Err (CE_StartTimeout (path_display (server_log home))))"
  by pat_completeness auto

termination wait_until_running
  by (relation "measure (\<lambda>(is_running, took, home, deadline, now). deadline - now)") (auto simp: START_POLL_def)

declare wait_until_running.simps [simp del]

text \<open>What starting the process answers, step by step, and what the child is told.\<close>

record start_answers =
  st_create :: "(io_error, unit) result"
  st_open_log :: "(io_error, unit) result"
  st_executable :: "(io_error, bytes) result"
  st_spawn :: "(io_error, unit) result"

record server_command =
  sc_program :: bytes
  sc_args :: "bytes list"
  sc_env :: "(bytes \<times> bytes) list"

definition start_command :: "home \<Rightarrow> bytes \<Rightarrow> server_command" where
  "start_command home executable =
     \<lparr>sc_program = executable, sc_args = [''server''],
      sc_env = (if is_overridden home then [(HOME_ENV, hm_dir home)] else [])\<rparr>"

definition client_start :: "bool \<Rightarrow> start_answers \<Rightarrow> home \<Rightarrow> (client_error, server_command) result" where
  "client_start linux answers home =
     bind_result (map_err CE_Unstartable (check_sockets linux home)) (\<lambda>_.
     bind_result (map_err (CE_Io (''cannot create '' @ path_display (hm_dir home))) (st_create answers)) (\<lambda>_.
     bind_result (map_err (CE_Io (''cannot open '' @ path_display (server_log home))) (st_open_log answers)) (\<lambda>_.
     bind_result (map_err (CE_Io ''cannot find this executable'') (st_executable answers)) (\<lambda>executable.
     bind_result (map_err (CE_Io ''cannot start the server'') (st_spawn answers)) (\<lambda>_.
     Ok (start_command home executable))))))"

definition client_start_server ::
  "bool \<Rightarrow> start_answers \<Rightarrow> (instant \<Rightarrow> bool) \<Rightarrow> (instant \<Rightarrow> duration) \<Rightarrow> home \<Rightarrow> instant \<Rightarrow> (client_error, unit) result" where
  "client_start_server linux answers is_running took home now =
     bind_result (client_start linux answers home) (\<lambda>_.
     wait_until_running is_running took home (now + START_TIMEOUT) now)"

text \<open>\<open>spawned\<close> is the time the start begins, \<open>attach\<close> what the handshake then answers.\<close>

definition attach_or_start ::
  "bool \<Rightarrow> start_answers \<Rightarrow> (instant \<Rightarrow> bool) \<Rightarrow> (instant \<Rightarrow> duration) \<Rightarrow> home \<Rightarrow> instant \<Rightarrow> instant
   \<Rightarrow> (client_error, attached) result \<Rightarrow> (client_error, attached) result" where
  "attach_or_start linux answers is_running took home now spawned attach =
     bind_result
       (if is_running now then Ok False
        else map_result (\<lambda>_. True) (client_start_server linux answers is_running took home spawned))
       (\<lambda>started. map_result (\<lambda>attached. attached\<lparr>at_started := started\<rparr>) attach)"

lemma waits_like_polling:
  "polling (wait_until_running is_running took home deadline) (\<lambda>now. if is_running now then Some (Ok ()) else None)
     (\<lambda>now. now + took now + START_POLL) deadline START_POLL (Err (CE_StartTimeout (path_display (server_log home))))"
  by unfold_locales (subst wait_until_running.simps, auto simp: START_POLL_def)

interpretation starting: polling
  "wait_until_running is_running took home deadline" "\<lambda>now. if is_running now then Some (Ok ()) else None"
  "\<lambda>now. now + took now + START_POLL" deadline START_POLL "Err (CE_StartTimeout (path_display (server_log home)))"
  for is_running took home deadline
  by (rule waits_like_polling)

text \<open>When the k-th look at the server is, counted from zero.\<close>

definition start_look :: "(instant \<Rightarrow> duration) \<Rightarrow> instant \<Rightarrow> nat \<Rightarrow> instant" where
  "start_look took now k = ((\<lambda>now. now + took now + START_POLL) ^^ k) now"

lemma start_look_eq: "starting.look took now k = start_look took now k"
  by (simp add: starting.look_def start_look_def)



section \<open>Stopping a server\<close>

definition STOP_TIMEOUT :: duration where "STOP_TIMEOUT = 10 * 10 ^ 9"
definition STOP_POLL :: duration where "STOP_POLL = 25 * 10 ^ 6"

function wait_until_gone ::
  "(instant \<Rightarrow> bool) \<Rightarrow> (instant \<Rightarrow> duration) \<Rightarrow> instant \<Rightarrow> instant \<Rightarrow> (api_client_error, bool) result" where
  "wait_until_gone exists_at took deadline now =
     (if now < deadline
      then if \<not> exists_at now then Ok True
           else wait_until_gone exists_at took deadline (now + took now + STOP_POLL)
      else Err AC_StopTimeout)"
  by pat_completeness auto

termination wait_until_gone
  by (relation "measure (\<lambda>(exists_at, took, deadline, now). deadline - now)") (auto simp: STOP_POLL_def)

declare wait_until_gone.simps [simp del]

definition api_stop ::
  "'v json \<Rightarrow> (io_error, unit) result \<Rightarrow> (bytes \<Rightarrow> (io_error, bytes option) result) \<Rightarrow> (instant \<Rightarrow> bool)
   \<Rightarrow> (instant \<Rightarrow> duration) \<Rightarrow> instant \<Rightarrow> (api_client_error, bool) result" where
  "api_stop json connected exchange exists_at took now =
     (case api_connect connected of
        Inl error \<Rightarrow> if error = AC_NotRunning then Ok False else Err error
      | Inr _ \<Rightarrow>
          bind_result (fst (api_call json exchange METHOD_STOP 1)) (\<lambda>_.
          wait_until_gone exists_at took (now + STOP_TIMEOUT) now))"

interpretation stopping: polling
  "wait_until_gone exists_at took deadline" "\<lambda>now. if \<not> exists_at now then Some (Ok True) else None"
  "\<lambda>now. now + took now + STOP_POLL" deadline STOP_POLL "Err AC_StopTimeout"
  for exists_at took deadline
  by unfold_locales (subst wait_until_gone.simps, auto simp: STOP_POLL_def)

text \<open>
  A stop that says a server stopped saw its socket gone: it answers \<open>true\<close> only if the server
  took the request and the socket was missing at a look within the ten seconds, \<open>false\<close> only if
  nothing answered at all, and otherwise fails.
\<close>

theorem stop_saw_it_gone:
  "(api_stop json connected exchange exists_at took now = Ok True \<longrightarrow>
      connected = Ok () \<and> (\<exists>v. fst (api_call json exchange METHOD_STOP 1) = Ok v)
      \<and> (\<exists>t. now \<le> t \<and> t < now + STOP_TIMEOUT \<and> \<not> exists_at t))
   \<and> (api_stop json connected exchange exists_at took now = Ok False \<longleftrightarrow>
      (\<exists>error. connected = Err error \<and> io_kind error \<in> {Io_NotFound, Io_ConnectionRefused}))"
proof -
  have gone: "\<exists>t. now \<le> t \<and> t < now + STOP_TIMEOUT \<and> \<not> exists_at t"
    if "wait_until_gone exists_at took (now + STOP_TIMEOUT) now = Ok True"
    using stopping.loop_ends [where now = now and exists_at = exists_at and took = took and deadline = "now + STOP_TIMEOUT"] that
      stopping.look_later [where now = now and took = took]
    by (auto split: if_splits) (meson add_leD1)
  have never: "wait_until_gone exists_at took deadline t \<noteq> Ok False" for deadline t
    by (induction exists_at took deadline t rule: wait_until_gone.induct) (subst wait_until_gone.simps, simp)
  show ?thesis
    using gone never
    by (cases connected) (auto simp: api_stop_def api_connect_def bind_result_Inr split: if_splits)
qed

theorem stop_saw_it_gone_witness:
  "api_stop example_json (Ok ()) (api_exchange example_json example_status ''9'') (\<lambda>t. t < 60 * 10 ^ 6) (\<lambda>_. 10 ^ 6) 0 = Ok True
   \<and> (\<exists>t. 0 \<le> t \<and> t < STOP_TIMEOUT \<and> \<not> t < (60 * 10 ^ 6 :: nat))"
proof -
  have "api_stop example_json (Ok ()) (api_exchange example_json example_status ''9'') (\<lambda>t. t < 60 * 10 ^ 6) (\<lambda>_. 10 ^ 6) 0 = Ok True"
    by code_simp
  with stop_saw_it_gone [of example_json "Ok ()" "api_exchange example_json example_status ''9''" "\<lambda>t. t < 60 * 10 ^ 6" "\<lambda>_. 10 ^ 6" 0]
  show ?thesis by simp
qed

end
