(* ===== verification/Cli.thy ===== *)
theory Cli
  imports ClientStart
begin

text \<open>
  \<open>src/cli/mod.rs\<close> and \<open>src/cli/host.rs\<close>: which role an invocation runs, what its commands print,
  and what a host answers a client that runs it over SSH. The argument parser is a library's: a
  parsed command line is its result, kept beside the arguments as given.
\<close>

section \<open>The command line\<close>

datatype machine_action =
    MA_Add bytes bytes bool
  | MA_List
  | MA_Remove bytes
  | MA_Login bytes

datatype task_action = TA_Demo nat bool

datatype server_action = SA_Start_server | SA_Stop_server

datatype cli_command =
    Cmd_Status
  | Cmd_Server "server_action option"
  | Cmd_Task task_action
  | Cmd_Machine machine_action
  | Cmd_Bridge
  | Cmd_Probe
  | Cmd_BuildInfo

record cli =
  cl_machine :: "bytes option"
  cl_command :: "cli_command option"

datatype client_command =
    CC_Start
  | CC_Status
  | CC_Stop
  | CC_Demo nat bool
  | CC_Bridge
  | CC_Probe
  | CC_BuildInfo
  | CC_MachineAdd bytes bytes bool
  | CC_MachineList
  | CC_MachineRemove bytes
  | CC_MachineLogin bytes
  | CC_Remote bytes "bytes list"

datatype invoked =
    Inv_Server
  | Inv_Tui
  | Inv_Client client_command
  | Inv_Refused bytes

text \<open>The arguments as given, without \<open>--machine <label>\<close>; the flag says the next is the label.\<close>

fun strip_machine :: "bool \<Rightarrow> bytes list \<Rightarrow> bytes list" where
  "strip_machine skip [] = []"
| "strip_machine True (arg # raw) = strip_machine False raw"
| "strip_machine False (arg # raw) =
     (if arg = ''--machine'' then strip_machine True raw
      else if \<not> starts_with (from_utf8_lossy arg) ''--machine='' then arg # strip_machine False raw
      else strip_machine False raw)"

definition without_machine :: "bytes list \<Rightarrow> bytes list" where
  "without_machine raw = strip_machine False raw"

fun machine_command :: "machine_action \<Rightarrow> client_command" where
  "machine_command (MA_Add label ssh yes) = CC_MachineAdd label ssh yes"
| "machine_command MA_List = CC_MachineList"
| "machine_command (MA_Remove label) = CC_MachineRemove label"
| "machine_command (MA_Login label) = CC_MachineLogin label"

definition invocation :: "cli \<Rightarrow> bytes list \<Rightarrow> invoked" where
  "invocation cli raw =
     (case cl_machine cli of
        Some label \<Rightarrow>
          (case cl_command cli of
             None \<Rightarrow> Inv_Refused ''the terminal UI already lists every machine; run `fpk` without --machine''
           | Some Cmd_Status \<Rightarrow> Inv_Client (CC_Remote label (without_machine raw))
           | Some (Cmd_Server (Some _)) \<Rightarrow> Inv_Client (CC_Remote label (without_machine raw))
           | Some (Cmd_Task _) \<Rightarrow> Inv_Client (CC_Remote label (without_machine raw))
           | Some _ \<Rightarrow> Inv_Refused ''this command does not run on a machine'')
      | None \<Rightarrow>
          (case cl_command cli of
             None \<Rightarrow> Inv_Tui
           | Some Cmd_Status \<Rightarrow> Inv_Client CC_Status
           | Some (Cmd_Server None) \<Rightarrow> Inv_Server
           | Some (Cmd_Server (Some SA_Start_server)) \<Rightarrow> Inv_Client CC_Start
           | Some (Cmd_Server (Some SA_Stop_server)) \<Rightarrow> Inv_Client CC_Stop
           | Some (Cmd_Task (TA_Demo seconds fail)) \<Rightarrow> Inv_Client (CC_Demo seconds fail)
           | Some Cmd_Bridge \<Rightarrow> Inv_Client CC_Bridge
           | Some Cmd_Probe \<Rightarrow> Inv_Client CC_Probe
           | Some Cmd_BuildInfo \<Rightarrow> Inv_Client CC_BuildInfo
           | Some (Cmd_Machine action) \<Rightarrow> Inv_Client (machine_command action)))"

section \<open>What the commands print\<close>

definition uptime :: "nat \<Rightarrow> nat \<Rightarrow> bytes" where
  "uptime now started_unix_seconds =
     (let seconds = now - started_unix_seconds in
      if seconds < 60 then show_nat seconds @ ''s''
      else if seconds < 3600 then show_nat (seconds div 60) @ ''m '' @ show_nat (seconds mod 60) @ ''s''
      else show_nat (seconds div 3600) @ ''h '' @ show_nat (seconds mod 3600 div 60) @ ''m'')"

definition cli_status ::
  "bytes \<Rightarrow> nat \<Rightarrow> home \<Rightarrow> (api_client_error, unit) result \<Rightarrow> (api_client_error, server_status) result
   \<Rightarrow> (bytes, unit) result \<times> bytes list" where
  "cli_status version now home connected status =
     (let client = [''client:'', ''  version: '' @ version, ''  protocol: '' @ show_nat CLIENT_PROTOCOL,
                    ''  api generation: '' @ show_nat API_GENERATION, ''server:''] in
      case bind_result connected (\<lambda>_. status) of
        Inr status \<Rightarrow>
          (Ok (), client @
             [''  status: running'', ''  version: '' @ ss_version status, ''  pid: '' @ show_nat (ss_pid status),
              ''  protocol: '' @ show_nat (ss_client_protocol status) @ '' (''
                @ (if ss_client_protocol status = CLIENT_PROTOCOL then ''compatible'' else ''incompatible'') @ '')'',
              ''  api generation: '' @ show_nat (ss_api_generation status),
              ''  uptime: '' @ uptime now (ss_started_unix_seconds status),
              ''  home: '' @ path_display (ss_home status)])
      | Inl error \<Rightarrow>
          if error = AC_NotRunning
          then (Ok (), client @ [''  status: not running'', ''  home: '' @ path_display (hm_dir home)])
          else (Err (api_client_error_text error), client))"

definition cli_start ::
  "(client_error \<Rightarrow> bytes) \<Rightarrow> (client_error, attached) result \<Rightarrow> (bytes, unit) result \<times> bytes list
   \<Rightarrow> (bytes, unit) result \<times> bytes list" where
  "cli_start show_error attached status =
     (case attached of
        Inl error \<Rightarrow> (Err (show_error error), [])
      | Inr attached \<Rightarrow>
          (fst status,
           (if at_started attached then ''started the server'' else ''the server was already running'') # snd status))"

definition cli_stop :: "(api_client_error, bool) result \<Rightarrow> (bytes, unit) result \<times> bytes list" where
  "cli_stop stopped =
     (case stopped of
        Inr True \<Rightarrow> (Ok (), [''server stopped''])
      | Inr False \<Rightarrow> (Ok (), [''no server is running''])
      | Inl error \<Rightarrow> (Err (api_client_error_text error), []))"

definition cli_demo ::
  "(client_error \<Rightarrow> bytes) \<Rightarrow> (client_error, attached) result \<Rightarrow> (api_client_error, unit) result
   \<Rightarrow> (api_client_error, bytes) result \<Rightarrow> (bytes, unit) result \<times> bytes list" where
  "cli_demo show_error attached connected submitted =
     (case bind_result (map_err show_error attached) (\<lambda>_.
           bind_result (map_err api_client_error_text connected) (\<lambda>_.
           map_err api_client_error_text submitted)) of
        Inl error \<Rightarrow> (Err error, [])
      | Inr i \<Rightarrow> (Ok (), [''started demo.count task '' @ i]))"

definition EXIT_SUCCESS :: nat where "EXIT_SUCCESS = 0"

text \<open>How a command's outcome becomes the exit code and the line on standard error.\<close>

definition execute :: "(bytes, nat) result \<Rightarrow> nat \<times> bytes list" where
  "execute result =
     (case result of
        Inr code \<Rightarrow> (code, [])
      | Inl message \<Rightarrow> (EXIT_FAILURE, [''fpk: '' @ message]))"

section \<open>What a host answers\<close>

definition NO_SERVER :: nat where "NO_SERVER = 3"

definition build_kind :: "bool \<Rightarrow> bytes" where
  "build_kind release = (if release then ''release'' else ''dev'')"

definition host_source_hash :: "(bytes, bytes) result \<Rightarrow> (bytes, bytes) result \<Rightarrow> bytes option" where
  "host_source_hash executable recorded =
     (case (executable, recorded) of
        (Inr _, Inr text) \<Rightarrow> (if trim text = [] then None else Some (trim text))
      | _ \<Rightarrow> None)"

definition host_probe :: "bytes \<Rightarrow> bool \<Rightarrow> bytes option \<Rightarrow> bool \<Rightarrow> probe" where
  "host_probe version release source_hash is_running =
     \<lparr>pb_installed = True, pb_version = version, pb_client_protocol = CLIENT_PROTOCOL,
      pb_build = build_kind release, pb_source_hash = source_hash, pb_server_running = is_running\<rparr>"

definition bridge :: "(io_error, unit) result \<Rightarrow> (io_error, unit) result \<Rightarrow> (bytes, nat) result \<times> bytes list" where
  "bridge connected copied =
     (case connected of
        Inl _ \<Rightarrow> (Ok NO_SERVER, [''fpk: no server is running on this host''])
      | Inr _ \<Rightarrow>
          (case copied of
             Inr _ \<Rightarrow> Ok EXIT_SUCCESS
           | Inl error \<Rightarrow>
               if io_kind error \<in> {Io_BrokenPipe, Io_ConnectionReset} then Ok EXIT_SUCCESS
               else Err (''the bridge failed: '' @ io_text error), []))"

section \<open>A command run on a machine\<close>

text \<open>An argument that has nothing to do with choosing a machine.\<close>

definition plain_arg :: "bytes \<Rightarrow> bool" where
  "plain_arg arg \<longleftrightarrow> arg \<noteq> ''--machine'' \<and> \<not> starts_with (from_utf8_lossy arg) ''--machine=''"

lemma strip_plain: "list_all plain_arg args \<Longrightarrow> strip_machine False (args @ rest) = args @ strip_machine False rest"
  by (induction args) (auto simp: plain_arg_def)

text \<open>
  C25. A command sent to a machine arrives as it was typed: wherever among its arguments the
  choice of machine stands, in either spelling, it alone is taken away, what is left is the
  command without a machine, and the shell on the host reads back exactly those arguments - so
  that \<open>fpk\<close> there parses what was meant.
\<close>

theorem remote_command_arrives:
  assumes "list_all plain_arg before" and "list_all plain_arg later" and "cl_machine cli = Some label"
    and "cl_command cli \<in> {Some Cmd_Status, Some (Cmd_Server (Some action)), Some (Cmd_Task demo)}"
    and "choice = [''--machine'', label] \<or> choice = [''--machine='' @ label]"
    and "list_all utf8_valid (before @ later)" and "utf8_valid label"
  shows "invocation cli (before @ choice @ later) = Inv_Client (CC_Remote label (before @ later))
    \<and> sh_split (drop (length (REMOTE_FPK @ '' '')) (remote_args (before @ later))) = Ok (before @ later)"
proof
  have "utf8_valid (''--machine='' @ label)"
    by (intro utf8_valid_append assms(7) utf8_valid_ascii) simp
  then have "starts_with (from_utf8_lossy (''--machine='' @ label)) ''--machine=''"
    by (simp add: from_utf8_lossy_valid)
  then have "strip_machine False (choice @ later) = strip_machine False later"
    using assms(5) by auto
  then have "without_machine (before @ choice @ later) = before @ later"
    using strip_plain [OF assms(1), of "choice @ later"] strip_plain [OF assms(2), of "[]"]
    by (simp add: without_machine_def)
  then show "invocation cli (before @ choice @ later) = Inv_Client (CC_Remote label (before @ later))"
    using assms(3,4) by (auto simp: invocation_def)
  have "map from_utf8_lossy (before @ later) = before @ later"
    using assms(6) by (intro map_idI) (auto simp: list_all_iff intro!: from_utf8_lossy_valid)
  then show "sh_split (drop (length (REMOTE_FPK @ '' '')) (remote_args (before @ later))) = Ok (before @ later)"
    by (simp only: remote_args_def append_assoc [symmetric] append_eq_conv_conj [THEN iffD1, THEN conjunct2] shell.dec_enc)
       (simp add: shell.dec_enc)
qed

theorem remote_command_arrives_witness:
  "invocation \<lparr>cl_machine = Some ''box'', cl_command = Some (Cmd_Task (TA_Demo 9 False))\<rparr>
       ([''task'', ''demo''] @ [''--machine'', ''box''] @ [''--seconds'', ''9'']) =
     Inv_Client (CC_Remote ''box'' ([''task'', ''demo''] @ [''--seconds'', ''9'']))
   \<and> sh_split (drop (length (REMOTE_FPK @ '' '')) (remote_args ([''task'', ''demo''] @ [''--seconds'', ''9'']))) =
     Ok ([''task'', ''demo''] @ [''--seconds'', ''9''])"
  by (rule remote_command_arrives [where demo = "TA_Demo 9 False"]; code_simp)

end
