(* ===== verification/BrowserValue.thy ===== *)
theory BrowserValue
  imports StdIo
begin

text \<open>
  \<open>old/src/browser/value.rs\<close>: how a size and a modification time read on screen. A \<open>u64\<close> is a
  number below \<open>2 ^ 64\<close>; a \<open>SystemTime\<close> is its distance from the epoch in nanoseconds, which
  may be negative.
\<close>

section \<open>Sizes\<close>

definition UNITS :: "bytes list" where
  "UNITS = [''B'', ''K'', ''M'', ''G'', ''T'']"

function scale :: "nat \<Rightarrow> nat \<Rightarrow> nat \<times> nat" where
  "scale unit whole =
     (if 1024 \<le> whole \<and> unit + 1 < length UNITS then scale (unit + 1) (whole div 1024) else (unit, whole))"
  by pat_completeness auto

termination scale
  by (relation "measure snd") auto

declare scale.simps [simp del]

definition format_size :: "nat \<Rightarrow> bytes" where
  "format_size n =
     (let (unit, whole) = scale 0 n; suffix = UNITS ! unit in
      if unit = 0 then show_nat n @ '' '' @ suffix
      else if whole < 10
      then (let divisor = 1024 ^ unit; tenths = (n mod divisor) * 10 div divisor
            in show_nat whole @ ''.'' @ show_nat tenths @ '' '' @ suffix)
      else show_nat whole @ '' '' @ suffix)"

section \<open>Times\<close>

definition NANOS_PER_SEC :: int where "NANOS_PER_SEC = 1000000000"

definition U32_LIMIT :: int where "U32_LIMIT = 2 ^ 32"

definition u32_or_one :: "int \<Rightarrow> int" where
  "u32_or_one n = (if 0 \<le> n \<and> n < U32_LIMIT then n else 1)"

definition civil_from_days :: "int \<Rightarrow> int \<times> int \<times> int" where
  "civil_from_days days =
     (let shifted = days + 719468;
          era = shifted div 146097;
          day_of_era = shifted mod 146097;
          year_of_era = (day_of_era - day_of_era div 1460 + day_of_era div 36524 - day_of_era div 146096) div 365;
          day_of_year = day_of_era - (365 * year_of_era + year_of_era div 4 - year_of_era div 100);
          shifted_month = (5 * day_of_year + 2) div 153;
          day = u32_or_one (day_of_year - (153 * shifted_month + 2) div 5 + 1);
          month = u32_or_one (if shifted_month < 10 then shifted_month + 3 else shifted_month - 9);
          year = year_of_era + era * 400 + (if month \<le> 2 then 1 else 0)
      in (year, month, day))"

text \<open>\<open>{:0w}\<close> of an integer: the sign counts towards the width and comes before the zeros.\<close>

definition zero_pad :: "nat \<Rightarrow> int \<Rightarrow> bytes" where
  "zero_pad width n =
     (let digits = show_nat (nat \<bar>n\<bar>); sign = (if n < 0 then ''-'' else '''')
      in sign @ replicate (width - length sign - length digits) (CHR ''0'') @ digits)"

text \<open>
  Both ways from the epoch a time is a duration, whose whole seconds are its nanoseconds divided
  and rounded down.
\<close>

definition seconds_of :: "int \<Rightarrow> int" where
  "seconds_of time =
     (if 0 \<le> time then min (time div NANOS_PER_SEC) (2 ^ 63 - 1)
      else - min ((- time) div NANOS_PER_SEC) (2 ^ 63 - 1))"

definition format_modified :: "int \<Rightarrow> bytes" where
  "format_modified time =
     (let seconds = seconds_of time;
          days = seconds div 86400;
          within_day = seconds mod 86400;
          (year, month, day) = civil_from_days days;
          hour = within_day div 3600;
          minute = within_day mod 3600 div 60
      in zero_pad 4 year @ ''-'' @ zero_pad 2 month @ ''-'' @ zero_pad 2 day @ '' ''
         @ zero_pad 2 hour @ '':'' @ zero_pad 2 minute)"

section \<open>The calendar\<close>

text \<open>The Gregorian calendar, a day at a time.\<close>

definition leap_year :: "int \<Rightarrow> bool" where
  "leap_year y \<longleftrightarrow> y mod 4 = 0 \<and> (y mod 100 \<noteq> 0 \<or> y mod 400 = 0)"

definition month_length :: "int \<Rightarrow> int \<Rightarrow> int" where
  "month_length y m =
     (if m = 2 then (if leap_year y then 29 else 28) else if m \<in> {4, 6, 9, 11} then 30 else 31)"

fun next_day :: "int \<times> int \<times> int \<Rightarrow> int \<times> int \<times> int" where
  "next_day (y, m, d) =
     (if d < month_length y m then (y, m, d + 1)
      else if m < 12 then (y, m + 1, 1)
      else (y + 1, 1, 1))"

definition year_of_era :: "int \<Rightarrow> int" where
  "year_of_era doe = (doe - doe div 1460 + doe div 36524 - doe div 146096) div 365"

text \<open>The first day of a year of the era, which begins in March, and the last.\<close>

definition year_start :: "int \<Rightarrow> int" where
  "year_start y = 365 * y + y div 4 - y div 100"

definition year_last :: "int \<Rightarrow> int" where
  "year_last y = (if y = 399 then 146096 else year_start (y + 1) - 1)"

lemma years_at_their_ends:
  "list_all (\<lambda>y. year_of_era (year_start y) = y \<and> year_of_era (year_last y) = y
     \<and> 0 \<le> year_start y \<and> year_last y \<le> 146096) [0..399]"
  by code_simp

lemma year_of_era_mono:
  assumes "0 \<le> a" "a \<le> b" "b \<le> 146096"
  shows "year_of_era a \<le> year_of_era b"
proof -
  have part: "x - x div 1460 \<le> y - y div 1460" "x div 36524 \<le> y div 36524" if "x \<le> y" for x y :: int
  proof -
    have "y div 1460 \<le> (x + (y - x) * 1460) div 1460" using that by (intro zdiv_mono1) auto
    then show "x - x div 1460 \<le> y - y div 1460" by simp
    show "x div 36524 \<le> y div 36524" using that by (intro zdiv_mono1) auto
  qed
  have "a - a div 1460 + a div 36524 - a div 146096 \<le> b - b div 1460 + b div 36524 - b div 146096"
  proof (cases "b = 146096")
    case True
    have "a - a div 1460 \<le> 145995 \<and> a div 36524 \<le> 3" if "a \<le> 146095"
      using part [OF that] by simp
    with True assms show ?thesis by (cases "a = 146096") auto
  next
    case False
    with assms have "a div 146096 = 0" "b div 146096 = 0" by auto
    then show ?thesis using part [OF assms(2)] by linarith
  qed
  then show ?thesis unfolding year_of_era_def by (intro zdiv_mono1) auto
qed

lemma year_ends:
  assumes "0 \<le> y" "y \<le> 399"
  shows "year_of_era (year_start y) = y" "year_of_era (year_last y) = y"
  using years_at_their_ends assms by (auto simp: list_all_iff)

lemma year_range: "0 \<le> y \<Longrightarrow> y \<le> 399 \<Longrightarrow> 0 \<le> year_start y \<and> year_last y \<le> 146096"
  using years_at_their_ends by (auto simp: list_all_iff)

lemma year_of_era_unique:
  assumes "0 \<le> y" "y \<le> 399" "year_start y \<le> doe" "doe \<le> year_last y"
  shows "year_of_era doe = y"
proof -
  have "year_of_era (year_start y) \<le> year_of_era doe" "year_of_era doe \<le> year_of_era (year_last y)"
    using year_range [OF assms(1,2)] assms(3,4) by (auto intro: year_of_era_mono)
  then show ?thesis using year_ends [OF assms(1,2)] by simp
qed

lemma some_year:
  assumes "0 \<le> doe" "doe \<le> year_last (int n)" "n \<le> 399"
  shows "\<exists>y. 0 \<le> y \<and> y \<le> 399 \<and> year_start y \<le> doe \<and> doe \<le> year_last y"
  using assms
proof (induction n)
  case 0
  then show ?case by (intro exI [of _ 0]) (auto simp: year_start_def)
next
  case (Suc n)
  show ?case
  proof (cases "doe \<le> year_last (int n)")
    case True
    with Suc show ?thesis by simp
  next
    case False
    moreover have "year_last (int n) = year_start (int (Suc n)) - 1"
      using Suc.prems(3) by (simp add: year_last_def add.commute)
    ultimately show ?thesis using Suc.prems by (intro exI [of _ "int (Suc n)"]) auto
  qed
qed

lemma era_split:
  assumes "0 \<le> doe" "doe < 146097"
  shows "0 \<le> year_of_era doe \<and> year_of_era doe \<le> 399
    \<and> year_start (year_of_era doe) \<le> doe \<and> doe \<le> year_last (year_of_era doe)"
proof -
  from assms some_year [of doe 399] obtain y where y: "0 \<le> y" "y \<le> 399" "year_start y \<le> doe" "doe \<le> year_last y"
    by (auto simp: year_last_def)
  with year_of_era_unique [OF this] show ?thesis by simp
qed

lemma leap_year_period: "leap_year (y + 400 * era) = leap_year y"
  using mod_mult_self2 [of y 4 "100 * era"] mod_mult_self2 [of y 100 "4 * era"] mod_mult_self2 [of y 400 era]
  by (simp add: leap_year_def)

lemma year_lengths:
  "list_all (\<lambda>y. year_last y - year_start y = (if leap_year (y + 1) then 365 else 364)) [0..399]"
  by code_simp

lemma year_length:
  "0 \<le> y \<Longrightarrow> y \<le> 399 \<Longrightarrow> year_last y - year_start y = (if leap_year (y + 1) then 365 else 364)"
  using year_lengths by (auto simp: list_all_iff)

lemma era_position:
  fixes n x era :: int
  assumes "n = x + era * 146097" "0 \<le> x" "x < 146097"
  shows "n mod 146097 = x \<and> n div 146097 = era"
  using assms by simp

section \<open>The day of a year\<close>

text \<open>The date of the \<open>n\<close>th day after the first of March of a year.\<close>

definition date_of :: "int \<Rightarrow> int \<Rightarrow> int \<times> int \<times> int" where
  "date_of year n =
     (let shifted_month = (5 * n + 2) div 153;
          month = (if shifted_month < 10 then shifted_month + 3 else shifted_month - 9)
      in (year + (if month \<le> 2 then 1 else 0), month, n - (153 * shifted_month + 2) div 5 + 1))"

definition steps_on :: "int \<Rightarrow> bool" where
  "steps_on n \<longleftrightarrow>
     (let (_, m, d) = date_of 0 n; (_, m', d') = date_of 0 (n + 1) in
      1 \<le> d \<and> 1 \<le> m \<and> m \<le> 12
      \<and> (if m = 2 then d < 28 \<and> m' = 2 \<and> d' = d + 1
         else if d < month_length 0 m then m' = m \<and> d' = d + 1
         else d' = 1 \<and> m' = (if m < 12 then m + 1 else 1)))"

lemma days_step_on: "list_all steps_on [0..363]"
  by code_simp

lemma day_ranges:
  "list_all (\<lambda>n. let q = (5 * n + 2) div 153; d = n - (153 * q + 2) div 5 + 1 in
     0 \<le> q \<and> q \<le> 11 \<and> 0 \<le> d \<and> d \<le> 31) [0..365]"
  by code_simp

lemma day_range:
  fixes n :: int
  assumes "0 \<le> n" "n \<le> 365"
  shows "0 \<le> (5 * n + 2) div 153" "(5 * n + 2) div 153 \<le> 11"
    "0 \<le> n - (153 * ((5 * n + 2) div 153) + 2) div 5 + 1" "n - (153 * ((5 * n + 2) div 153) + 2) div 5 + 1 \<le> 31"
  using day_ranges assms by (auto simp: list_all_iff Let_def)

lemma date_of_year: "date_of year n = (let (y, m, d) = date_of 0 n in (year + y, m, d))"
  by (simp add: date_of_def Let_def)

lemma date_of_fst: "fst (date_of year n) = year + (if fst (snd (date_of year n)) \<le> 2 then 1 else 0)"
  by (simp only: date_of_def Let_def fst_conv snd_conv)

lemma date_of_next:
  assumes "0 \<le> n" "n \<le> 363"
  shows "next_day (date_of year n) = date_of year (n + 1)"
proof -
  obtain y m d where now: "date_of 0 n = (y, m, d)" by (rule prod_cases3)
  obtain y' m' d' where later: "date_of 0 (n + 1) = (y', m', d')" by (rule prod_cases3)
  note at = now later
  have years: "y = (if m \<le> 2 then 1 else 0)" "y' = (if m' \<le> 2 then 1 else 0)"
    using date_of_fst [of 0 n] date_of_fst [of 0 "n + 1"] unfolding at by simp_all
  have step: "steps_on n" using days_step_on assms by (auto simp: list_all_iff)
  have lengths: "month_length (year + y) m = month_length 0 m" if "m \<noteq> 2" using that by (simp add: month_length_def)
  have "next_day (year + y, m, d) = (year + y', m', d')"
  proof (cases "m = 2")
    case True
    with step at have "d < 28" "m' = 2" "d' = d + 1" by (simp_all add: steps_on_def)
    then show ?thesis using True years by (simp add: month_length_def)
  next
    case False
    show ?thesis
    proof (cases "d < month_length 0 m")
      case True
      with False step at have "m' = m" "d' = d + 1" by (simp_all add: steps_on_def)
      with True False years lengths show ?thesis by simp
    next
      case False
      with \<open>m \<noteq> 2\<close> step at have "d' = 1" "m' = (if m < 12 then m + 1 else 1)" "1 \<le> m" "m \<le> 12"
        by (simp_all add: steps_on_def)
      with False \<open>m \<noteq> 2\<close> years lengths show ?thesis by auto
    qed
  qed
  then show ?thesis unfolding date_of_year [of year] at by simp
qed

lemma date_of_ends:
  "date_of year 0 = (year, 3, 1)" "date_of year 364 = (year + 1, 2, 28)" "date_of year 365 = (year + 1, 2, 29)"
  by (simp_all add: date_of_def)

lemma civil_from_days_date:
  "civil_from_days days =
     (let doe = (days + 719468) mod 146097; y = year_of_era doe
      in date_of (y + (days + 719468) div 146097 * 400) (doe - year_start y))"
proof -
  define doe where "doe = (days + 719468) mod 146097"
  define era where "era = (days + 719468) div 146097"
  define n where "n = doe - year_start (year_of_era doe)"
  define q where "q = (5 * n + 2) div 153"
  have small: "u32_or_one x = x" if "0 \<le> x" "x \<le> 31" for x
    using that by (simp add: u32_or_one_def U32_LIMIT_def)
  have "civil_from_days days =
      (let day = u32_or_one (n - (153 * q + 2) div 5 + 1); month = u32_or_one (if q < 10 then q + 3 else q - 9)
       in (year_of_era doe + era * 400 + (if month \<le> 2 then 1 else 0), month, day))"
    unfolding civil_from_days_def Let_def q_def n_def doe_def era_def year_of_era_def year_start_def by (rule refl)
  moreover have "0 \<le> doe" "doe < 146097" by (simp_all add: doe_def)
  then have "0 \<le> n" "n \<le> 365"
    using era_split [of doe] year_length [of "year_of_era doe"] by (auto simp: n_def split: if_splits)
  from day_range [OF this, folded q_def] have "u32_or_one (n - (153 * q + 2) div 5 + 1) = n - (153 * q + 2) div 5 + 1"
    "u32_or_one (if q < 10 then q + 3 else q - 9) = (if q < 10 then q + 3 else q - 9)"
    by (auto intro: small)
  ultimately show ?thesis
    unfolding Let_def doe_def [symmetric] era_def [symmetric] n_def [symmetric] date_of_def q_def [symmetric] by simp
qed

text \<open>
  C38. The date of a number of days is the calendar's: day zero is the first of January 1970, and
  one day more is the next day, before the epoch and after it, for as far as numbers go.
\<close>

theorem days_are_dates:
  "civil_from_days 0 = (1970, 1, 1) \<and> civil_from_days (days + 1) = next_day (civil_from_days days)"
proof
  show "civil_from_days 0 = (1970, 1, 1)" by code_simp
  define era where "era = (days + 719468) div 146097"
  define doe where "doe = (days + 719468) mod 146097"
  define y where "y = year_of_era doe"
  let ?year = "y + era * 400"
  have days: "days + 719468 = era * 146097 + doe" "0 \<le> doe" "doe < 146097" by (simp_all add: era_def doe_def)
  have y: "0 \<le> y" "y \<le> 399" "year_start y \<le> doe" "doe \<le> year_last y" using era_split [of doe] days by (auto simp: y_def)
  have now: "civil_from_days days = date_of ?year (doe - year_start y)"
    by (simp add: civil_from_days_date Let_def era_def doe_def y_def)
  have len: "year_last y - year_start y = (if leap_year (?year + 1) then 365 else 364)"
    using year_length [OF y(1,2)] leap_year_period [of "y + 1" era] by (simp add: algebra_simps)
  show "civil_from_days (days + 1) = next_day (civil_from_days days)"
  proof (cases "doe = year_last y")
    case False
    with y year_range [of y] have "0 \<le> doe + 1" "doe + 1 < 146097" by auto
    moreover have "days + 1 + 719468 = doe + 1 + era * 146097" using days(1) by simp
    ultimately have "(days + 1 + 719468) mod 146097 = doe + 1 \<and> (days + 1 + 719468) div 146097 = era"
      by (intro era_position)
    then have doe: "(days + 1 + 719468) mod 146097 = doe + 1" "(days + 1 + 719468) div 146097 = era" by auto
    moreover have "year_of_era (doe + 1) = y" using False y by (intro year_of_era_unique) auto
    ultimately have "civil_from_days (days + 1) = date_of ?year (doe - year_start y + 1)"
      by (simp add: civil_from_days_date Let_def algebra_simps)
    moreover have "next_day (date_of ?year (doe - year_start y)) = date_of ?year (doe - year_start y + 1)"
    proof (cases "doe - year_start y \<le> 363")
      case True
      with y show ?thesis by (intro date_of_next) auto
    next
      case False
      with \<open>doe \<noteq> year_last y\<close> y len have "leap_year (?year + 1)" "doe - year_start y = 364" by (auto split: if_splits)
      then show ?thesis by (simp add: date_of_ends month_length_def)
    qed
    ultimately show ?thesis by (simp add: now)
  next
    case True
    have "civil_from_days (days + 1) = date_of (?year + 1) 0"
    proof (cases "y = 399")
      case False
      with True y have next_year: "doe + 1 = year_start (y + 1)" "0 \<le> y + 1" "y + 1 \<le> 399" by (auto simp: year_last_def)
      with year_range [of "y + 1"] year_length [of "y + 1"] have "0 \<le> doe + 1" "doe + 1 < 146097"
        by (simp_all split: if_splits)
      moreover have "days + 1 + 719468 = doe + 1 + era * 146097" using days(1) by simp
      ultimately have "(days + 1 + 719468) mod 146097 = doe + 1 \<and> (days + 1 + 719468) div 146097 = era"
        by (intro era_position)
      then have doe: "(days + 1 + 719468) mod 146097 = doe + 1" "(days + 1 + 719468) div 146097 = era" by auto
      have "year_of_era (doe + 1) = y + 1" using next_year year_ends [of "y + 1"] by simp
      with doe next_year show ?thesis by (simp add: civil_from_days_date Let_def algebra_simps)
    next
      case last: True
      with True have "days + 1 + 719468 = (era + 1) * 146097" using days(1) by (simp add: year_last_def)
      then have "(days + 1 + 719468) mod 146097 = 0" "(days + 1 + 719468) div 146097 = era + 1"
        using era_position [of "days + 1 + 719468" 0 "era + 1"] by simp_all
      with last show ?thesis
        by (simp add: civil_from_days_date Let_def year_of_era_def year_start_def algebra_simps)
    qed
    with True len now show ?thesis by (auto simp: date_of_ends month_length_def split: if_splits)
  qed
qed

section \<open>Sizes fit their column\<close>

lemma show_nat_length: "n < 10 ^ k \<Longrightarrow> 0 < k \<Longrightarrow> length (show_nat n) \<le> k"
proof (induction k arbitrary: n)
  case (Suc k)
  show ?case
  proof (cases "n < 10")
    case True
    then show ?thesis by (subst show_nat.simps) simp
  next
    case False
    with Suc.prems have "0 < k" "n div 10 < 10 ^ k" by (cases k; simp add: less_mult_imp_div_less)+
    with Suc.IH [of "n div 10"] False show ?thesis by (subst show_nat.simps) simp
  qed
qed simp

lemma scale_result:
  assumes "scale unit whole = (unit', whole')" "unit < 5"
  shows "unit \<le> unit' \<and> unit' < 5 \<and> whole' = whole div 1024 ^ (unit' - unit) \<and> (unit' < 4 \<longrightarrow> whole' < 1024)
    \<and> (unit < unit' \<longrightarrow> 1 \<le> whole')"
  using assms
proof (induction unit whole rule: scale.induct)
  case (1 unit whole)
  show ?case
  proof (cases "1024 \<le> whole \<and> unit + 1 < length UNITS")
    case True
    with 1 have IH: "unit + 1 \<le> unit' \<and> unit' < 5 \<and> whole' = whole div 1024 div 1024 ^ (unit' - (unit + 1))
        \<and> (unit' < 4 \<longrightarrow> whole' < 1024) \<and> (unit + 1 < unit' \<longrightarrow> 1 \<le> whole')"
      by (subst (asm) (2) scale.simps) (auto simp: UNITS_def)
    have "1024 ^ (unit' - unit) = 1024 * (1024 :: nat) ^ (unit' - (unit + 1))"
      using IH by (metis Suc_diff_le Suc_eq_plus1 diff_Suc_Suc power_Suc)
    moreover have "1 \<le> whole div 1024" using True by (simp add: Suc_le_eq div_greater_zero_iff)
    ultimately show ?thesis using IH by (cases "unit' = unit + 1") (auto simp: div_mult2_eq)
  next
    case False
    with 1 show ?thesis by (subst (asm) (2) scale.simps) (auto simp: UNITS_def)
  qed
qed

text \<open>
  A size is shown in at most ten characters whatever it is, in at most six below a petabyte,
  and as a number of the unit that is the size rounded down: the largest unit that goes into it.
\<close>

theorem sizes_fit_their_column:
  assumes "n < 2 ^ 64" "scale 0 n = (unit, whole)"
  shows "length (format_size n) \<le> (if n < 2 ^ 50 then 6 else 10)
    \<and> unit < 5 \<and> whole = n div 1024 ^ unit \<and> (0 < unit \<longrightarrow> 1024 ^ unit \<le> n) \<and> (unit < 4 \<longrightarrow> n < 1024 ^ (unit + 1))"
proof -
  from scale_result [OF assms(2)] have u: "unit < 5" "whole = n div 1024 ^ unit" "unit < 4 \<Longrightarrow> whole < 1024"
    "0 < unit \<Longrightarrow> 1 \<le> whole" by auto
  have bounds: "(0 < unit \<longrightarrow> 1024 ^ unit \<le> n) \<and> (unit < 4 \<longrightarrow> n < 1024 ^ (unit + 1))"
  proof (intro conjI impI)
    assume "0 < unit"
    with u(2,4) show "1024 ^ unit \<le> n" by (metis div_less le_zero_eq linorder_not_le not_one_le_zero)
  next
    assume "unit < 4"
    with u(2,3) have "n div 1024 ^ unit < 1024" by simp
    then have "n < 1024 * 1024 ^ unit" by (simp add: div_less_iff_less_mult)
    then show "n < 1024 ^ (unit + 1)" by simp
  qed
  have suffix: "length (UNITS ! unit) = 1"
    using u(1) by (auto simp: UNITS_def less_Suc_eq numeral_eq_Suc)
  have digits: "length (show_nat whole) \<le> (if n < 2 ^ 50 then 4 else 8)"
  proof (cases "unit = 4")
    case True
    have "whole < 10 ^ 8" "n < 2 ^ 50 \<Longrightarrow> whole < 10 ^ 4"
      using assms(1) unfolding u(2) True by (auto simp: div_less_iff_less_mult)
    then show ?thesis using show_nat_length [of whole 8] show_nat_length [of whole 4] by simp
  next
    case False
    with u(1,3) have "whole < 10 ^ 4" by simp
    then show ?thesis using show_nat_length [of whole 4] by auto
  qed
  show ?thesis
  proof (cases "unit = 0 \<or> 10 \<le> whole")
    case True
    have "format_size n = show_nat whole @ '' '' @ UNITS ! unit"
      using True u(2) by (auto simp: format_size_def assms(2) Let_def)
    then show ?thesis using digits suffix u(1,2) bounds by auto
  next
    case False
    have "n mod 1024 ^ unit * 10 div 1024 ^ unit < 10"
      by (simp add: div_less_iff_less_mult)
    then have "length (show_nat (n mod 1024 ^ unit * 10 div 1024 ^ unit)) = 1" "length (show_nat whole) = 1"
      using False by (subst show_nat.simps; simp)+
    with False show ?thesis using suffix u(1,2) bounds by (auto simp: format_size_def assms(2) Let_def)
  qed
qed

theorem sizes_fit_their_column_witness:
  "length (format_size 18446744073709551615) \<le> 10 \<and> format_size 1536 = ''1.5 K''"
proof -
  have "scale 0 18446744073709551615 = (4, 16777215)"
    by (simp add: scale.simps UNITS_def)
  from sizes_fit_their_column [OF _ this] show ?thesis
    by (auto simp: format_size_def scale.simps UNITS_def show_nat.simps digit_char_def Let_def)
qed

section \<open>Just before the epoch\<close>

text \<open>
  A time before the epoch is meant to land on the earlier minute. It does when it is a whole
  number of seconds; within the last second before the epoch it is rounded towards it, and reads
  as a minute that had not begun.
\<close>

theorem half_a_second_early_reads_as_the_epoch:
  "format_modified (- 1000000000) = ''1969-12-31 23:59''
   \<and> format_modified (- 500000000) = ''1970-01-01 00:00'' \<and> format_modified (- 60500000000) = ''1969-12-31 23:59''"
  by code_simp

end
