(* ===== verification/HostPath.thy ===== *)
theory HostPath
  imports FsEntry
begin

text \<open>
  The shipping crate's names and entries: \<open>old/src/host_path.rs\<close> and the entry of
  \<open>old/src/fs/directory\<close>. Its escape and its decoder are the ones of theory \<open>PathString\<close>, line
  for line; what is here is the type around them and what else its operations do. Of the crate's
  arms only the Unix ones are here.
\<close>

section \<open>Names\<close>

datatype host_path = HostPath (as_escaped: bytes)

definition hp_escape :: "bytes \<Rightarrow> host_path" where
  "hp_escape bs = HostPath (escape bs)"

definition hp_from_literal :: "bytes \<Rightarrow> host_path" where
  "hp_from_literal text = HostPath (escape text)"

definition hp_from_escaped :: "bytes \<Rightarrow> (escape_error, host_path) result" where
  "hp_from_escaped escaped = bind_result (unescape escaped) (\<lambda>_. Ok (HostPath escaped))"

text \<open>The fragment is not checked: the assertion in the code is compiled into tests only.\<close>

definition from_escaped_fragment :: "bytes \<Rightarrow> host_path" where
  "from_escaped_fragment escaped = HostPath escaped"

definition escape_os :: "bytes \<Rightarrow> host_path" where
  "escape_os text = hp_escape text"

definition hp_from_path :: "bytes \<Rightarrow> host_path" where
  "hp_from_path path = escape_os path"

definition hp_to_bytes :: "host_path \<Rightarrow> (escape_error, bytes) result" where
  "hp_to_bytes self = unescape (as_escaped self)"

definition hp_to_path_buf :: "host_path \<Rightarrow> (escape_error, bytes) result" where
  "hp_to_path_buf self = hp_to_bytes self"

definition hp_join :: "host_path \<Rightarrow> host_path \<Rightarrow> host_path" where
  "hp_join self component =
     (if as_escaped self = [] then component
      else (let separator = (if ends_with_char (as_escaped self) SLASH then [] else [SLASH])
            in HostPath (as_escaped self @ separator @ as_escaped component)))"

definition hp_display :: "host_path \<Rightarrow> bytes" where
  "hp_display self =
     (if MARKER \<notin> set (as_escaped self) then as_escaped self
      else (case hp_to_bytes self of
              Inr bs \<Rightarrow> from_utf8_lossy bs
            | Inl _ \<Rightarrow> as_escaped self))"

definition is_one_component :: "host_path \<Rightarrow> bool" where
  "is_one_component self =
     (case hp_to_path_buf self of
        Inl _ \<Rightarrow> False
      | Inr path \<Rightarrow> (case components path of [Normal _] \<Rightarrow> True | _ \<Rightarrow> False))"

text \<open>A name of the one crate is a name of the other, with the same operations.\<close>

definition path_string_of :: "host_path \<Rightarrow> path_string" where
  "path_string_of p = PathString (as_escaped p)"

lemma path_string_of_simps [simp]:
  "path_string_of (hp_escape bs) = ps_escape bs"
  "path_string_of (hp_from_path bs) = from_path bs"
  "path_string_of (escape_os bs) = from_os_str bs"
  "path_string_of (hp_join p c) = ps_join (path_string_of p) (path_string_of c)"
  by (simp_all add: path_string_of_def hp_escape_def ps_escape_def hp_from_path_def escape_os_def
      from_path_def from_os_str_def hp_join_def ps_join_def Let_def)

lemma path_string_of_reads [simp]:
  "to_bytes (path_string_of p) = hp_to_bytes p"
  "ps_display (path_string_of p) = hp_display p"
  "is_name (path_string_of p) = is_one_component p"
  by (simp_all add: path_string_of_def to_bytes_def hp_to_bytes_def ps_display_def hp_display_def
      is_name_def is_one_component_def to_path_buf_def hp_to_path_buf_def
      split: sum.splits)

section \<open>Entries\<close>

record host_metadata =
  hm_size :: nat
  hm_modified :: "instant option"
  hm_unix_mode :: "nat option"
  hm_symlink_target :: "host_path option"

record host_entry =
  he_name :: host_path
  he_kind :: entry_kind
  he_navigable :: bool
  he_metadata :: "host_metadata option"
  he_defect :: "bytes option"

definition he_is_degraded :: "host_entry \<Rightarrow> bool" where
  "he_is_degraded self \<longleftrightarrow> he_metadata self = None"

end
