(* ===== verification/BrowserTree.thy ===== *)
theory BrowserTree
  imports HostPath
begin

text \<open>
  \<open>old/src/browser/mod.rs\<close> and \<open>old/src/browser/tree.rs\<close>: one browsed root as a flat list of
  rows in pre-order, filled in place while listings stream in. Where the code indexes a row it
  would panic on one that is not there; the model then leaves the tree as it is, and the
  properties are about calls that name a row.
\<close>

section \<open>Rows\<close>

definition DEPTH_MAX :: nat where "DEPTH_MAX = 65535"

datatype listing_status = Status_Loading | Status_Complete | Status_Failed bytes

datatype expansion = Collapsed | Loading nat | Expanded nat | Failed nat bytes

fun ex_request_id :: "expansion \<Rightarrow> nat option" where
  "ex_request_id Collapsed = None"
| "ex_request_id (Loading request_id) = Some request_id"
| "ex_request_id (Expanded request_id) = Some request_id"
| "ex_request_id (Failed request_id _) = Some request_id"

record row =
  rw_path :: host_path
  rw_depth :: nat
  rw_entry :: host_entry
  rw_expansion :: expansion

definition row_new :: "host_path \<Rightarrow> nat \<Rightarrow> host_entry \<Rightarrow> row" where
  "row_new path depth entry =
     \<lparr>rw_path = path, rw_depth = depth, rw_entry = entry, rw_expansion = Collapsed\<rparr>"

definition rw_name :: "row \<Rightarrow> host_path" where
  "rw_name self = he_name (rw_entry self)"

definition child_path :: "host_path \<Rightarrow> host_path \<Rightarrow> host_path" where
  "child_path parent name = hp_join parent name"

section \<open>The tree\<close>

record placement =
  pl_parent :: nat
  pl_depth :: nat
  pl_insertion :: nat

record tree =
  tr_root_path :: host_path
  tr_rows :: "row list"
  tr_placements :: "(nat \<times> placement) list"
  tr_selected_index :: "nat option"
  tr_status :: listing_status

definition tree_new :: "host_path \<Rightarrow> tree" where
  "tree_new root_path =
     \<lparr>tr_root_path = root_path, tr_rows = [], tr_placements = [], tr_selected_index = None,
      tr_status = Status_Loading\<rparr>"

definition restart :: "tree \<Rightarrow> tree" where
  "restart self = self\<lparr>tr_rows := [], tr_placements := [], tr_status := Status_Loading\<rparr>"

definition reroot :: "host_path \<Rightarrow> tree \<Rightarrow> tree" where
  "reroot root_path self = restart (self\<lparr>tr_root_path := root_path, tr_selected_index := None\<rparr>)"

definition set_selected_index :: "nat option \<Rightarrow> tree \<Rightarrow> tree" where
  "set_selected_index index self = self\<lparr>tr_selected_index := index\<rparr>"

definition effective_selection :: "tree \<Rightarrow> nat option" where
  "effective_selection self =
     (if tr_rows self = [] then None
      else Some (min (case tr_selected_index self of None \<Rightarrow> 0 | Some index \<Rightarrow> index)
                     (length (tr_rows self) - 1)))"

definition nth_row :: "nat \<Rightarrow> tree \<Rightarrow> row option" where
  "nth_row index self =
     (if index < length (tr_rows self) then Some (tr_rows self ! index) else None)"

definition tree_selected_row :: "tree \<Rightarrow> row option" where
  "tree_selected_row self = Option.bind (effective_selection self) (\<lambda>index. nth_row index self)"

definition clamp_selection :: "tree \<Rightarrow> tree" where
  "clamp_selection self = self\<lparr>tr_selected_index :=
     (if tr_rows self = [] then None
      else (case tr_selected_index self of
              Some index \<Rightarrow> Some (min index (length (tr_rows self) - 1))
            | None \<Rightarrow> Some 0))\<rparr>"

section \<open>Placements carried forward\<close>

definition after_insertion :: "nat \<Rightarrow> nat \<Rightarrow> nat \<Rightarrow> placement \<Rightarrow> placement" where
  "after_insertion insertion_index count depth placement =
     (if insertion_index \<le> pl_parent placement
      then placement\<lparr>pl_parent := pl_parent placement + count,
                     pl_insertion := pl_insertion placement + count\<rparr>
      else if insertion_index < pl_insertion placement
              \<or> insertion_index = pl_insertion placement \<and> pl_depth placement \<le> depth
      then placement\<lparr>pl_insertion := pl_insertion placement + count\<rparr>
      else placement)"

definition placements_after_insertion :: "nat \<Rightarrow> nat \<Rightarrow> nat \<Rightarrow> tree \<Rightarrow> tree" where
  "placements_after_insertion insertion_index count depth self =
     self\<lparr>tr_placements :=
       map (\<lambda>(request_id, placement). (request_id, after_insertion insertion_index count depth placement))
           (tr_placements self)\<rparr>"

definition after_removal :: "nat \<Rightarrow> nat \<Rightarrow> placement \<Rightarrow> placement" where
  "after_removal start stop placement =
     (let count = stop - start in
      if stop \<le> pl_parent placement
      then placement\<lparr>pl_parent := pl_parent placement - count,
                     pl_insertion := pl_insertion placement - count\<rparr>
      else if stop \<le> pl_insertion placement
      then placement\<lparr>pl_insertion := pl_insertion placement - count\<rparr>
      else if start < pl_insertion placement then placement\<lparr>pl_insertion := start\<rparr>
      else placement)"

definition placements_after_removal :: "nat \<Rightarrow> nat \<Rightarrow> tree \<Rightarrow> tree" where
  "placements_after_removal start stop self =
     self\<lparr>tr_placements :=
       map (\<lambda>(request_id, placement). (request_id, after_removal start stop placement)) (tr_placements self)\<rparr>"

section \<open>A listing arriving\<close>

definition placed_rows :: "host_path \<Rightarrow> nat \<Rightarrow> host_entry list \<Rightarrow> row list" where
  "placed_rows parent depth entries =
     map (\<lambda>entry. row_new (child_path parent (he_name entry)) depth entry) entries"

definition extend_root :: "host_entry list \<Rightarrow> tree \<Rightarrow> tree" where
  "extend_root entries self =
     (let insertion_index = length (tr_rows self);
          extended = self\<lparr>tr_rows := tr_rows self @ placed_rows (tr_root_path self) 0 entries\<rparr>;
          moved = placements_after_insertion insertion_index (length entries) 0 extended
      in if tr_selected_index moved = None \<and> tr_rows moved \<noteq> []
         then moved\<lparr>tr_selected_index := Some 0\<rparr> else moved)"

definition finish_root :: "(bytes, unit) result \<Rightarrow> tree \<Rightarrow> tree" where
  "finish_root result self =
     clamp_selection (self\<lparr>tr_status :=
       (case result of Inr _ \<Rightarrow> Status_Complete | Inl error \<Rightarrow> Status_Failed error)\<rparr>)"

definition expanding_path :: "nat \<Rightarrow> tree \<Rightarrow> host_path option" where
  "expanding_path request_id self =
     Option.bind (map_of (tr_placements self) request_id)
       (\<lambda>placement. map_option rw_path (nth_row (pl_parent placement) self))"

definition splice :: "nat \<Rightarrow> 'a list \<Rightarrow> 'a list \<Rightarrow> 'a list" where
  "splice at new xs = take at xs @ new @ drop at xs"

definition extend_child :: "nat \<Rightarrow> host_entry list \<Rightarrow> tree \<Rightarrow> tree" where
  "extend_child request_id entries self =
     (case map_of (tr_placements self) request_id of
        None \<Rightarrow> self
      | Some placement \<Rightarrow>
          (let count = length entries; insertion_index = pl_insertion placement;
               selected = (case tr_selected_index self of
                   Some index \<Rightarrow> Some (if insertion_index \<le> index then index + count else index)
                 | None \<Rightarrow> None);
               parent_path = rw_path (tr_rows self ! pl_parent placement);
               rows = placed_rows parent_path (pl_depth placement) entries
           in placements_after_insertion insertion_index count (pl_depth placement)
                (self\<lparr>tr_selected_index := selected,
                      tr_rows := splice insertion_index rows (tr_rows self)\<rparr>)))"

definition set_expansion :: "nat \<Rightarrow> expansion \<Rightarrow> row list \<Rightarrow> row list" where
  "set_expansion index expansion rows = rows[index := (rows ! index)\<lparr>rw_expansion := expansion\<rparr>]"

definition finish_child :: "nat \<Rightarrow> (bytes, unit) result \<Rightarrow> tree \<Rightarrow> tree" where
  "finish_child request_id result self =
     (case map_of (tr_placements self) request_id of
        None \<Rightarrow> self
      | Some placement \<Rightarrow>
          clamp_selection (self\<lparr>
            tr_placements := AList.delete request_id (tr_placements self),
            tr_rows := set_expansion (pl_parent placement)
              (case result of Inr _ \<Rightarrow> Expanded request_id | Inl error \<Rightarrow> Failed request_id error)
              (tr_rows self)\<rparr>))"

section \<open>Expanding and collapsing\<close>

definition begin_expansion :: "nat \<Rightarrow> nat \<Rightarrow> tree \<Rightarrow> host_path \<times> tree" where
  "begin_expansion index request_id self =
     (let rows = set_expansion index (Loading request_id) (tr_rows self) in
      (rw_path (rows ! index),
       self\<lparr>tr_rows := rows,
            tr_placements := AList.update request_id
              \<lparr>pl_parent = index, pl_depth = min (rw_depth (rows ! index) + 1) DEPTH_MAX,
               pl_insertion = index + 1\<rparr> (tr_placements self)\<rparr>))"

definition subtree_end :: "row list \<Rightarrow> nat \<Rightarrow> nat" where
  "subtree_end rows index =
     index + 1 + length (takeWhile (\<lambda>row. rw_depth (rows ! index) < rw_depth row) (drop (index + 1) rows))"

definition request_ids :: "row list \<Rightarrow> nat list" where
  "request_ids rows = List.map_filter (\<lambda>row. ex_request_id (rw_expansion row)) rows"

fun remove_placements :: "nat list \<Rightarrow> (nat \<times> placement) list \<Rightarrow> nat list \<times> (nat \<times> placement) list" where
  "remove_placements [] placements = ([], placements)"
| "remove_placements (request_id # ids) placements =
     (let (dropped, rest) = remove_placements ids (AList.delete request_id placements)
      in (if map_of placements request_id = None then dropped else request_id # dropped, rest))"

definition collapse :: "nat \<Rightarrow> tree \<Rightarrow> nat list \<times> tree" where
  "collapse index self =
     (let stop = subtree_end (tr_rows self) index;
          ids = request_ids (take (stop - index) (drop index (tr_rows self)));
          (dropped, placements) = remove_placements ids (tr_placements self);
          drained = self\<lparr>tr_placements := placements,
                         tr_rows := take (index + 1) (tr_rows self) @ drop stop (tr_rows self)\<rparr>;
          moved = placements_after_removal (index + 1) stop drained
      in (dropped, moved\<lparr>tr_rows := set_expansion index Collapsed (tr_rows moved),
                         tr_selected_index := Some index\<rparr>))"

end
