(* ===== verification/BrowserForest.thy ===== *)
theory BrowserForest
  imports BrowserTree
begin

text \<open>
  What the flat list of rows stands for: a forest of entries, each with what is known below it.
  A row's path and depth are not in the forest - they follow from where its node is - and
  neither are the placements, which say where a subtree ends.
\<close>

datatype node = Node host_entry expansion "node list"

fun flat :: "host_path \<Rightarrow> nat \<Rightarrow> node list \<Rightarrow> row list" where
  "flat path depth [] = []"
| "flat path depth (Node entry expansion children # nodes) =
     (let below = child_path path (he_name entry) in
      \<lparr>rw_path = below, rw_depth = depth, rw_entry = entry, rw_expansion = expansion\<rparr>
        # flat below (depth + 1) children @ flat path depth nodes)"

section \<open>Where a subtree ends, by depth alone\<close>

definition span_end :: "nat list \<Rightarrow> nat \<Rightarrow> nat" where
  "span_end ds i = i + 1 + length (takeWhile (\<lambda>d. ds ! i < d) (drop (i + 1) ds))"

lemma subtree_end_span:
  "index < length rows \<Longrightarrow> subtree_end rows index = span_end (map rw_depth rows) index"
  by (simp add: subtree_end_def span_end_def drop_map takeWhile_map comp_def)

lemma span_end_bounds: "i < length ds \<Longrightarrow> i < span_end ds i \<and> span_end ds i \<le> length ds"
  using length_takeWhile_le [of "\<lambda>d. ds ! i < d" "drop (i + 1) ds"]
  by (auto simp: span_end_def)

lemma span_end_inside:
  assumes "i < j" "j < span_end ds i" shows "ds ! i < ds ! j"
proof -
  let ?w = "takeWhile (\<lambda>d. ds ! i < d) (drop (i + 1) ds)"
  from assms have j: "j - (i + 1) < length ?w" by (simp add: span_end_def)
  with length_takeWhile_le [of "\<lambda>d. ds ! i < d" "drop (i + 1) ds"]
  have "?w ! (j - (i + 1)) = ds ! j" using assms by (subst takeWhile_nth) auto
  then show ?thesis using set_takeWhileD [OF nth_mem [OF j]] by simp
qed

lemma span_end_after:
  assumes "span_end ds i < length ds" shows "ds ! span_end ds i \<le> ds ! i"
proof -
  have "length (takeWhile (\<lambda>d. ds ! i < d) (drop (i + 1) ds)) < length (drop (i + 1) ds)"
    using assms by (simp add: span_end_def)
  from nth_length_takeWhile [OF this] assms show ?thesis by (auto simp: span_end_def not_less)
qed

lemma span_end_unique:
  assumes "i < e" "e \<le> length ds" "\<And>j. i < j \<Longrightarrow> j < e \<Longrightarrow> ds ! i < ds ! j"
    and "e < length ds \<Longrightarrow> ds ! e \<le> ds ! i"
  shows "span_end ds i = e"
proof (rule ccontr)
  assume "span_end ds i \<noteq> e"
  moreover have i: "i < length ds" using assms(1,2) by simp
  ultimately consider "span_end ds i < e" | "e < span_end ds i" by linarith
  then show False
  proof cases
    case 1
    with assms(2) have "ds ! span_end ds i \<le> ds ! i" by (intro span_end_after) simp
    with 1 assms(3) [of "span_end ds i"] span_end_bounds [OF i] show False by simp
  next
    case 2
    with span_end_bounds [OF i] have "e < length ds" by simp
    with span_end_inside [OF assms(1) 2] assms(4) show False by simp
  qed
qed

section \<open>Carrying a placement forward is finding the end again\<close>

definition canonical :: "nat list \<Rightarrow> nat \<Rightarrow> placement" where
  "canonical ds i = \<lparr>pl_parent = i, pl_depth = ds ! i + 1, pl_insertion = span_end ds i\<rparr>"

lemma nth_splice:
  assumes "k \<le> length ds" "j < length ds + length new"
  shows "splice k new ds ! j =
     (if j < k then ds ! j else if j < k + length new then new ! (j - k) else ds ! (j - length new))"
  using assms by (auto simp: splice_def nth_append min_def)

lemma length_splice: "k \<le> length ds \<Longrightarrow> length (splice k new ds) = length ds + length new"
  by (simp add: splice_def)

text \<open>
  Rows of depth \<open>d\<close> land at \<open>k\<close>, below whatever subtree goes on there. Every placement that
  was right stays so.
\<close>

lemma canonical_after_insertion:
  assumes i: "i < length ds" and k: "k \<le> length ds"
    and below: "\<And>j. j < k \<Longrightarrow> k < span_end ds j \<Longrightarrow> ds ! j < d"
  shows "after_insertion k count d (canonical ds i) =
     canonical (splice k (replicate count d) ds) (if k \<le> i then i + count else i)"
proof -
  let ?ds = "splice k (replicate count d) ds"
  note nth = nth_splice [OF k, of _ "replicate count d"] and len = length_splice [OF k, of "replicate count d"]
  note bounds = span_end_bounds [OF i]
  consider "k \<le> i" | "i < k" "k < span_end ds i \<or> k = span_end ds i \<and> ds ! i < d"
    | "i < k" "span_end ds i < k" | "i < k" "k = span_end ds i" "d \<le> ds ! i" by linarith
  then show ?thesis
  proof cases
    case 1
    then have "span_end ?ds (i + count) = span_end ds i + count"
      using bounds by (intro span_end_unique) (auto simp: nth len intro: span_end_inside span_end_after)
    with 1 i show ?thesis by (simp add: after_insertion_def canonical_def nth)
  next
    case 2
    then have deep: "ds ! i < d" using below [of i] by auto
    have "span_end ?ds i = span_end ds i + count"
      using bounds 2 deep by (intro span_end_unique) (auto simp: nth len intro: span_end_inside span_end_after)
    with 2 deep i show ?thesis by (auto simp: after_insertion_def canonical_def nth)
  next
    case 3
    then have "span_end ?ds i = span_end ds i"
      using bounds k by (intro span_end_unique) (auto simp: nth len intro: span_end_inside span_end_after)
    with 3 i show ?thesis by (simp add: after_insertion_def canonical_def nth)
  next
    case 4
    have "ds ! i < ds ! j" if "i < j" "j < k" for j using that 4(2) span_end_inside [of i j ds] by simp
    moreover have "ds ! k \<le> ds ! i" if "k < length ds" using that 4(2) span_end_after [of ds i] by simp
    ultimately have "span_end ?ds i = k"
      using 4(1,3) i k by (intro span_end_unique) (auto simp: nth len)
    moreover have "?ds ! i = ds ! i" using 4(1) i k nth [of i] by simp
    ultimately show ?thesis using 4 by (simp add: after_insertion_def canonical_def)
  qed
qed

text \<open>A subtree's own end is such a place, and so is the end of all rows, for rows at the root.\<close>

lemma below_subtree_end:
  assumes "q < length ds" "j < span_end ds q" "span_end ds q < span_end ds j"
  shows "ds ! j < ds ! q + 1"
proof (cases "q \<le> j")
  case True
  with assms span_end_inside [of q j ds] show ?thesis
    using span_end_inside [of j "span_end ds q" ds] span_end_after [of ds q] span_end_bounds [of j ds]
      span_end_bounds [of q ds] by (cases "q = j") auto
next
  case False
  with assms span_end_inside [of j q ds] span_end_bounds [of q ds] show ?thesis by simp
qed

lemma below_root_end: "j < length ds \<Longrightarrow> \<not> length ds < span_end ds j"
  using span_end_bounds [of j ds] by simp

lemma canonical_after_removal:
  assumes q: "q < length ds" and i: "i < length ds" "i < q \<or> span_end ds q \<le> i"
  defines "e \<equiv> span_end ds q"
  shows "after_removal (q + 1) e (canonical ds i) =
     canonical (take (q + 1) ds @ drop e ds) (if e \<le> i then i - (e - (q + 1)) else i)"
proof -
  let ?ds = "take (Suc q) ds @ drop e ds"
  have e: "q + 1 \<le> e" "e \<le> length ds" using span_end_bounds [OF q] by (auto simp: e_def)
  have nth: "?ds ! j = (if j \<le> q then ds ! j else ds ! (j + e - Suc q))" for j
    using q e by (auto simp: nth_append intro!: arg_cong [of _ _ "nth ds"])
  have len: "length ?ds = length ds - (e - (q + 1))" using q e by simp
  note bounds = span_end_bounds [OF i(1)]
  consider "e \<le> i" | "i < q" "e \<le> span_end ds i" | "i < q" "span_end ds i \<le> q" | "i < q" "q < span_end ds i" "span_end ds i < e"
    using i(2) e_def by linarith
  then show ?thesis
  proof cases
    case 1
    then have "span_end ?ds (i - (e - Suc q)) = span_end ds i - (e - Suc q)"
      using bounds e by (intro span_end_unique) (auto simp: nth len intro: span_end_inside span_end_after)
    with 1 e show ?thesis by (auto simp: after_removal_def canonical_def nth Let_def)
  next
    case 2
    then have "span_end ?ds i = span_end ds i - (e - (q + 1))"
      using bounds e by (intro span_end_unique) (auto simp: nth len intro: span_end_inside span_end_after)
    with 2 e show ?thesis by (auto simp: after_removal_def canonical_def nth Let_def)
  next
    case 3
    then have "span_end ?ds i = span_end ds i"
      using bounds e q by (intro span_end_unique) (auto simp: nth len intro: span_end_inside span_end_after)
    with 3 e show ?thesis by (auto simp: after_removal_def canonical_def nth Let_def)
  next
    case 4
    with span_end_inside [of i q ds] span_end_inside [of q "span_end ds i" ds] span_end_after [of ds i] e
    have False by (auto simp: e_def)
    then show ?thesis ..
  qed
qed

end
