(* ===== verification/BrowserRefine.thy ===== *)
theory BrowserRefine
  imports BrowserForest
begin

text \<open>
  The flat tree of rows refines the forest: each operation on rows and placements does to the
  forest it stands for what its name says. A placement is never searched for again and is always
  where a search would find it.
\<close>

section \<open>The same operations on a forest\<close>

fun node_count :: "node list \<Rightarrow> nat" where
  "node_count [] = 0"
| "node_count (Node entry expansion children # nodes) = Suc (node_count children + node_count nodes)"

text \<open>The node shown in a row, changed.\<close>

fun at_row :: "nat \<Rightarrow> (node \<Rightarrow> node) \<Rightarrow> node list \<Rightarrow> node list" where
  "at_row j f [] = []"
| "at_row j f (Node entry expansion children # nodes) =
     (if j = 0 then f (Node entry expansion children) # nodes
      else if j \<le> node_count children
      then Node entry expansion (at_row (j - 1) f children) # nodes
      else Node entry expansion children # at_row (j - 1 - node_count children) f nodes)"

text \<open>The node a request is filling, changed.\<close>

fun on_request :: "nat \<Rightarrow> (node \<Rightarrow> node) \<Rightarrow> node list \<Rightarrow> node list" where
  "on_request request f [] = []"
| "on_request request f (Node entry expansion children # nodes) =
     (if expansion = Loading request then f (Node entry expansion children)
      else Node entry expansion (on_request request f children)) # on_request request f nodes"

definition leaf :: "host_entry \<Rightarrow> node" where
  "leaf entry = Node entry Collapsed []"

fun fill :: "host_entry list \<Rightarrow> node \<Rightarrow> node" where
  "fill entries (Node entry expansion children) = Node entry expansion (children @ map leaf entries)"

fun turn :: "expansion \<Rightarrow> node \<Rightarrow> node" where
  "turn expansion' (Node entry expansion children) = Node entry expansion' children"

fun shut :: "node \<Rightarrow> node" where
  "shut (Node entry expansion children) = Node entry Collapsed []"

fun well_shut :: "node list \<Rightarrow> bool" where
  "well_shut [] = True"
| "well_shut (Node entry expansion children # nodes) =
     ((expansion = Collapsed \<longrightarrow> children = []) \<and> well_shut children \<and> well_shut nodes)"

datatype tree_op =
    Op_ExtendRoot "host_entry list" | Op_FinishRoot "(bytes, unit) result"
  | Op_ExtendChild nat "host_entry list" | Op_FinishChild nat "(bytes, unit) result"
  | Op_Begin nat nat | Op_Collapse nat | Op_Select "nat option" | Op_Restart | Op_Reroot host_path

fun tree_do :: "tree_op \<Rightarrow> tree \<Rightarrow> tree" where
  "tree_do (Op_ExtendRoot entries) t = extend_root entries t"
| "tree_do (Op_FinishRoot result) t = finish_root result t"
| "tree_do (Op_ExtendChild request_id entries) t = extend_child request_id entries t"
| "tree_do (Op_FinishChild request_id result) t = finish_child request_id result t"
| "tree_do (Op_Begin index request_id) t = snd (begin_expansion index request_id t)"
| "tree_do (Op_Collapse index) t = snd (collapse index t)"
| "tree_do (Op_Select index) t = set_selected_index index t"
| "tree_do Op_Restart t = restart t"
| "tree_do (Op_Reroot root_path) t = reroot root_path t"

fun settled_as :: "nat \<Rightarrow> (bytes, unit) result \<Rightarrow> expansion" where
  "settled_as request_id (Inr _) = Expanded request_id"
| "settled_as request_id (Inl error) = Failed request_id error"

fun forest_do :: "tree_op \<Rightarrow> host_path \<times> node list \<Rightarrow> host_path \<times> node list" where
  "forest_do (Op_ExtendRoot entries) (root, nodes) = (root, nodes @ map leaf entries)"
| "forest_do (Op_FinishRoot result) (root, nodes) = (root, nodes)"
| "forest_do (Op_ExtendChild request_id entries) (root, nodes) =
     (root, on_request request_id (fill entries) nodes)"
| "forest_do (Op_FinishChild request_id result) (root, nodes) =
     (root, on_request request_id (turn (settled_as request_id result)) nodes)"
| "forest_do (Op_Begin index request_id) (root, nodes) =
     (root, at_row index (turn (Loading request_id)) nodes)"
| "forest_do (Op_Collapse index) (root, nodes) = (root, at_row index shut nodes)"
| "forest_do (Op_Select index) (root, nodes) = (root, nodes)"
| "forest_do Op_Restart (root, nodes) = (root, [])"
| "forest_do (Op_Reroot root_path) (root, nodes) = (root_path, [])"

text \<open>
  What the callers owe: a row is expanded from collapsed, under a request of its own, and above
  the deepest a depth can say.
\<close>

fun legal :: "tree_op \<Rightarrow> tree \<Rightarrow> bool" where
  "legal (Op_Begin index request_id) t =
     (index < length (tr_rows t) \<and> rw_expansion (tr_rows t ! index) = Collapsed
      \<and> request_id \<notin> set (request_ids (tr_rows t)) \<and> rw_depth (tr_rows t ! index) < DEPTH_MAX)"
| "legal (Op_Collapse index) t = (index < length (tr_rows t))"
| "legal _ t = True"

section \<open>Rows of a forest\<close>

lemma length_flat [simp]: "length (flat p d nodes) = node_count nodes"
  by (induction p d nodes rule: flat.induct) (simp_all add: Let_def)

lemma flat_append [simp]: "flat p d (xs @ ys) = flat p d xs @ flat p d ys"
  by (induction p d xs rule: flat.induct) (simp_all add: Let_def)

lemma flat_leaves [simp]: "flat p d (map leaf entries) = placed_rows p d entries"
  by (induction entries) (simp_all add: leaf_def placed_rows_def row_new_def Let_def)

lemma flat_depth: "row \<in> set (flat p d nodes) \<Longrightarrow> d \<le> rw_depth row"
  by (induction p d nodes rule: flat.induct) (fastforce simp: Let_def)+

lemma flat_head_depth: "flat p d nodes \<noteq> [] \<Longrightarrow> rw_depth (hd (flat p d nodes)) = d"
  by (cases nodes rule: node_count.cases) (simp_all add: Let_def)

text \<open>A row, its subtree, and what follows; and what a change of its node does to the rows.\<close>

definition splits ::
  "host_path \<Rightarrow> nat \<Rightarrow> node list \<Rightarrow> row list \<Rightarrow> row \<Rightarrow> node list \<Rightarrow> row list \<Rightarrow> bool" where
  "splits p d nodes before row children rest \<longleftrightarrow>
     flat p d nodes = before @ row # flat (rw_path row) (rw_depth row + 1) children @ rest
     \<and> d \<le> rw_depth row \<and> (rest \<noteq> [] \<longrightarrow> rw_depth (hd rest) \<le> rw_depth row)
     \<and> (well_shut nodes \<longrightarrow> rw_expansion row = Collapsed \<longrightarrow> children = [])
     \<and> (\<forall>f expansion' children'. f (Node (rw_entry row) (rw_expansion row) children) = Node (rw_entry row) expansion' children'
        \<longrightarrow> flat p d (at_row (length before) f nodes) =
              before @ row\<lparr>rw_expansion := expansion'\<rparr> # flat (rw_path row) (rw_depth row + 1) children' @ rest)"

lemma flat_split:
  assumes "j < node_count nodes"
  shows "\<exists>before row children rest. length before = j \<and> splits p d nodes before row children rest"
  using assms
proof (induction p d nodes arbitrary: j rule: flat.induct)
  case (2 path depth entry expansion children nodes)
  let ?below = "child_path path (he_name entry)"
  let ?row = "\<lparr>rw_path = ?below, rw_depth = depth, rw_entry = entry, rw_expansion = expansion\<rparr>"
  consider "j = 0" | "0 < j" "j \<le> node_count children" | "node_count children < j" by linarith
  then show ?case
  proof cases
    case 1
    have "splits path depth (Node entry expansion children # nodes) [] ?row children (flat path depth nodes)"
      using flat_head_depth [of path depth nodes] by (auto simp: splits_def Let_def)
    with 1 show ?thesis by blast
  next
    case 2
    then have "j - 1 < node_count children" by simp
    from "2.IH"(1) [OF refl this] obtain before row kids rest where
      before: "length before = j - 1" and sub: "splits ?below (depth + 1) children before row kids rest" by blast
    have "splits path depth (Node entry expansion children # nodes) (?row # before) row kids (rest @ flat path depth nodes)"
      using sub 2 before flat_head_depth [of path depth nodes]
      by (cases rest) (auto simp: splits_def Let_def)
    with 2 before show ?thesis by (intro exI [of _ "?row # before"]) auto
  next
    case 3
    with "2.prems" have "j - 1 - node_count children < node_count nodes" by simp
    from "2.IH"(2) [OF refl this] obtain before row kids rest where
      before: "length before = j - 1 - node_count children" and sub: "splits path depth nodes before row kids rest" by blast
    have "splits path depth (Node entry expansion children # nodes)
        (?row # flat ?below (depth + 1) children @ before) row kids rest"
      using sub 3 before by (auto simp: splits_def Let_def)
    with 3 before show ?thesis by (intro exI [of _ "?row # flat ?below (depth + 1) children @ before"]) auto
  qed
qed simp

lemma splits_end:
  assumes "splits p d nodes before row children rest"
  shows "subtree_end (flat p d nodes) (length before) = length before + 1 + node_count children"
proof -
  have "takeWhile (\<lambda>other. rw_depth row < rw_depth other) (flat (rw_path row) (rw_depth row + 1) children @ rest)
      = flat (rw_path row) (rw_depth row + 1) children"
    using assms by (subst takeWhile_append2) (cases rest; auto simp: splits_def dest: flat_depth)+
  then show ?thesis using assms by (simp add: splits_def subtree_end_def nth_append)
qed

lemma well_shut_append [simp]: "well_shut (xs @ ys) \<longleftrightarrow> well_shut xs \<and> well_shut ys"
  by (induction xs rule: well_shut.induct) auto

lemma well_shut_leaves [simp]: "well_shut (map leaf entries)"
  by (induction entries) (simp_all add: leaf_def)

lemma well_shut_at_row:
  "well_shut nodes \<Longrightarrow> (\<And>n. well_shut [n] \<Longrightarrow> well_shut [f n]) \<Longrightarrow> well_shut (at_row j f nodes)"
proof (induction j f nodes rule: at_row.induct)
  case (2 j f entry expansion children nodes)
  have "well_shut [f (Node entry expansion children)]" using 2 by auto
  moreover have "well_shut (g # nodes) \<longleftrightarrow> well_shut [g] \<and> well_shut nodes" for g by (cases g) auto
  ultimately show ?case using 2 by (cases "children = []") auto
qed simp

lemma well_shut_Cons: "well_shut (n # nodes) \<longleftrightarrow> well_shut [n] \<and> well_shut nodes"
  by (cases n) auto

lemma well_shut_on_request:
  assumes "well_shut nodes"
    and "\<And>entry children. well_shut children \<Longrightarrow> well_shut [f (Node entry (Loading request) children)]"
  shows "well_shut (on_request request f nodes)"
  using assms
proof (induction request f nodes rule: on_request.induct)
  case (2 request f entry expansion children nodes)
  then show ?case
    using well_shut_Cons [of "f (Node entry expansion children)" "on_request request f nodes"]
    by (cases "expansion = Loading request") auto
qed simp

section \<open>A request names one row\<close>

lemma on_request_absent:
  "Loading request \<notin> rw_expansion ` set (flat p d nodes) \<Longrightarrow> on_request request f nodes = nodes"
  by (induction p d nodes rule: flat.induct) (auto simp: Let_def)

lemma on_request_present:
  assumes "flat p d nodes = before @ row # rest" "rw_expansion row = Loading request"
    and "Loading request \<notin> rw_expansion ` set before" "Loading request \<notin> rw_expansion ` set rest"
  shows "on_request request f nodes = at_row (length before) f nodes"
  using assms
proof (induction p d nodes arbitrary: before rest rule: flat.induct)
  case (2 path depth entry expansion children nodes)
  let ?below = "child_path path (he_name entry)"
  show ?case
  proof (cases before)
    case Nil
    with 2 have "Loading request \<notin> rw_expansion ` set (flat path depth nodes)" by (auto simp: Let_def)
    from on_request_absent [OF this] Nil 2 show ?thesis by (auto simp: Let_def)
  next
    case (Cons top above)
    with 2 have split: "flat ?below (depth + 1) children @ flat path depth nodes = above @ row # rest"
      and top: "expansion \<noteq> Loading request" by (auto simp: Let_def)
    from split consider more where "flat ?below (depth + 1) children = above @ row # more" "rest = more @ flat path depth nodes"
      | more where "above = flat ?below (depth + 1) children @ more" "flat path depth nodes = more @ row # rest"
      by (auto simp: append_eq_append_conv2 append_eq_Cons_conv Cons_eq_append_conv)
    then show ?thesis
    proof cases
      case (1 more)
      have "on_request request f children = at_row (length above) f children"
        using 1 2 Cons by (intro "2.IH"(1) [OF refl 1(1)]) auto
      moreover have "length above < node_count children"
        using arg_cong [OF 1(1), of length] by simp
      moreover have "on_request request f nodes = nodes"
        using 1 2 by (intro on_request_absent [of request path depth nodes]) (simp add: image_Un)
      ultimately show ?thesis using Cons top by simp
    next
      case (2 more)
      have "on_request request f nodes = at_row (length more) f nodes"
        using 2 "2.prems" Cons by (intro "2.IH"(2) [OF refl 2(2)]) auto
      moreover have "on_request request f children = children"
        using 2 "2.prems" Cons
        by (intro on_request_absent [of request ?below "depth + 1" children]) (simp add: image_Un)
      ultimately show ?thesis using Cons top 2 by simp
    qed
  qed
qed simp

end
