(* ===== verification/BrowserSim.thy ===== *)
theory BrowserSim
  imports BrowserRefine
begin

text \<open>
  The simulation: what the placements say, kept by every operation, and the forest the rows
  stand for, changed by each operation as its name says.
\<close>

section \<open>Requests\<close>

lemma request_ids_append [simp]: "request_ids (xs @ ys) = request_ids xs @ request_ids ys"
  by (simp add: request_ids_def List.map_filter_def)

lemma request_ids_Nil [simp]: "request_ids [] = []"
  by (simp add: request_ids_def List.map_filter_def)

lemma request_ids_Cons:
  "request_ids (row # rows) =
     (case ex_request_id (rw_expansion row) of None \<Rightarrow> [] | Some r \<Rightarrow> [r]) @ request_ids rows"
  by (auto simp: request_ids_def List.map_filter_def split: option.splits)

lemma placed_rows_simps [simp]:
  "length (placed_rows p d entries) = length entries"
  "map rw_depth (placed_rows p d entries) = replicate (length entries) d"
  "request_ids (placed_rows p d entries) = []"
  by (induction entries) (simp_all add: placed_rows_def row_new_def request_ids_Cons)

lemma placed_rows_collapsed: "row \<in> set (placed_rows p d entries) \<Longrightarrow> rw_expansion row = Collapsed"
  by (auto simp: placed_rows_def row_new_def)

lemma loading_requested: "Loading r \<in> rw_expansion ` set rows \<Longrightarrow> r \<in> set (request_ids rows)"
proof (induction rows)
  case (Cons row rows)
  then show ?case by (cases "rw_expansion row = Loading r") (auto simp: request_ids_Cons)
qed simp

lemma loading_once:
  assumes "distinct (request_ids (before @ row # rest))" "rw_expansion row = Loading r"
  shows "Loading r \<notin> rw_expansion ` set before" "Loading r \<notin> rw_expansion ` set rest"
  using assms loading_requested [of r before] loading_requested [of r rest]
  by (auto simp: request_ids_Cons)

lemma loading_unique:
  assumes "distinct (request_ids rows)" "i < length rows" "j < length rows"
    and "rw_expansion (rows ! i) = Loading r" "rw_expansion (rows ! j) = Loading r"
  shows "i = j"
  using assms
proof (induction i j rule: linorder_wlog)
  case (le a b)
  show ?case
  proof (rule ccontr)
    assume "a \<noteq> b"
    with le have "rows ! a \<in> set (take b rows)" by (auto simp: in_set_conv_nth intro!: exI [of _ a])
    moreover have "rows = take b rows @ rows ! b # drop (Suc b) rows" using le by (simp add: id_take_nth_drop)
    ultimately show False
      using loading_once(1) [of "take b rows" "rows ! b" "drop (Suc b) rows" r] le by (metis imageI)
  qed
qed auto

section \<open>Placements\<close>

definition placed :: "row list \<Rightarrow> (nat \<times> placement) list \<Rightarrow> bool" where
  "placed rows placements \<longleftrightarrow> distinct (map fst placements)
     \<and> (\<forall>r p. map_of placements r = Some p \<longleftrightarrow>
          (\<exists>i < length rows. rw_expansion (rows ! i) = Loading r \<and> p = canonical (map rw_depth rows) i))"

lemma placed_Nil: "placed [] []"
  by (simp add: placed_def)

lemma map_of_map_value: "map_of (map (\<lambda>(r, p). (r, f p)) m) r = map_option f (map_of m r)"
  by (induction m) auto

lemma keys_map_value [simp]: "map fst (map (\<lambda>(r, p). (r, f p)) m) = map fst m"
  by (induction m) auto

text \<open>Loading rows moved one to one, and their placements with them.\<close>

lemma placed_moved:
  assumes "placed rows placements"
    and there: "\<And>i r. i < length rows \<Longrightarrow> rw_expansion (rows ! i) = Loading r \<Longrightarrow> keep r \<Longrightarrow>
      \<exists>j < length rows'. rw_expansion (rows' ! j) = Loading r
        \<and> move (canonical (map rw_depth rows) i) = canonical (map rw_depth rows') j"
    and from_there: "\<And>j r. j < length rows' \<Longrightarrow> rw_expansion (rows' ! j) = Loading r \<Longrightarrow>
      keep r \<and> (\<exists>i < length rows. rw_expansion (rows ! i) = Loading r
        \<and> move (canonical (map rw_depth rows) i) = canonical (map rw_depth rows') j)"
    and kept: "distinct (map fst kept)" "\<And>r. map_of kept r = (if keep r then map_of placements r else None)"
  shows "placed rows' (map (\<lambda>(r, p). (r, move p)) kept)"
  unfolding placed_def
proof (intro conjI allI iffI)
  show "distinct (map fst (map (\<lambda>(r, p). (r, move p)) kept))" using kept(1) by (simp only: keys_map_value)
next
  fix r p assume "map_of (map (\<lambda>(r, p). (r, move p)) kept) r = Some p"
  then obtain pl where "keep r" "map_of placements r = Some pl" "p = move pl"
    by (auto simp: map_of_map_value kept(2) split: if_splits)
  with assms(1) there show "\<exists>j < length rows'. rw_expansion (rows' ! j) = Loading r \<and> p = canonical (map rw_depth rows') j"
    by (fastforce simp: placed_def)
next
  fix r p assume "\<exists>j < length rows'. rw_expansion (rows' ! j) = Loading r \<and> p = canonical (map rw_depth rows') j"
  then obtain i where "keep r" "i < length rows" "rw_expansion (rows ! i) = Loading r"
    "move (canonical (map rw_depth rows) i) = p" using from_there by blast
  moreover from this(2,3) have "map_of placements r = Some (canonical (map rw_depth rows) i)"
    using assms(1) by (auto simp: placed_def)
  ultimately show "map_of (map (\<lambda>(r, p). (r, move p)) kept) r = Some p"
    by (simp add: map_of_map_value kept(2))
qed

lemma placed_insert:
  assumes "placed rows placements" "k \<le> length rows"
    and "\<And>j. j < k \<Longrightarrow> k < span_end (map rw_depth rows) j \<Longrightarrow> rw_depth (rows ! j) < d"
  shows "placed (splice k (placed_rows p d entries) rows)
     (map (\<lambda>(r, pl). (r, after_insertion k (length entries) d pl)) placements)"
proof (rule placed_moved [OF assms(1), where keep = "\<lambda>_. True"])
  let ?new = "placed_rows p d entries"
  note nth = nth_splice [OF assms(2), of _ ?new] and len = length_splice [OF assms(2), of ?new]
  have depths: "map rw_depth (splice k ?new rows) = splice k (replicate (length entries) d) (map rw_depth rows)"
    by (simp add: splice_def take_map drop_map)
  have moved: "after_insertion k (length entries) d (canonical (map rw_depth rows) i) =
      canonical (map rw_depth (splice k ?new rows)) (if k \<le> i then i + length entries else i)"
    if "i < length rows" for i
    unfolding depths using assms(2,3) that by (intro canonical_after_insertion) auto
  fix r
  { fix i assume "i < length rows" "rw_expansion (rows ! i) = Loading r"
    then show "\<exists>j < length (splice k ?new rows). rw_expansion (splice k ?new rows ! j) = Loading r
      \<and> after_insertion k (length entries) d (canonical (map rw_depth rows) i) =
          canonical (map rw_depth (splice k ?new rows)) j"
      using moved [of i] by (intro exI [of _ "if k \<le> i then i + length entries else i"]) (auto simp: nth len) }
  { fix j assume j: "j < length (splice k ?new rows)" "rw_expansion (splice k ?new rows ! j) = Loading r"
    have "\<not> (k \<le> j \<and> j < k + length entries)"
    proof
      assume "k \<le> j \<and> j < k + length entries"
      then have "splice k ?new rows ! j \<in> set ?new" using j(1) nth_mem [of "j - k" ?new] by (auto simp: nth len)
      with placed_rows_collapsed [OF this] j(2) show False by simp
    qed
    then consider "j < k" | "k + length entries \<le> j" by linarith
    then show "True \<and> (\<exists>i < length rows. rw_expansion (rows ! i) = Loading r
      \<and> after_insertion k (length entries) d (canonical (map rw_depth rows) i) =
          canonical (map rw_depth (splice k ?new rows)) j)"
    proof cases
      case 1
      with j moved [of j] assms(2) show ?thesis by (intro conjI exI [of _ j]) (auto simp: nth len)
    next
      case 2
      with j moved [of "j - length entries"] show ?thesis
        by (intro conjI exI [of _ "j - length entries"]) (auto simp: nth len)
    qed }
qed (use assms(1) in \<open>auto simp: placed_def\<close>)

lemma set_expansion_simps [simp]:
  "length (set_expansion i x rows) = length rows"
  "map rw_depth (set_expansion i x rows) = map rw_depth rows"
  by (auto simp: set_expansion_def intro: nth_equalityI) (metis list_update_id map_update row.select_convs(2) row.surjective row.update_convs(4))

lemma nth_set_expansion:
  "j < length rows \<Longrightarrow> rw_expansion (set_expansion i x rows ! j) = (if i = j then x else rw_expansion (rows ! j))"
  by (simp add: set_expansion_def nth_list_update)

lemma map_id_pairs: "map (\<lambda>(r, p). (r, p)) m = m"
  by (simp add: case_prod_beta)

lemma placed_settle:
  assumes "placed rows placements" "distinct (request_ids rows)" "i < length rows"
    and "rw_expansion (rows ! i) = Loading r" "\<And>s. x \<noteq> Loading s"
  shows "placed (set_expansion i x rows) (AList.delete r placements)"
proof -
  note same = loading_unique [OF assms(2) _ assms(3) _ assms(4)]
  have "placed (set_expansion i x rows) (map (\<lambda>(s, p). (s, p)) (AList.delete r placements))"
  proof (rule placed_moved [OF assms(1), where keep = "\<lambda>s. s \<noteq> r"])
    fix j s assume j: "j < length rows" "rw_expansion (rows ! j) = Loading s" "s \<noteq> r"
    with assms(4) have "i \<noteq> j" by auto
    with j show "\<exists>k < length (set_expansion i x rows). rw_expansion (set_expansion i x rows ! k) = Loading s
        \<and> canonical (map rw_depth rows) j = canonical (map rw_depth (set_expansion i x rows)) k"
      by (intro exI [of _ j]) (simp add: nth_set_expansion)
  next
    fix j s assume j: "j < length (set_expansion i x rows)" "rw_expansion (set_expansion i x rows ! j) = Loading s"
    then have "i \<noteq> j" "rw_expansion (rows ! j) = Loading s" using assms(5) by (auto simp: nth_set_expansion split: if_splits)
    with j same [of j] show "s \<noteq> r \<and> (\<exists>k < length rows. rw_expansion (rows ! k) = Loading s
        \<and> canonical (map rw_depth rows) k = canonical (map rw_depth (set_expansion i x rows)) j)"
      by auto
  qed (use assms(1) in \<open>auto simp: placed_def distinct_delete\<close>)
  then show ?thesis by (simp add: map_id_pairs)
qed

lemma placed_begin:
  assumes "placed rows placements" "i < length rows" "rw_expansion (rows ! i) = Collapsed"
    and "subtree_end rows i = i + 1" "Loading r \<notin> rw_expansion ` set rows"
  shows "placed (set_expansion i (Loading r) rows)
     (AList.update r \<lparr>pl_parent = i, pl_depth = rw_depth (rows ! i) + 1, pl_insertion = i + 1\<rparr> placements)"
proof -
  have new: "canonical (map rw_depth rows) i = \<lparr>pl_parent = i, pl_depth = rw_depth (rows ! i) + 1, pl_insertion = i + 1\<rparr>"
    using assms(2,4) by (simp add: canonical_def subtree_end_span)
  have "rw_expansion (rows ! j) \<noteq> Loading r" if "j < length rows" for j
    using assms(5) that by (metis imageI nth_mem)
  then have loads: "rw_expansion (set_expansion i (Loading r) rows ! j) = Loading s \<longleftrightarrow>
      (if s = r then j = i else rw_expansion (rows ! j) = Loading s)" if "j < length rows" for j s
    using that assms(3) by (auto simp: nth_set_expansion)
  show ?thesis
    unfolding placed_def new [symmetric]
    using assms(1,2) by (auto simp: placed_def distinct_update loads cong: conj_cong)
qed

lemma remove_placements_rest:
  "distinct (map fst m) \<Longrightarrow>
     distinct (map fst (snd (remove_placements ids m)))
     \<and> map_of (snd (remove_placements ids m)) r = (if r \<in> set ids then None else map_of m r)"
  by (induction ids m rule: remove_placements.induct) (auto simp: split_def Let_def distinct_delete)

lemma remove_placements_dropped:
  "distinct ids \<Longrightarrow> fst (remove_placements ids m) = filter (\<lambda>r. map_of m r \<noteq> None) ids"
proof (induction ids m rule: remove_placements.induct)
  case (2 r ids m)
  then have "filter (\<lambda>s. map_of (AList.delete r m) s \<noteq> None) ids = filter (\<lambda>s. map_of m s \<noteq> None) ids"
    by (intro filter_cong) auto
  with 2 show ?case by (simp add: split_def Let_def)
qed simp

lemma placed_collapse:
  assumes "placed rows placements" "distinct (request_ids rows)" "i < length rows"
  defines "e \<equiv> subtree_end rows i"
  shows "placed (set_expansion i Collapsed (take (i + 1) rows @ drop e rows))
     (map (\<lambda>(r, p). (r, after_removal (i + 1) e p))
        (snd (remove_placements (request_ids (take (e - i) (drop i rows))) placements)))"
proof -
  let ?cut = "take (Suc i) rows @ drop e rows" and ?ids = "request_ids (take (e - i) (drop i rows))"
  have e: "e = span_end (map rw_depth rows) i" "i < e" "e \<le> length rows"
    using span_end_bounds [of i "map rw_depth rows"] assms(3) by (simp_all add: e_def subtree_end_span)
  have nth: "?cut ! j = (if j \<le> i then rows ! j else rows ! (j + e - Suc i))" for j
    using e assms(3) by (auto simp: nth_append intro!: arg_cong [of _ _ "nth rows"])
  have len: "length ?cut = length rows - (e - Suc i)" using e assms(3) by simp
  have depths: "map rw_depth (set_expansion i Collapsed ?cut) = take (i + 1) (map rw_depth rows) @ drop e (map rw_depth rows)"
    by (simp add: take_map drop_map)
  have moved: "after_removal (i + 1) e (canonical (map rw_depth rows) j) =
      canonical (map rw_depth (set_expansion i Collapsed ?cut)) (if e \<le> j then j - (e - (i + 1)) else j)"
    if "j < length rows" "j < i \<or> e \<le> j" for j
    unfolding depths
    using canonical_after_removal [of i "map rw_depth rows" j, folded e(1)] that assms(3) by simp
  have inside: "r \<in> set ?ids" if "i \<le> j" "j < e" "rw_expansion (rows ! j) = Loading r" for j r
  proof -
    have "take (e - i) (drop i rows) ! (j - i) = rows ! j" "j - i < length (take (e - i) (drop i rows))"
      using that e by auto
    then have "rows ! j \<in> set (take (e - i) (drop i rows))" by (metis nth_mem)
    with that(3) show ?thesis by (intro loading_requested) (metis imageI)
  qed
  have "rows = take i rows @ take (e - i) (drop i rows) @ drop e rows"
    using e by (metis append_take_drop_id drop_drop le_add_diff_inverse2 less_imp_le_nat)
  with assms(2) have "distinct (request_ids (take i rows @ take (e - i) (drop i rows) @ drop e rows))" by simp
  then have apart: "set ?ids \<inter> set (request_ids (take i rows)) = {}" "set ?ids \<inter> set (request_ids (drop e rows)) = {}"
    unfolding request_ids_append distinct_append by auto
  have outside: "r \<notin> set ?ids" if "j < i \<or> e \<le> j" "j < length rows" "rw_expansion (rows ! j) = Loading r" for j r
  proof -
    have "rows ! j \<in> set (take i rows) \<or> rows ! j \<in> set (drop e rows)"
    proof (cases "j < i")
      case True
      with that(2) have "j < length (take i rows)" "take i rows ! j = rows ! j" by auto
      then show ?thesis by (metis nth_mem)
    next
      case False
      with that(1,2) e have "j - e < length (drop e rows)" "drop e rows ! (j - e) = rows ! j" by auto
      then show ?thesis by (metis nth_mem)
    qed
    with that(3) have "Loading r \<in> rw_expansion ` set (take i rows) \<or> Loading r \<in> rw_expansion ` set (drop e rows)"
      by (metis imageI)
    with loading_requested [of r] apart show ?thesis by blast
  qed
  have "placed (set_expansion i Collapsed ?cut)
     (map (\<lambda>(r, p). (r, after_removal (i + 1) e p)) (snd (remove_placements ?ids placements)))"
  proof (rule placed_moved [OF assms(1), where keep = "\<lambda>r. r \<notin> set ?ids"])
    fix j r assume j: "j < length rows" "rw_expansion (rows ! j) = Loading r" "r \<notin> set ?ids"
    with inside [of j r] have "j < i \<or> e \<le> j" by linarith
    with j moved [of j] show "\<exists>k < length (set_expansion i Collapsed ?cut).
        rw_expansion (set_expansion i Collapsed ?cut ! k) = Loading r
        \<and> after_removal (i + 1) e (canonical (map rw_depth rows) j) =
            canonical (map rw_depth (set_expansion i Collapsed ?cut)) k"
      using e(2,3) by (intro exI [of _ "if e \<le> j then j - (e - (i + 1)) else j"])
        (auto simp: nth_set_expansion nth len)
  next
    fix j r
    assume j: "j < length (set_expansion i Collapsed ?cut)" "rw_expansion (set_expansion i Collapsed ?cut ! j) = Loading r"
    then have j': "j \<noteq> i" "j < length rows - (e - Suc i)" "rw_expansion (?cut ! j) = Loading r"
      by (auto simp: nth_set_expansion len simp del: length_append split: if_splits)
    define k where "k = (if j \<le> i then j else j + e - Suc i)"
    with j' e(2,3) have k: "k < length rows" "k < i \<or> e \<le> k" "rw_expansion (rows ! k) = Loading r"
      "(if e \<le> k then k - (e - (i + 1)) else k) = j"
      by (auto simp: nth split: if_splits)
    then show "r \<notin> set ?ids \<and> (\<exists>k < length rows. rw_expansion (rows ! k) = Loading r
        \<and> after_removal (i + 1) e (canonical (map rw_depth rows) k) =
            canonical (map rw_depth (set_expansion i Collapsed ?cut)) j)"
      using outside [of k r] moved [of k] by auto
  qed (use assms(1) remove_placements_rest in \<open>auto simp: placed_def\<close>)
  then show ?thesis by simp
qed

end
