(* ===== verification/BrowserProperties.thy ===== *)
theory BrowserProperties
  imports BrowserSim
begin

text \<open>
  What the flat tree promises whoever feeds it: it stands for the forest of what was listed, its
  placements are where the subtrees end, and its rows read as a tree.
\<close>

section \<open>Standing for a forest\<close>

definition represents :: "tree \<Rightarrow> host_path \<times> node list \<Rightarrow> bool" where
  "represents t forest \<longleftrightarrow>
     tr_root_path t = fst forest \<and> tr_rows t = flat (fst forest) 0 (snd forest) \<and> well_shut (snd forest)
     \<and> distinct (request_ids (tr_rows t)) \<and> placed (tr_rows t) (tr_placements t)"

lemma clamp_selection_simps [simp]:
  "tr_root_path (clamp_selection t) = tr_root_path t"
  "tr_rows (clamp_selection t) = tr_rows t"
  "tr_placements (clamp_selection t) = tr_placements t"
  by (simp_all add: clamp_selection_def)

lemma set_expansion_split [simp]:
  "set_expansion (length before) x (before @ row # rest) = before @ row\<lparr>rw_expansion := x\<rparr> # rest"
  by (simp add: set_expansion_def)

lemma row_same_expansion [simp]: "row\<lparr>rw_expansion := rw_expansion row\<rparr> = row"
  by simp

lemma represents_new: "represents (tree_new root) (root, [])"
  by (simp add: represents_def tree_new_def placed_Nil)

lemma represents_same:
  assumes "represents t forest" "tr_root_path t' = tr_root_path t" "tr_rows t' = tr_rows t"
    "tr_placements t' = tr_placements t"
  shows "represents t' forest"
  using assms unfolding represents_def by metis

lemma represents_facts:
  assumes "represents t (root, nodes)"
  shows "tr_root_path t = root" "tr_rows t = flat root 0 nodes" "well_shut nodes"
    "distinct (request_ids (tr_rows t))" "placed (tr_rows t) (tr_placements t)"
  using assms unfolding represents_def fst_conv snd_conv by blast+

lemma represents_extend_root:
  assumes "represents t (root, nodes)"
  shows "represents (extend_root entries t) (root, nodes @ map leaf entries)"
proof -
  note rows = represents_facts(2) [OF assms] and placed = represents_facts(5) [OF assms]
  have "placed (splice (length (tr_rows t)) (placed_rows root 0 entries) (tr_rows t))
     (map (\<lambda>(r, pl). (r, after_insertion (length (tr_rows t)) (length entries) 0 pl)) (tr_placements t))"
    using below_root_end [of _ "map rw_depth (tr_rows t)"] by (intro placed_insert [OF placed]) auto
  then show ?thesis using represents_facts [OF assms]
    by (auto simp: represents_def extend_root_def placements_after_insertion_def Let_def splice_def)
qed

lemma request_ids_splice: "request_ids (splice k (placed_rows p d entries) rows) = request_ids rows"
  unfolding splice_def request_ids_append placed_rows_simps
  by (metis append_Nil append_take_drop_id request_ids_append)

lemma row_split:
  assumes "represents t (root, nodes)" "i < length (tr_rows t)"
  obtains before row children rest where
    "length before = i" "splits root 0 nodes before row children rest" "tr_rows t ! i = row"
    "tr_rows t = before @ row # flat (rw_path row) (rw_depth row + 1) children @ rest"
    "subtree_end (tr_rows t) i = i + 1 + node_count children"
proof -
  note rows = represents_facts(2) [OF assms(1)]
  with assms(2) have "i < node_count nodes" by simp
  from flat_split [OF this, of root 0] obtain before row children rest where
    at: "length before = i" "splits root 0 nodes before row children rest" by blast
  moreover have flat: "tr_rows t = before @ row # flat (rw_path row) (rw_depth row + 1) children @ rest"
    using at(2) by (simp add: splits_def rows)
  moreover have "tr_rows t ! i = row" using at(1) by (simp add: flat nth_append)
  moreover have "subtree_end (tr_rows t) i = i + 1 + node_count children"
    using splits_end [OF at(2)] at(1) rows by simp
  ultimately show ?thesis using that by blast
qed

lemma splits_changed:
  assumes "splits p d nodes before row children rest"
    and "f (Node (rw_entry row) (rw_expansion row) children) = Node (rw_entry row) x children'"
  shows "flat p d (at_row (length before) f nodes) =
    before @ row\<lparr>rw_expansion := x\<rparr> # flat (rw_path row) (rw_depth row + 1) children' @ rest"
  using assms unfolding splits_def by blast

lemma placement_of:
  assumes "represents t (root, nodes)"
  shows "map_of (tr_placements t) r = None \<Longrightarrow> on_request r f nodes = nodes"
    and "map_of (tr_placements t) r = Some pl \<Longrightarrow>
      \<exists>i < length (tr_rows t). rw_expansion (tr_rows t ! i) = Loading r
        \<and> pl = \<lparr>pl_parent = i, pl_depth = rw_depth (tr_rows t ! i) + 1, pl_insertion = subtree_end (tr_rows t) i\<rparr>
        \<and> on_request r f nodes = at_row i f nodes"
proof -
  note rows = represents_facts(2) [OF assms] and placed = represents_facts(5) [OF assms]
    and ids = represents_facts(4) [OF assms]
  { assume "map_of (tr_placements t) r = None"
    with placed have "Loading r \<notin> rw_expansion ` set (flat root 0 nodes)"
      unfolding rows [symmetric] placed_def by (metis imageE in_set_conv_nth option.distinct(1))
    then show "on_request r f nodes = nodes" by (rule on_request_absent) }
  assume "map_of (tr_placements t) r = Some pl"
  with placed obtain i where i: "i < length (tr_rows t)" "rw_expansion (tr_rows t ! i) = Loading r"
    "pl = canonical (map rw_depth (tr_rows t)) i" unfolding placed_def by blast
  have split: "tr_rows t = take i (tr_rows t) @ tr_rows t ! i # drop (Suc i) (tr_rows t)"
    using i(1) by (rule id_take_nth_drop)
  with ids i(2) have "on_request r f nodes = at_row i f nodes"
    using on_request_present [of root 0 nodes "take i (tr_rows t)" "tr_rows t ! i" "drop (Suc i) (tr_rows t)" r f]
      loading_once [of "take i (tr_rows t)" "tr_rows t ! i" "drop (Suc i) (tr_rows t)" r] i(1) rows by simp
  with i show "\<exists>i < length (tr_rows t). rw_expansion (tr_rows t ! i) = Loading r
        \<and> pl = \<lparr>pl_parent = i, pl_depth = rw_depth (tr_rows t ! i) + 1, pl_insertion = subtree_end (tr_rows t) i\<rparr>
        \<and> on_request r f nodes = at_row i f nodes"
    by (auto simp: canonical_def subtree_end_span)
qed

lemma represents_extend_child:
  assumes t: "represents t (root, nodes)"
  shows "represents (extend_child r entries t) (root, on_request r (fill entries) nodes)"
proof (cases "map_of (tr_placements t) r")
  case None
  with placement_of(1) [OF t None] t show ?thesis by (simp add: extend_child_def)
next
  case (Some pl)
  from placement_of(2) [OF t Some] obtain i where i: "i < length (tr_rows t)" "rw_expansion (tr_rows t ! i) = Loading r"
    "pl = \<lparr>pl_parent = i, pl_depth = rw_depth (tr_rows t ! i) + 1, pl_insertion = subtree_end (tr_rows t) i\<rparr>"
    "on_request r (fill entries) nodes = at_row i (fill entries) nodes" by blast
  from row_split [OF t i(1)] obtain before row children rest where
    at: "length before = i" "splits root 0 nodes before row children rest" "tr_rows t ! i = row"
    "tr_rows t = before @ row # flat (rw_path row) (rw_depth row + 1) children @ rest"
    "subtree_end (tr_rows t) i = i + 1 + node_count children" by blast
  let ?k = "subtree_end (tr_rows t) i" and ?new = "placed_rows (rw_path row) (rw_depth row + 1) entries"
  have k: "?k = span_end (map rw_depth (tr_rows t)) i" "?k \<le> length (tr_rows t)"
    using span_end_bounds [of i "map rw_depth (tr_rows t)"] i(1) by (simp_all add: subtree_end_span)
  have "flat root 0 (at_row i (fill entries) nodes) =
      before @ row # flat (rw_path row) (rw_depth row + 1) (children @ map leaf entries) @ rest"
    using splits_changed [OF at(2), of "fill entries" "rw_expansion row" "children @ map leaf entries"] at(1) by simp
  also have "\<dots> = splice ?k ?new (tr_rows t)"
    unfolding at(5) splice_def using at(1) by (simp add: at(4))
  finally have rows: "splice ?k ?new (tr_rows t) = flat root 0 (at_row i (fill entries) nodes)" ..
  have "placed (splice ?k ?new (tr_rows t))
      (map (\<lambda>(r, pl). (r, after_insertion ?k (length entries) (rw_depth row + 1) pl)) (tr_placements t))"
  proof (rule placed_insert)
    show "placed (tr_rows t) (tr_placements t)" by (rule represents_facts(5) [OF t])
    fix j assume "j < ?k" "?k < span_end (map rw_depth (tr_rows t)) j"
    with below_subtree_end [of i "map rw_depth (tr_rows t)" j] k i(1) at(3)
    show "rw_depth (tr_rows t ! j) < rw_depth row + 1" by simp
  qed (rule k(2))
  moreover have "well_shut (at_row i (fill entries) nodes)"
    unfolding i(4) [symmetric] using represents_facts(3) [OF t] by (rule well_shut_on_request) (auto elim: fill.elims)
  moreover have "distinct (request_ids (splice ?k ?new (tr_rows t)))"
    using represents_facts(4) [OF t] request_ids_splice [of ?k] by simp
  ultimately show ?thesis using represents_facts(1) [OF t] Some i at(3) rows
    unfolding represents_def by (simp add: extend_child_def placements_after_insertion_def Let_def)
qed

lemma represents_turn:
  assumes t: "represents t (root, nodes)" and i: "i < length (tr_rows t)"
  shows "set_expansion i x (tr_rows t) = flat root 0 (at_row i (turn x) nodes)"
    and "ex_request_id x = ex_request_id (rw_expansion (tr_rows t ! i)) \<Longrightarrow>
      request_ids (set_expansion i x (tr_rows t)) = request_ids (tr_rows t)"
proof -
  from row_split [OF t i] obtain before row children rest where
    at: "length before = i" "splits root 0 nodes before row children rest" "tr_rows t ! i = row"
    "tr_rows t = before @ row # flat (rw_path row) (rw_depth row + 1) children @ rest"
    "subtree_end (tr_rows t) i = i + 1 + node_count children" by blast
  have turned: "set_expansion i x (tr_rows t) =
      before @ row\<lparr>rw_expansion := x\<rparr> # flat (rw_path row) (rw_depth row + 1) children @ rest"
    unfolding at(1) [symmetric] at(4) by (rule set_expansion_split)
  then show "set_expansion i x (tr_rows t) = flat root 0 (at_row i (turn x) nodes)"
    using splits_changed [OF at(2), of "turn x" x children] at(1) by simp
  show "request_ids (set_expansion i x (tr_rows t)) = request_ids (tr_rows t)"
    if "ex_request_id x = ex_request_id (rw_expansion (tr_rows t ! i))"
    using that unfolding at(3) turned by (simp add: at(4) request_ids_Cons)
qed

lemma represents_finish_child:
  assumes t: "represents t (root, nodes)"
  shows "represents (finish_child r result t) (root, on_request r (turn (settled_as r result)) nodes)"
proof (cases "map_of (tr_placements t) r")
  case None
  with placement_of(1) [OF t None] t show ?thesis by (simp add: finish_child_def)
next
  case (Some pl)
  let ?x = "settled_as r result"
  from placement_of(2) [OF t Some] obtain i where i: "i < length (tr_rows t)" "rw_expansion (tr_rows t ! i) = Loading r"
    "pl_parent pl = i" "on_request r (turn ?x) nodes = at_row i (turn ?x) nodes" by fastforce
  have x: "ex_request_id ?x = Some r" "\<And>s. ?x \<noteq> Loading s" by (cases result; simp)+
  have "placed (set_expansion i ?x (tr_rows t)) (AList.delete r (tr_placements t))"
    using represents_facts(4,5) [OF t] i(1,2) x(2) by (intro placed_settle)
  moreover have "well_shut (on_request r (turn ?x) nodes)"
    using represents_facts(3) [OF t] by (rule well_shut_on_request) (cases result; simp)
  moreover have "(case result of Inl error \<Rightarrow> Failed r error | Inr _ \<Rightarrow> Expanded r) = ?x"
    by (cases result) auto
  ultimately show ?thesis
    using represents_facts(1,4) [OF t] represents_turn [OF t i(1), of ?x] i x(1) Some
    unfolding represents_def by (simp add: finish_child_def)
qed

lemma represents_begin:
  assumes t: "represents t (root, nodes)" and ok: "legal (Op_Begin i r) t"
  shows "represents (snd (begin_expansion i r t)) (root, at_row i (turn (Loading r)) nodes)"
proof -
  have i: "i < length (tr_rows t)" "rw_expansion (tr_rows t ! i) = Collapsed" "r \<notin> set (request_ids (tr_rows t))"
    "rw_depth (tr_rows t ! i) < DEPTH_MAX" using ok by auto
  from row_split [OF t i(1)] obtain before row children rest where
    at: "length before = i" "splits root 0 nodes before row children rest" "tr_rows t ! i = row"
    "tr_rows t = before @ row # flat (rw_path row) (rw_depth row + 1) children @ rest"
    "subtree_end (tr_rows t) i = i + 1 + node_count children" by blast
  have "children = []" using at(2,3) i(2) represents_facts(3) [OF t] by (auto simp: splits_def)
  then have e: "subtree_end (tr_rows t) i = i + 1" using at(5) by simp
  have fresh: "Loading r \<notin> rw_expansion ` set (tr_rows t)" using i(3) loading_requested by blast
  have "distinct (request_ids (set_expansion i (Loading r) (tr_rows t)))"
    using represents_facts(4) [OF t] i(2,3) unfolding at(3) at(1) [symmetric] at(4) set_expansion_split
    by (auto simp: request_ids_Cons)
  moreover have "well_shut (at_row i (turn (Loading r)) nodes)"
    using represents_facts(3) [OF t]
  proof (rule well_shut_at_row)
    fix n show "well_shut [n] \<Longrightarrow> well_shut [turn (Loading r) n]" by (cases n) simp
  qed
  moreover have "rw_depth (set_expansion i (Loading r) (tr_rows t) ! i) = rw_depth (tr_rows t ! i)"
    using i(1) by (simp add: set_expansion_def)
  ultimately show ?thesis
    using represents_facts(1) [OF t] represents_turn(1) [OF t i(1), of "Loading r"] i(4)
      placed_begin [OF represents_facts(5) [OF t] i(1,2) e fresh]
    unfolding represents_def by (simp add: begin_expansion_def Let_def min_absorb1)
qed

lemma represents_collapse:
  assumes t: "represents t (root, nodes)" and i: "i < length (tr_rows t)"
  shows "represents (snd (collapse i t)) (root, at_row i shut nodes)"
proof -
  let ?e = "subtree_end (tr_rows t) i"
  from row_split [OF t i] obtain before row children rest where
    at: "length before = i" "splits root 0 nodes before row children rest" "tr_rows t ! i = row"
    "tr_rows t = before @ row # flat (rw_path row) (rw_depth row + 1) children @ rest"
    "?e = i + 1 + node_count children" by blast
  have cut: "take (i + 1) (tr_rows t) @ drop ?e (tr_rows t) = before @ row # rest"
    unfolding at(5) using at(1) by (simp add: at(4))
  have shut: "set_expansion i Collapsed (before @ row # rest) = before @ row\<lparr>rw_expansion := Collapsed\<rparr> # rest"
    unfolding at(1) [symmetric] by (rule set_expansion_split)
  have rows: "set_expansion i Collapsed (take (i + 1) (tr_rows t) @ drop ?e (tr_rows t)) =
      flat root 0 (at_row i shut nodes)"
    unfolding cut shut using splits_changed [OF at(2), of shut Collapsed "[]"] at(1) by simp
  moreover have "distinct (request_ids (set_expansion i Collapsed (take (i + 1) (tr_rows t) @ drop ?e (tr_rows t))))"
    unfolding cut shut using represents_facts(4) [OF t] by (auto simp: at(4) request_ids_Cons)
  moreover have "well_shut (at_row i shut nodes)"
    using represents_facts(3) [OF t]
  proof (rule well_shut_at_row)
    fix n show "well_shut [n] \<Longrightarrow> well_shut [shut n]" by (cases n) simp
  qed
  ultimately show ?thesis
    using represents_facts(1) [OF t] placed_collapse [OF represents_facts(5,4) [OF t] i]
    unfolding represents_def
    by (simp add: collapse_def placements_after_removal_def Let_def split_def)
qed

lemma tree_do_represents:
  assumes "represents t forest" "legal op t"
  shows "represents (tree_do op t) (forest_do op forest)"
proof -
  obtain root nodes where forest: "forest = (root, nodes)" by (cases forest)
  note t = assms(1) [unfolded forest]
  show ?thesis unfolding forest
  proof (cases op)
    case (Op_FinishRoot result)
    with represents_same [OF t] show "represents (tree_do op t) (forest_do op (root, nodes))"
      by (simp add: finish_root_def)
  next
    case (Op_Select index)
    with represents_same [OF t] show "represents (tree_do op t) (forest_do op (root, nodes))"
      by (simp add: set_selected_index_def)
  next
    case Op_Restart
    with represents_facts(1) [OF t] show "represents (tree_do op t) (forest_do op (root, nodes))"
      by (simp add: restart_def represents_def placed_Nil)
  next
    case (Op_Reroot root')
    then show "represents (tree_do op t) (forest_do op (root, nodes))"
      by (simp add: reroot_def restart_def represents_def placed_Nil)
  qed (use t assms(2) in \<open>simp_all add: represents_extend_root represents_extend_child represents_finish_child
      represents_begin represents_collapse\<close>)
qed

interpretation browsed: simulation tree_do forest_do legal represents
  by unfold_locales (rule tree_do_represents)

section \<open>Rows that read as a tree\<close>

text \<open>
  The row a row hangs from is the nearest one above it that is less deep. Its path and depth say
  so, or that it hangs from the root.
\<close>

definition parent_row :: "row list \<Rightarrow> nat \<Rightarrow> nat option" where
  "parent_row rows i = find (\<lambda>j. rw_depth (rows ! j) < rw_depth (rows ! i)) (rev [0..<i])"

definition hangs :: "host_path \<Rightarrow> row list \<Rightarrow> nat \<Rightarrow> bool" where
  "hangs root rows i =
     (case parent_row rows i of
        None \<Rightarrow> rw_depth (rows ! i) = 0 \<and> rw_path (rows ! i) = child_path root (rw_name (rows ! i))
      | Some j \<Rightarrow> rw_depth (rows ! i) = rw_depth (rows ! j) + 1
          \<and> rw_path (rows ! i) = child_path (rw_path (rows ! j)) (rw_name (rows ! i)))"

lemma find_rev_upt:
  "find P (rev [0..<n]) = None \<longleftrightarrow> (\<forall>j < n. \<not> P j)"
  "find P (rev [0..<n]) = Some j \<longleftrightarrow> j < n \<and> P j \<and> (\<forall>k. j < k \<longrightarrow> k < n \<longrightarrow> \<not> P k)"
  by (induction n) (auto simp: less_Suc_eq)

definition hung_below :: "host_path \<Rightarrow> nat \<Rightarrow> row list \<Rightarrow> nat \<Rightarrow> bool" where
  "hung_below p d rows i \<longleftrightarrow>
     (\<forall>j < i. rw_depth (rows ! i) \<le> rw_depth (rows ! j))
       \<and> rw_depth (rows ! i) = d \<and> rw_path (rows ! i) = child_path p (rw_name (rows ! i))
     \<or> (\<exists>j < i. (\<forall>k. j < k \<longrightarrow> k < i \<longrightarrow> rw_depth (rows ! i) \<le> rw_depth (rows ! k))
         \<and> rw_depth (rows ! i) = rw_depth (rows ! j) + 1
         \<and> rw_path (rows ! i) = child_path (rw_path (rows ! j)) (rw_name (rows ! i)))"

lemma hung_below_cases [consumes 1, case_names Top Below]:
  assumes "hung_below p d rows i"
  obtains "\<forall>j < i. rw_depth (rows ! i) \<le> rw_depth (rows ! j)" "rw_depth (rows ! i) = d"
      "rw_path (rows ! i) = child_path p (rw_name (rows ! i))"
  | j where "j < i" "\<forall>k. j < k \<longrightarrow> k < i \<longrightarrow> rw_depth (rows ! i) \<le> rw_depth (rows ! k)"
      "rw_depth (rows ! i) = rw_depth (rows ! j) + 1"
      "rw_path (rows ! i) = child_path (rw_path (rows ! j)) (rw_name (rows ! i))"
  using assms unfolding hung_below_def by blast

lemma hung_below_hangs: "hung_below root 0 rows i \<Longrightarrow> hangs root rows i"
  unfolding hung_below_def
proof (elim disjE exE conjE)
  assume "\<forall>j < i. rw_depth (rows ! i) \<le> rw_depth (rows ! j)"
  then have "parent_row rows i = None" by (auto simp: parent_row_def find_rev_upt not_less)
  moreover assume "rw_depth (rows ! i) = 0" "rw_path (rows ! i) = child_path root (rw_name (rows ! i))"
  ultimately show ?thesis by (simp add: hangs_def)
next
  fix j assume "j < i" "\<forall>k. j < k \<longrightarrow> k < i \<longrightarrow> rw_depth (rows ! i) \<le> rw_depth (rows ! k)"
    "rw_depth (rows ! i) = rw_depth (rows ! j) + 1"
  moreover from this have "parent_row rows i = Some j" by (auto simp: parent_row_def find_rev_upt not_less)
  moreover assume "rw_path (rows ! i) = child_path (rw_path (rows ! j)) (rw_name (rows ! i))"
  ultimately show ?thesis by (simp add: hangs_def)
qed

lemma nth_Cons_all: "(\<forall>j < Suc n. P j) \<longleftrightarrow> P 0 \<and> (\<forall>j < n. P (Suc j))"
  using less_Suc_eq_0_disj by auto

lemma flat_hung_below: "i < node_count nodes \<Longrightarrow> hung_below p d (flat p d nodes) i"
proof (induction p d nodes arbitrary: i rule: flat.induct)
  case (2 path depth entry expansion children nodes)
  let ?below = "child_path path (he_name entry)"
  let ?row = "\<lparr>rw_path = ?below, rw_depth = depth, rw_entry = entry, rw_expansion = expansion\<rparr>"
  let ?kids = "flat ?below (depth + 1) children" and ?rest = "flat path depth nodes"
  have whole: "flat path depth (Node entry expansion children # nodes) = ?row # ?kids @ ?rest" by (simp add: Let_def)
  have kid_depth: "depth + 1 \<le> rw_depth (?kids ! k)" if "k < node_count children" for k
    using flat_depth [of "?kids ! k" ?below "depth + 1" children] that by simp
  consider "i = 0" | k where "i = Suc k" "k < node_count children"
    | k where "i = Suc (node_count children + k)" "k < node_count nodes"
    using 2(3) by (cases i) (auto simp: le_iff_add not_less, metis less_iff_Suc_add linorder_not_less nat_add_left_cancel_less le_iff_add)
  then show ?case unfolding whole
  proof cases
    case 1
    then show "hung_below path depth (?row # ?kids @ ?rest) i" by (simp add: hung_below_def rw_name_def)
  next
    case (2 k)
    have row: "(?row # ?kids @ ?rest) ! i = ?kids ! k" using 2 by (simp add: nth_append)
    have before: "(?row # ?kids @ ?rest) ! Suc j = ?kids ! j" if "j < k" for j using 2 that by (simp add: nth_append)
    from "2.IH"(1) [OF refl 2(2)] show "hung_below path depth (?row # ?kids @ ?rest) i"
    proof (cases rule: hung_below_cases)
      case top: Top
      show ?thesis unfolding hung_below_def
        by (intro disjI2 exI [of _ 0]) (use 2 top before row in \<open>auto simp: less_Suc_eq_0_disj gr0_conv_Suc\<close>)
    next
      case j: (Below j)
      show ?thesis unfolding hung_below_def
        by (intro disjI2 exI [of _ "Suc j"]) (use 2 j before row in \<open>auto simp: Suc_less_eq2\<close>)
    qed
  next
    case (3 k)
    let ?n = "node_count children"
    have row: "(?row # ?kids @ ?rest) ! i = ?rest ! k" using 3 by (simp add: nth_append)
    have before: "(?row # ?kids @ ?rest) ! Suc (?n + j) = ?rest ! j" if "j < k" for j by (simp add: nth_append)
    have above: "depth \<le> rw_depth ((?row # ?kids @ ?rest) ! j)" if "j < Suc ?n" for j
      using that kid_depth [of "j - 1"] by (cases j) (auto simp: nth_append)
    from "2.IH"(2) [OF refl 3(2)] show "hung_below path depth (?row # ?kids @ ?rest) i"
    proof (cases rule: hung_below_cases)
      case top: Top
      have "rw_depth (?rest ! k) \<le> rw_depth ((?row # ?kids @ ?rest) ! j)" if "j < i" for j
      proof (cases "j < Suc ?n")
        case True with above [OF True] top(2) show ?thesis by simp
      next
        case False
        then obtain l where "j = Suc (?n + l)" by (metis add_Suc less_iff_Suc_add not_less_eq linorder_neqE_nat nat_less_le add.right_neutral)
        with that 3 top(1) before [of l] show ?thesis by simp
      qed
      with top row show ?thesis unfolding hung_below_def by simp
    next
      case j: (Below j)
      have "rw_depth (?rest ! k) \<le> rw_depth ((?row # ?kids @ ?rest) ! m)" if "Suc (?n + j) < m" "m < i" for m
        using that 3 j(2) before [of "m - Suc ?n"] by (auto dest!: spec [of _ "m - Suc ?n"])
      with j 3 before [of j] row show ?thesis unfolding hung_below_def
        by (intro disjI2 exI [of _ "Suc (?n + j)"]) auto
    qed
  qed
qed simp

section \<open>Properties\<close>

definition sample_entry :: "bytes \<Rightarrow> bool \<Rightarrow> host_entry" where
  "sample_entry name navigable =
     \<lparr>he_name = HostPath name, he_kind = (if navigable then Directory else File), he_navigable = navigable,
      he_metadata = None, he_defect = None\<rparr>"

text \<open>A root still listing, a directory expanded in it, and another expanded in that one.\<close>

definition sample_browsing :: "tree_op list" where
  "sample_browsing =
     [Op_ExtendRoot [sample_entry ''dir'' True], Op_Begin 0 1, Op_ExtendChild 1 [sample_entry ''nested'' True],
      Op_Begin 1 2, Op_ExtendRoot [sample_entry ''after'' True], Op_ExtendChild 2 [sample_entry ''deep'' False],
      Op_ExtendChild 1 [sample_entry ''later'' False]]"

lemmas browsing_eval = sample_browsing_def sample_entry_def tree_new_def extend_root_def extend_child_def
  finish_child_def begin_expansion_def collapse_def subtree_end_def set_expansion_def placed_rows_def
  placements_after_insertion_def placements_after_removal_def after_insertion_def after_removal_def
  splice_def row_new_def child_path_def hp_join_def ends_with_char_def DEPTH_MAX_def request_ids_def
  List.map_filter_def rw_name_def Let_def

lemma sample_legal: "legal_run tree_do legal sample_browsing (tree_new (HostPath ''/r''))"
  by (simp add: browsing_eval)

text \<open>
  C31. Whatever listings arrive in whatever order, and whatever is expanded, collapsed or
  restarted between their groups, the flat rows are the pre-order of the forest those same
  operations build: each group of children ends up below its own directory, in the order it
  came, and what is collapsed is gone with everything below it.
\<close>

theorem browsing_refines_the_forest:
  assumes "legal_run tree_do legal ops (tree_new root)"
  shows "(let t = fold tree_do ops (tree_new root); (root', nodes) = fold forest_do ops (root, [])
    in tr_root_path t = root' \<and> tr_rows t = flat root' 0 nodes)"
  using browsed.sim_run [OF represents_new assms]
  by (auto simp: represents_def Let_def split: prod.splits)

theorem browsing_refines_the_forest_witness:
  "map rw_path (tr_rows (fold tree_do sample_browsing (tree_new (HostPath ''/r'')))) =
     map HostPath [''/r/dir'', ''/r/dir/nested'', ''/r/dir/nested/deep'', ''/r/dir/later'', ''/r/after'']"
proof -
  have "fold forest_do sample_browsing (HostPath ''/r'', []) =
      (HostPath ''/r'', [Node (sample_entry ''dir'' True) (Loading 1)
          [Node (sample_entry ''nested'' True) (Loading 2) [leaf (sample_entry ''deep'' False)],
           leaf (sample_entry ''later'' False)],
         leaf (sample_entry ''after'' True)])"
    by (simp add: sample_browsing_def leaf_def)
  with browsing_refines_the_forest [OF sample_legal] show ?thesis
    by (simp add: Let_def leaf_def sample_entry_def child_path_def hp_join_def ends_with_char_def)
qed

text \<open>
  C32. A placement is carried forward and never searched for, and is always what a search would
  find: every row that is loading has exactly one, at the end of the row's own subtree, and no
  other row has any.
\<close>

theorem placements_are_carried_right:
  assumes "legal_run tree_do legal ops (tree_new root)"
  defines "t \<equiv> fold tree_do ops (tree_new root)"
  shows "distinct (map fst (tr_placements t))
    \<and> (map_of (tr_placements t) request = Some place \<longleftrightarrow>
        (\<exists>i < length (tr_rows t). rw_expansion (tr_rows t ! i) = Loading request
           \<and> place = \<lparr>pl_parent = i, pl_depth = rw_depth (tr_rows t ! i) + 1,
                      pl_insertion = subtree_end (tr_rows t) i\<rparr>))"
proof -
  obtain root' nodes where "represents t (root', nodes)"
    using browsed.sim_run [OF represents_new assms(1)] by (metis t_def surj_pair)
  from represents_facts(5) [OF this] show ?thesis
    by (auto simp: placed_def canonical_def subtree_end_span)
qed

theorem placements_are_carried_right_witness:
  "map_of (tr_placements (fold tree_do sample_browsing (tree_new (HostPath ''/r'')))) 1 =
     Some \<lparr>pl_parent = 0, pl_depth = 1, pl_insertion = 4\<rparr>"
proof -
  let ?t = "fold tree_do sample_browsing (tree_new (HostPath ''/r''))"
  have "0 < length (tr_rows ?t) \<and> rw_expansion (tr_rows ?t ! 0) = Loading 1 \<and> rw_depth (tr_rows ?t ! 0) = 0
      \<and> subtree_end (tr_rows ?t) 0 = 4"
    by (simp add: browsing_eval)
  with placements_are_carried_right [OF sample_legal, of 1 "\<lparr>pl_parent = 0, pl_depth = 1, pl_insertion = 4\<rparr>"]
  show ?thesis by force
qed

text \<open>
  C33. The rows always read as a tree: each one's path is its name below the path of the nearest
  row above it that is less deep, one deeper than that row, or below the root at depth zero.
\<close>

theorem rows_read_as_a_tree:
  assumes "legal_run tree_do legal ops (tree_new root)"
  defines "t \<equiv> fold tree_do ops (tree_new root)"
  assumes "i < length (tr_rows t)"
  shows "hangs (tr_root_path t) (tr_rows t) i"
proof -
  obtain root' nodes where t: "represents t (root', nodes)"
    using browsed.sim_run [OF represents_new assms(1)] by (metis t_def surj_pair)
  with assms(3) have "i < node_count nodes" using represents_facts(2) [OF t] by simp
  from hung_below_hangs [OF flat_hung_below [OF this]] show ?thesis
    using represents_facts(1,2) [OF t] by simp
qed

theorem rows_read_as_a_tree_witness:
  "hangs (HostPath ''/r'') (tr_rows (fold tree_do sample_browsing (tree_new (HostPath ''/r'')))) 3"
proof -
  let ?t = "fold tree_do sample_browsing (tree_new (HostPath ''/r''))"
  have "tr_root_path ?t = HostPath ''/r'' \<and> 3 < length (tr_rows ?t)" by (simp add: browsing_eval)
  with rows_read_as_a_tree [OF sample_legal, of 3] show ?thesis by simp
qed

text \<open>Rows that arrive above the selected one move it along with its row.\<close>

lemma selected_row_at:
  assumes "tr_selected_index t = Some k" "k < length (tr_rows t)"
  shows "tree_selected_row t = Some (tr_rows t ! k)"
proof -
  have "effective_selection t = Some k" using assms by (auto simp: effective_selection_def)
  then show ?thesis using assms(2) by (simp add: tree_selected_row_def nth_row_def)
qed

lemma streaming_keeps_the_selection:
  assumes "represents t (root, nodes)" "tr_selected_index t = Some index" "index < length (tr_rows t)"
  shows "tree_selected_row (extend_child request entries t) = tree_selected_row t"
proof (cases "map_of (tr_placements t) request")
  case None
  then show ?thesis by (simp add: extend_child_def)
next
  case (Some pl)
  from placement_of(2) [OF assms(1) Some] obtain i where i: "i < length (tr_rows t)"
    "pl_insertion pl = subtree_end (tr_rows t) i" by fastforce
  then have k: "pl_insertion pl \<le> length (tr_rows t)"
    using span_end_bounds [of i "map rw_depth (tr_rows t)"] by (simp add: subtree_end_span)
  let ?t = "extend_child request entries t" and ?new = "if pl_insertion pl \<le> index then index + length entries else index"
  have "tr_rows ?t = splice (pl_insertion pl)
      (placed_rows (rw_path (tr_rows t ! pl_parent pl)) (pl_depth pl) entries) (tr_rows t)"
    and sel: "tr_selected_index ?t = Some ?new"
    using Some assms(2) by (simp_all add: extend_child_def placements_after_insertion_def Let_def)
  with k assms(3) have "?new < length (tr_rows ?t)" "tr_rows ?t ! ?new = tr_rows t ! index"
    by (simp_all add: length_splice nth_splice)
  with selected_row_at [OF sel] selected_row_at [OF assms(2,3)] show ?thesis by simp
qed

end
