(* ===== verification/BrowserWindow.thy ===== *)
theory BrowserWindow
  imports BrowserProperties StdText
begin

text \<open>
  \<open>old/src/browser/window.rs\<close> and the window of \<open>old/src/browser/tree.rs\<close>: which rows a filter
  leaves on screen. \<open>str::to_lowercase\<close>, which follows the Unicode tables, is the argument
  \<open>lower\<close>.
\<close>

section \<open>Visible rows\<close>

record visible_row =
  vr_row :: nat
  vr_matched :: bool

datatype visible_rows = All nat | Filtered "visible_row list" nat

definition start_of :: "visible_row list \<Rightarrow> nat \<Rightarrow> nat" where
  "start_of rows row = length (takeWhile (\<lambda>visible. vr_row visible < row) rows)"

fun vs_len :: "visible_rows \<Rightarrow> nat" where
  "vs_len (All count) = count"
| "vs_len (Filtered rows _) = length rows"

fun vs_matches :: "visible_rows \<Rightarrow> nat option" where
  "vs_matches (All _) = None"
| "vs_matches (Filtered _ matches) = Some matches"

fun vs_row :: "visible_rows \<Rightarrow> nat \<Rightarrow> nat option" where
  "vs_row (All count) position = (if position < count then Some position else None)"
| "vs_row (Filtered rows _) position =
     (if position < length rows then Some (vr_row (rows ! position)) else None)"

definition position_of :: "visible_rows \<Rightarrow> nat \<Rightarrow> nat option" where
  "position_of self row =
     (if vs_len self = 0 then None
      else Some (case self of
          All _ \<Rightarrow> min row (vs_len self - 1)
        | Filtered rows _ \<Rightarrow> min (start_of rows row) (vs_len self - 1)))"

fun vs_matched :: "visible_rows \<Rightarrow> nat \<Rightarrow> bool" where
  "vs_matched (All _) row = True"
| "vs_matched (Filtered rows _) row =
     (let start = start_of rows row in
      start < length rows \<and> vr_row (rows ! start) = row \<and> vr_matched (rows ! start))"

definition position_where :: "('a \<Rightarrow> bool) \<Rightarrow> 'a list \<Rightarrow> nat option" where
  "position_where P xs = find (\<lambda>i. P (xs ! i)) [0..<length xs]"

definition rposition_where :: "('a \<Rightarrow> bool) \<Rightarrow> 'a list \<Rightarrow> nat option" where
  "rposition_where P xs = find (\<lambda>i. P (xs ! i)) (rev [0..<length xs])"

fun match_position_of :: "visible_rows \<Rightarrow> nat \<Rightarrow> nat option" where
  "match_position_of (All count) row = position_of (All count) row"
| "match_position_of (Filtered rows matches) row =
     (let start = start_of rows row in
      case position_where vr_matched (drop start rows) of
        Some offset \<Rightarrow> Some (start + offset)
      | None \<Rightarrow> rposition_where vr_matched rows)"

section \<open>Matching\<close>

definition matches_needle :: "(bytes \<Rightarrow> bytes) \<Rightarrow> bytes \<Rightarrow> bytes \<Rightarrow> bool" where
  "matches_needle lower name needle \<longleftrightarrow> str_contains (lower name) needle"

definition path_starts_with :: "bytes \<Rightarrow> bytes \<Rightarrow> bool" where
  "path_starts_with path base \<longleftrightarrow> take (length (components base)) (components path) = components base"

definition in_scope :: "bytes \<Rightarrow> bytes option \<Rightarrow> bool" where
  "in_scope path scope \<longleftrightarrow> (case scope of None \<Rightarrow> True | Some scope \<Rightarrow> path_starts_with path scope)"

definition row_entered :: "host_path option \<Rightarrow> row \<Rightarrow> bool" where
  "row_entered scope row \<longleftrightarrow> scope = Some (rw_path row)"

definition row_hit :: "(bytes \<Rightarrow> bytes) \<Rightarrow> bytes option \<Rightarrow> host_path option \<Rightarrow> row \<Rightarrow> bool" where
  "row_hit lower needle scope row \<longleftrightarrow>
     \<not> row_entered scope row
     \<and> in_scope (as_escaped (rw_path row)) (map_option as_escaped scope)
     \<and> (case needle of None \<Rightarrow> True | Some needle \<Rightarrow> matches_needle lower (hp_display (rw_name row)) needle)"

section \<open>The window\<close>

text \<open>
  One pass over the rows, with the chain of ancestors of the row under consideration and, for
  each, whether it is on screen already.
\<close>

fun window_loop ::
  "(row \<Rightarrow> bool) \<Rightarrow> (row \<Rightarrow> bool) \<Rightarrow> row list \<Rightarrow> nat \<Rightarrow> (nat \<times> bool) list \<Rightarrow> visible_row list \<Rightarrow> nat
   \<Rightarrow> visible_row list \<times> nat" where
  "window_loop hit entered [] index ancestors rows matches = (rows, matches)"
| "window_loop hit entered (row # rest) index ancestors rows matches =
     (let ancestors = take (rw_depth row) ancestors in
      if hit row \<or> entered row
      then window_loop hit entered rest (index + 1)
             (map (\<lambda>(ancestor, _). (ancestor, True)) ancestors @ [(index, True)])
             (rows @ [\<lparr>vr_row = ancestor, vr_matched = False\<rparr>. (ancestor, emitted) \<leftarrow> ancestors, \<not> emitted]
                @ [\<lparr>vr_row = index, vr_matched = hit row\<rparr>])
             (matches + (if hit row then 1 else 0))
      else window_loop hit entered rest (index + 1) (ancestors @ [(index, False)]) rows matches)"

definition window :: "(bytes \<Rightarrow> bytes) \<Rightarrow> bytes \<Rightarrow> host_path option \<Rightarrow> tree \<Rightarrow> visible_rows" where
  "window lower query scope self =
     (let needle = (if query = [] then None else Some (lower query)) in
      if needle = None \<and> scope = None then All (length (tr_rows self))
      else (let (rows, matches) =
              window_loop (row_hit lower needle scope) (row_entered scope) (tr_rows self) 0 [] [] 0
            in Filtered rows matches))"

definition unfiltered :: "tree \<Rightarrow> visible_rows" where
  "unfiltered self = All (length (tr_rows self))"

section \<open>The chain of ancestors\<close>

text \<open>Rows in pre-order by depth: the first at the root, and no row two levels below the one before.\<close>

definition stepped :: "nat list \<Rightarrow> bool" where
  "stepped ds \<longleftrightarrow> (ds \<noteq> [] \<longrightarrow> ds ! 0 = 0) \<and> (\<forall>i. Suc i < length ds \<longrightarrow> ds ! Suc i \<le> ds ! i + 1)"

text \<open>The rows of \<open>n\<close> first ones that have all after them deeper than they are.\<close>

definition open_at :: "nat list \<Rightarrow> nat \<Rightarrow> nat list" where
  "open_at ds n = filter (\<lambda>i. \<forall>k. i < k \<longrightarrow> k < n \<longrightarrow> ds ! i < ds ! k) [0..<n]"

lemma filter_less_take:
  assumes "map f xs = [0..<length xs]"
  shows "filter (\<lambda>x. f x < d) xs = take d xs"
  using assms
proof (induction xs rule: rev_induct)
  case (snoc x xs)
  then have "map f xs = [0..<length xs]" "f x = length xs" by auto
  with snoc.IH show ?case by (cases "length xs < d") auto
qed simp

lemma open_at_Suc:
  "open_at ds (Suc n) = filter (\<lambda>i. ds ! i < ds ! n) (open_at ds n) @ [n]"
  by (auto simp: open_at_def less_Suc_eq intro!: filter_cong)

lemma open_depths:
  assumes "stepped ds" "n \<le> length ds"
  shows "map (nth ds) (open_at ds n) = [0..<length (open_at ds n)]"
    and "n < length ds \<Longrightarrow> ds ! n \<le> length (open_at ds n)"
proof -
  have "map (nth ds) (open_at ds n) = [0..<length (open_at ds n)]
      \<and> (n < length ds \<longrightarrow> ds ! n \<le> length (open_at ds n))"
    using assms(2)
  proof (induction n)
    case 0
    then show ?case using assms(1) by (cases ds) (auto simp: open_at_def stepped_def)
  next
    case (Suc n)
    then have IH: "map (nth ds) (open_at ds n) = [0..<length (open_at ds n)]" "ds ! n \<le> length (open_at ds n)" by auto
    have chain: "open_at ds (Suc n) = take (ds ! n) (open_at ds n) @ [n]"
      unfolding open_at_Suc filter_less_take [OF IH(1)] ..
    with IH have "map (nth ds) (open_at ds (Suc n)) = [0..<Suc (ds ! n)]" "length (open_at ds (Suc n)) = Suc (ds ! n)"
      by (auto simp: take_map [symmetric])
    with assms(1) show ?case by (auto simp: stepped_def)
  qed
  then show "map (nth ds) (open_at ds n) = [0..<length (open_at ds n)]"
    "n < length ds \<Longrightarrow> ds ! n \<le> length (open_at ds n)" by auto
qed

lemma open_take:
  assumes "stepped ds" "n < length ds"
  shows "take (ds ! n) (open_at ds n) = filter (\<lambda>i. ds ! i < ds ! n) (open_at ds n)"
  using filter_less_take [OF open_depths(1) [OF assms(1), of n]] assms(2) by simp

section \<open>What the pass leaves on screen\<close>

text \<open>A row is on screen when a row of its subtree is kept.\<close>

definition shown_by :: "(nat \<Rightarrow> bool) \<Rightarrow> nat list \<Rightarrow> nat \<Rightarrow> nat \<Rightarrow> bool" where
  "shown_by keep ds n i \<longleftrightarrow> (\<exists>j < n. keep j \<and> i \<le> j \<and> (\<forall>k. i < k \<longrightarrow> k \<le> j \<longrightarrow> ds ! i < ds ! k))"

lemma shown_by_Suc:
  "shown_by keep ds (Suc n) i \<longleftrightarrow> shown_by keep ds n i
     \<or> keep n \<and> (i = n \<or> i \<in> set (open_at ds n) \<and> ds ! i < ds ! n)"
  unfolding shown_by_def open_at_def by (auto simp: less_Suc_eq le_less)

lemma filter_apart:
  assumes "\<And>i j. i < n \<Longrightarrow> j < n \<Longrightarrow> P i \<Longrightarrow> Q j \<Longrightarrow> i < (j :: nat)"
  shows "filter (\<lambda>i. P i \<or> Q i) [0..<n] = filter P [0..<n] @ filter Q [0..<n]"
  using assms
proof (induction n)
  case (Suc n)
  then have "filter (\<lambda>i. P i \<or> Q i) [0..<n] = filter P [0..<n] @ filter Q [0..<n]" by (meson less_SucI)
  moreover have "filter Q [0..<n] = []" if "P n"
    using Suc.prems [of n] that by (fastforce simp: filter_empty_conv)
  moreover have "\<not> (P n \<and> Q n)" using Suc.prems [of n n] by auto
  ultimately show ?case by auto
qed simp

lemma shown_before_unshown:
  assumes "shown_by keep ds n i" "\<not> shown_by keep ds n a" "a \<in> set (open_at ds n)"
  shows "i < a"
proof (rule ccontr)
  assume "\<not> i < a"
  moreover from assms(1) obtain j where "j < n" "keep j" "i \<le> j" by (auto simp: shown_by_def)
  ultimately have "shown_by keep ds n a" using assms(3) by (auto simp: shown_by_def open_at_def)
  with assms(2) show False ..
qed

lemma unmatched_views:
  assumes "\<And>i. \<not> shown i \<Longrightarrow> i \<in> set chain \<Longrightarrow> \<not> hit i"
  shows "map (\<lambda>i. \<lparr>vr_row = i, vr_matched = hit i\<rparr>) (filter (\<lambda>i. \<not> shown i) chain) =
    [\<lparr>vr_row = a, vr_matched = False\<rparr>. (a, e) \<leftarrow> map (\<lambda>i. (i, shown i)) chain, \<not> e]"
  using assms by (induction chain) auto

lemma window_loop_shows:
  fixes hit entered :: "row \<Rightarrow> bool" and rows :: "row list"
  defines "ds \<equiv> map rw_depth rows" and "keep \<equiv> \<lambda>i. hit (rows ! i) \<or> entered (rows ! i)"
  assumes "stepped ds" "n \<le> length rows"
  shows "window_loop hit entered (drop n rows) n (map (\<lambda>i. (i, shown_by keep ds n i)) (open_at ds n))
      (map (\<lambda>i. \<lparr>vr_row = i, vr_matched = hit (rows ! i)\<rparr>) (filter (shown_by keep ds n) [0..<n]))
      (length (filter (\<lambda>i. hit (rows ! i)) [0..<n]))
    = (map (\<lambda>i. \<lparr>vr_row = i, vr_matched = hit (rows ! i)\<rparr>) (filter (shown_by keep ds (length rows)) [0..<length rows]),
       length (filter (\<lambda>i. hit (rows ! i)) [0..<length rows]))"
  using assms(4)
proof (induction n rule: inc_induct)
  case base
  show ?case by simp
next
  case (step n)
  let ?chain = "filter (\<lambda>i. ds ! i < ds ! n) (open_at ds n)"
  let ?view = "\<lambda>i. \<lparr>vr_row = i, vr_matched = hit (rows ! i)\<rparr>"
  have n: "n < length rows" "ds ! n = rw_depth (rows ! n)" using step by (auto simp: ds_def)
  have drop: "drop n rows = rows ! n # drop (Suc n) rows" using n(1) by (simp add: Cons_nth_drop_Suc)
  have chain: "take (rw_depth (rows ! n)) (open_at ds n) = ?chain"
    using open_take [OF assms(3), of n] n by (simp add: ds_def)
  show ?case
  proof (cases "keep n")
    case False
    then have same: "shown_by keep ds (Suc n) = shown_by keep ds n" by (auto simp: shown_by_Suc fun_eq_iff)
    then have "\<not> shown_by keep ds n n" by (auto simp: shown_by_def)
    with False step.IH show ?thesis
      unfolding drop open_at_Suc same
      by (simp add: keep_def take_map chain Let_def)
  next
    case True
    have last: "shown_by keep ds (Suc n) n" using True by (simp add: shown_by_Suc)
    let ?new = "\<lambda>i. i \<in> set ?chain \<and> \<not> shown_by keep ds n i"
    have shown: "shown_by keep ds (Suc n) i \<longleftrightarrow> shown_by keep ds n i \<or> ?new i" if "i < n" for i
      using True that by (auto simp: shown_by_Suc)
    have "filter (shown_by keep ds (Suc n)) [0..<n] = filter (\<lambda>i. shown_by keep ds n i \<or> ?new i) [0..<n]"
      by (intro filter_cong) (auto simp: shown)
    also have "\<dots> = filter (shown_by keep ds n) [0..<n] @ filter ?new [0..<n]"
      by (rule filter_apart) (auto intro: shown_before_unshown)
    also have "filter ?new [0..<n] = filter (\<lambda>i. \<not> shown_by keep ds n i) ?chain"
      by (auto simp: open_at_def intro!: filter_cong)
    finally have out: "filter (shown_by keep ds (Suc n)) [0..<Suc n] =
        filter (shown_by keep ds n) [0..<n] @ filter (\<lambda>i. \<not> shown_by keep ds n i) ?chain @ [n]"
      by (simp add: last)
    have unmatched: "\<not> hit (rows ! i)" if "\<not> shown_by keep ds n i" "i \<in> set ?chain" for i
      using that by (auto simp: shown_by_def open_at_def keep_def)
    have views: "map ?view (filter (\<lambda>i. \<not> shown_by keep ds n i) ?chain) =
        [\<lparr>vr_row = a, vr_matched = False\<rparr>. (a, e) \<leftarrow> map (\<lambda>i. (i, shown_by keep ds n i)) ?chain, \<not> e]"
      using unmatched by (rule unmatched_views)
    have marks: "map (\<lambda>(a, _). (a, True)) (map (\<lambda>i. (i, shown_by keep ds n i)) ?chain) =
        map (\<lambda>i. (i, shown_by keep ds (Suc n) i)) ?chain"
      using True by (auto simp: shown_by_Suc)
    let ?old = "take (rw_depth (rows ! n)) (map (\<lambda>i. (i, shown_by keep ds n i)) (open_at ds n))"
    have ancestors: "map (\<lambda>(ancestor, _). (ancestor, True)) ?old @ [(n, True)] =
        map (\<lambda>i. (i, shown_by keep ds (Suc n) i)) (open_at ds (Suc n))"
      unfolding take_map chain marks open_at_Suc using last by simp
    have visible: "map ?view (filter (shown_by keep ds n) [0..<n])
          @ [\<lparr>vr_row = ancestor, vr_matched = False\<rparr>. (ancestor, emitted) \<leftarrow> ?old, \<not> emitted]
          @ [\<lparr>vr_row = n, vr_matched = hit (rows ! n)\<rparr>] =
        map ?view (filter (shown_by keep ds (Suc n)) [0..<Suc n])"
      unfolding out map_append views [symmetric] take_map chain by simp
    have count: "length (filter (\<lambda>i. hit (rows ! i)) [0..<n]) + (if hit (rows ! n) then 1 else 0) =
        length (filter (\<lambda>i. hit (rows ! i)) [0..<Suc n])" by simp
    have "hit (rows ! n) \<or> entered (rows ! n)" using True by (simp add: keep_def)
    then show ?thesis
      unfolding drop window_loop.simps Let_def if_P [OF \<open>hit (rows ! n) \<or> entered (rows ! n)\<close>]
        ancestors visible count using step.IH by simp
  qed
qed

section \<open>Properties\<close>

lemma represents_stepped:
  assumes "represents t (root, nodes)"
  shows "stepped (map rw_depth (tr_rows t))"
proof -
  let ?rows = "tr_rows t"
  have at: "hung_below root 0 ?rows i" if "i < length ?rows" for i
    using flat_hung_below [of i nodes root 0] that unfolding represents_facts(2) [OF assms] by simp
  have "rw_depth (?rows ! 0) = 0" if "?rows \<noteq> []"
    using at [of 0] that by (auto elim: hung_below_cases)
  moreover have "rw_depth (?rows ! Suc i) \<le> rw_depth (?rows ! i) + 1" if "Suc i < length ?rows" for i
    using at [OF that]
  proof (cases rule: hung_below_cases)
    case (Below j)
    then show ?thesis by (cases "j = i") (auto simp: less_Suc_eq)
  qed simp
  ultimately show ?thesis by (auto simp: stepped_def)
qed

lemma shown_by_subtree:
  assumes "i < length rows"
  shows "shown_by keep (map rw_depth rows) (length rows) i \<longleftrightarrow>
    (\<exists>j. i \<le> j \<and> j < subtree_end rows i \<and> keep j)"
proof -
  let ?ds = "map rw_depth rows"
  have e: "subtree_end rows i = span_end ?ds i" "span_end ?ds i \<le> length rows"
    using span_end_bounds [of i ?ds] assms by (simp_all add: subtree_end_span)
  have "j < span_end ?ds i \<longleftrightarrow> j < length rows \<and> (\<forall>k. i < k \<longrightarrow> k \<le> j \<longrightarrow> ?ds ! i < ?ds ! k)" if "i \<le> j" for j
  proof
    assume "j < span_end ?ds i"
    with e(2) show "j < length rows \<and> (\<forall>k. i < k \<longrightarrow> k \<le> j \<longrightarrow> ?ds ! i < ?ds ! k)"
      by (intro conjI allI impI span_end_inside [of i _ ?ds]) auto
  next
    assume deep: "j < length rows \<and> (\<forall>k. i < k \<longrightarrow> k \<le> j \<longrightarrow> ?ds ! i < ?ds ! k)"
    show "j < span_end ?ds i"
    proof (rule ccontr)
      assume "\<not> j < span_end ?ds i"
      with deep span_end_after [of ?ds i] span_end_bounds [of i ?ds] assms show False by force
    qed
  qed
  then show ?thesis unfolding shown_by_def e(1) by blast
qed

lemma window_exact:
  fixes lower :: "bytes \<Rightarrow> bytes" and query :: bytes and scope :: "host_path option" and t :: tree
  assumes "stepped (map rw_depth (tr_rows t))" "query \<noteq> [] \<or> scope \<noteq> None"
  defines "hit \<equiv> \<lambda>i. row_hit lower (if query = [] then None else Some (lower query)) scope (tr_rows t ! i)"
  shows "window lower query scope t = Filtered
      (map (\<lambda>i. \<lparr>vr_row = i, vr_matched = hit i\<rparr>)
        (filter (\<lambda>i. list_ex (\<lambda>j. hit j \<or> row_entered scope (tr_rows t ! j)) [i..<subtree_end (tr_rows t) i])
          [0..<length (tr_rows t)]))
      (length (filter hit [0..<length (tr_rows t)]))"
proof -
  let ?needle = "if query = [] then None else Some (lower query)"
  have "window lower query scope t =
      (let (rows, matches) = window_loop (row_hit lower ?needle scope) (row_entered scope) (tr_rows t) 0 [] [] 0
       in Filtered rows matches)"
    using assms(2) by (auto simp: window_def Let_def)
  moreover have "filter (\<lambda>i. list_ex (\<lambda>j. hit j \<or> row_entered scope (tr_rows t ! j)) [i..<subtree_end (tr_rows t) i])
        [0..<length (tr_rows t)] =
      filter (shown_by (\<lambda>j. hit j \<or> row_entered scope (tr_rows t ! j)) (map rw_depth (tr_rows t)) (length (tr_rows t)))
        [0..<length (tr_rows t)]"
    by (intro filter_cong) (auto simp: shown_by_subtree list_ex_iff)
  ultimately show ?thesis
    using window_loop_shows [OF assms(1), of 0 "row_hit lower ?needle scope" "row_entered scope"]
    by (simp add: open_at_def hit_def)
qed

text \<open>
  C34. A filter leaves on screen, in order and each once, exactly the rows below which - themselves
  included - something matched or the directory stepped into lies, so every match is shown under
  all its ancestors and nothing else is; and a row is marked as matched when it is a match.
\<close>

theorem window_is_matches_and_ancestors:
  fixes lower :: "bytes \<Rightarrow> bytes" and query :: bytes and scope :: "host_path option"
  assumes "legal_run tree_do legal ops (tree_new root)" "query \<noteq> [] \<or> scope \<noteq> None"
  defines "rows \<equiv> tr_rows (fold tree_do ops (tree_new root))"
  defines "hit \<equiv> \<lambda>i. row_hit lower (if query = [] then None else Some (lower query)) scope (rows ! i)"
  shows "window lower query scope (fold tree_do ops (tree_new root)) = Filtered
      (map (\<lambda>i. \<lparr>vr_row = i, vr_matched = hit i\<rparr>)
        (filter (\<lambda>i. list_ex (\<lambda>j. hit j \<or> row_entered scope (rows ! j)) [i..<subtree_end rows i])
          [0..<length rows]))
      (length (filter hit [0..<length rows]))"
proof -
  obtain root' nodes where "represents (fold tree_do ops (tree_new root)) (root', nodes)"
    using browsed.sim_run [OF represents_new assms(1)] by (metis surj_pair)
  from window_exact [OF represents_stepped [OF this] assms(2), of lower] show ?thesis
    by (simp add: rows_def hit_def)
qed

theorem window_is_matches_and_ancestors_witness:
  "window (map to_ascii_lowercase) ''EEP'' None (fold tree_do sample_browsing (tree_new (HostPath ''/r''))) =
     Filtered [\<lparr>vr_row = 0, vr_matched = False\<rparr>, \<lparr>vr_row = 1, vr_matched = False\<rparr>, \<lparr>vr_row = 2, vr_matched = True\<rparr>] 1"
proof -
  let ?t = "fold tree_do sample_browsing (tree_new (HostPath ''/r''))"
  let ?row = "\<lambda>path depth name navigable expansion. \<lparr>rw_path = HostPath path, rw_depth = depth,
      rw_entry = sample_entry name navigable, rw_expansion = expansion\<rparr>"
  have rows: "tr_rows ?t =
      [?row ''/r/dir'' 0 ''dir'' True (Loading 1), ?row ''/r/dir/nested'' 1 ''nested'' True (Loading 2),
       ?row ''/r/dir/nested/deep'' 2 ''deep'' False Collapsed, ?row ''/r/dir/later'' 1 ''later'' False Collapsed,
       ?row ''/r/after'' 0 ''after'' True Collapsed]"
    by (simp add: browsing_eval)
  have "''EEP'' \<noteq> [] \<or> (None :: host_path option) \<noteq> None" by simp
  note exact = window_is_matches_and_ancestors [OF sample_legal this, of "map to_ascii_lowercase"]
  have hits: "map (row_hit (map to_ascii_lowercase) (Some ''eep'') None) (tr_rows ?t) = [False, False, True, False, False]"
    unfolding rows
    by (simp add: row_hit_def row_entered_def in_scope_def matches_needle_def hp_display_def
        rw_name_def sample_entry_def to_ascii_lowercase_def is_ascii_upper_def starts_with_def)
  have upto: "[0..<5] = [0, 1, 2, 3, 4 :: nat]" "[0..<4] = [0, 1, 2, 3 :: nat]"
    "[Suc 0..<3] = [1, 2 :: nat]" by code_simp+
  have ends: "map (subtree_end (tr_rows ?t)) [0..<5] = [4, 3, 3, 4, 5]"
    unfolding rows upto by (simp add: subtree_end_def)
  have five: "length (tr_rows ?t) = 5" unfolding rows by simp
  have "row_hit (map to_ascii_lowercase) (Some ''eep'') None (tr_rows ?t ! i) \<longleftrightarrow> i = 2" if "i < 5" for i
    using nth_map [of i "tr_rows ?t" "row_hit (map to_ascii_lowercase) (Some ''eep'') None"] that
    unfolding hits five by (auto simp: nth_Cons' split: if_splits)
  moreover have "subtree_end (tr_rows ?t) i = [4, 3, 3, 4, 5] ! i" if "i < 5" for i
    using nth_map [of i "[0..<5]" "subtree_end (tr_rows ?t)"] that unfolding ends by simp
  moreover have "map to_ascii_lowercase ''EEP'' = ''eep''" by code_simp
  ultimately show ?thesis unfolding exact five upto
    by (simp add: row_entered_def upto upt_rec_numeral)
qed

end
