(* ===== verification/BrowserContext.thy ===== *)
theory BrowserContext
  imports BrowserWindow
begin

text \<open>
  \<open>old/src/tui/browser_context.rs\<close>: one browsed root as the terminal sees it - the tree, the
  viewport that frames it, the filter prompt that narrows it, and the listing tasks that feed it.
  A task is the number it was spawned under; what the context does to tasks is its log of
  effects. The text of a prompt is UTF-8, edited by whole characters. \<open>lower\<close> is
  \<open>str::to_lowercase\<close>.
\<close>

section \<open>Characters of a text\<close>

definition first_char :: "bytes \<Rightarrow> nat" where
  "first_char s = (case utf8_head s of Utf8_Char n \<Rightarrow> max 1 n | _ \<Rightarrow> 1)"

function str_chars :: "bytes \<Rightarrow> bytes list" where
  "str_chars s = (if s = [] then [] else take (first_char s) s # str_chars (drop (first_char s) s))"
  by pat_completeness auto

termination str_chars
  by (relation "measure length") (auto simp: first_char_def split: utf8_item.splits)

declare str_chars.simps [simp del]

definition str_pop :: "bytes \<Rightarrow> bytes option" where
  "str_pop s = (if s = [] then None else Some (concat (butlast (str_chars s))))"

section \<open>Parents of a path\<close>

text \<open>\<open>Path::parent\<close>, over the segments of the path from its end.\<close>

fun trim_tail :: "bool \<Rightarrow> bytes list \<Rightarrow> bytes list" where
  "trim_tail rooted [] = []"
| "trim_tail rooted (s # rest) =
     (if (s = [] \<or> s = [DOT]) \<and> \<not> (\<not> rooted \<and> rest = [] \<and> s = [DOT]) then trim_tail rooted rest
      else s # rest)"

definition path_parent :: "bytes \<Rightarrow> bytes option" where
  "path_parent p =
     (let rooted = is_absolute p;
          segments = rev (split_on SLASH (if rooted then tl p else p)) in
      case trim_tail rooted segments of
        [] \<Rightarrow> None
      | _ # rest \<Rightarrow> Some ((if rooted then [SLASH] else []) @ join_with [SLASH] (rev (trim_tail rooted rest))))"

section \<open>The context\<close>

definition SCROLL_PADDING :: nat where "SCROLL_PADDING = 1"

definition U64_LIMIT :: nat where "U64_LIMIT = 2 ^ 64"

definition wrapping_succ :: "nat \<Rightarrow> nat" where
  "wrapping_succ n = (n + 1) mod U64_LIMIT"

record descent =
  dc_path :: host_path
  dc_query :: bytes
  dc_opened :: bool

record filter_prompt =
  pm_query :: bytes
  pm_filled :: "bytes option"
  pm_warning :: "bytes option"
  pm_descents :: "descent list"
  pm_restore_path :: "host_path option"

datatype listing_target = Target_Root | Target_Directory host_path nat

datatype listing_result = LR_Entries "host_entry list" | LR_Finished | LR_Failed bytes

datatype effect = Spawned nat host_path nat listing_target | Aborted nat

record browsing =
  bc_id :: nat
  bc_tree :: tree
  bc_filter :: "filter_prompt option"
  bc_viewport_offset :: nat
  bc_viewport_height :: nat
  bc_root_task :: "nat option"
  bc_listing_tasks :: "(nat \<times> nat) list"
  bc_generation :: nat
  bc_next_request_id :: nat
  bc_spawned :: nat
  bc_effects :: "effect list"

definition pm_scope :: "filter_prompt \<Rightarrow> host_path option" where
  "pm_scope self = (if pm_descents self = [] then None else Some (dc_path (last (pm_descents self))))"

definition displayed :: "filter_prompt \<Rightarrow> bytes" where
  "displayed self = (case pm_filled self of Some filled \<Rightarrow> filled | None \<Rightarrow> pm_query self)"

definition adopt_filled :: "filter_prompt \<Rightarrow> filter_prompt" where
  "adopt_filled self =
     (case pm_filled self of
        Some filled \<Rightarrow> self\<lparr>pm_query := filled, pm_filled := None, pm_warning := None\<rparr>
      | None \<Rightarrow> self\<lparr>pm_warning := None\<rparr>)"

definition map_prompt :: "(filter_prompt \<Rightarrow> filter_prompt) \<Rightarrow> browsing \<Rightarrow> browsing" where
  "map_prompt f c = c\<lparr>bc_filter := map_option f (bc_filter c)\<rparr>"

definition map_tree :: "(tree \<Rightarrow> tree) \<Rightarrow> browsing \<Rightarrow> browsing" where
  "map_tree f c = c\<lparr>bc_tree := f (bc_tree c)\<rparr>"

definition select :: "nat option \<Rightarrow> browsing \<Rightarrow> browsing" where
  "select index = map_tree (set_selected_index index)"

section \<open>Tasks\<close>

definition spawn_listing :: "host_path \<Rightarrow> listing_target \<Rightarrow> browsing \<Rightarrow> nat \<times> browsing" where
  "spawn_listing path target c =
     (bc_spawned c, c\<lparr>bc_spawned := bc_spawned c + 1,
        bc_effects := bc_effects c @ [Spawned (bc_spawned c) path (bc_generation c) target]\<rparr>)"

definition abort_tasks :: "nat list \<Rightarrow> browsing \<Rightarrow> browsing" where
  "abort_tasks tasks c = c\<lparr>bc_effects := bc_effects c @ map Aborted tasks\<rparr>"

definition abort_tree_listings :: "browsing \<Rightarrow> browsing" where
  "abort_tree_listings c =
     (abort_tasks ((case bc_root_task c of None \<Rightarrow> [] | Some handle \<Rightarrow> [handle]) @ map snd (bc_listing_tasks c)) c)
       \<lparr>bc_root_task := None, bc_listing_tasks := []\<rparr>"

definition start_root_listing :: "browsing \<Rightarrow> browsing" where
  "start_root_listing c =
     (let c = map_tree restart (abort_tree_listings c);
          c = c\<lparr>bc_generation := wrapping_succ (bc_generation c)\<rparr>;
          (handle, c) = spawn_listing (tr_root_path (bc_tree c)) Target_Root c
      in c\<lparr>bc_root_task := Some handle\<rparr>)"

definition context_new :: "nat \<Rightarrow> host_path \<Rightarrow> browsing" where
  "context_new context_id root_path =
     start_root_listing \<lparr>bc_id = context_id, bc_tree = tree_new root_path, bc_filter = None,
       bc_viewport_offset = 0, bc_viewport_height = 0, bc_root_task = None, bc_listing_tasks = [],
       bc_generation = 0, bc_next_request_id = 0, bc_spawned = 0, bc_effects = []\<rparr>"

definition change_root_path :: "host_path \<Rightarrow> browsing \<Rightarrow> browsing" where
  "change_root_path root_path c =
     start_root_listing ((map_tree (reroot root_path) c)\<lparr>bc_viewport_offset := 0\<rparr>)"

definition refresh :: "browsing \<Rightarrow> browsing" where
  "refresh c = start_root_listing c"

definition cancel_context :: "browsing \<Rightarrow> browsing" where
  "cancel_context c = abort_tree_listings (c\<lparr>bc_generation := wrapping_succ (bc_generation c)\<rparr>)"

definition start_directory_listing :: "nat \<Rightarrow> browsing \<Rightarrow> browsing" where
  "start_directory_listing index c =
     (let c = c\<lparr>bc_next_request_id := wrapping_succ (bc_next_request_id c)\<rparr>;
          request_id = bc_next_request_id c;
          (path, tree) = begin_expansion index request_id (bc_tree c);
          (handle, c) = spawn_listing path (Target_Directory path request_id) (c\<lparr>bc_tree := tree\<rparr>)
      in c\<lparr>bc_listing_tasks := AList.update request_id handle (bc_listing_tasks c)\<rparr>)"

definition abort_request :: "nat \<Rightarrow> browsing \<Rightarrow> browsing" where
  "abort_request request_id c =
     (case map_of (bc_listing_tasks c) request_id of
        None \<Rightarrow> c
      | Some handle \<Rightarrow>
          abort_tasks [handle] (c\<lparr>bc_listing_tasks := AList.delete request_id (bc_listing_tasks c)\<rparr>))"

definition collapse_directory :: "nat \<Rightarrow> browsing \<Rightarrow> browsing" where
  "collapse_directory index c =
     (let (dropped, tree) = collapse index (bc_tree c) in fold abort_request dropped (c\<lparr>bc_tree := tree\<rparr>))"

definition toggle_directory :: "nat \<Rightarrow> browsing \<Rightarrow> browsing" where
  "toggle_directory index c =
     (if rw_expansion (tr_rows (bc_tree c) ! index) = Collapsed then start_directory_listing index c
      else collapse_directory index c)"

definition activate_selected :: "browsing \<Rightarrow> browsing" where
  "activate_selected c =
     (case effective_selection (bc_tree c) of
        None \<Rightarrow> c
      | Some index \<Rightarrow>
          if he_navigable (rw_entry (tr_rows (bc_tree c) ! index)) then toggle_directory index c else c)"

definition enter_selected :: "browsing \<Rightarrow> browsing" where
  "enter_selected c =
     (case tree_selected_row (bc_tree c) of
        None \<Rightarrow> c
      | Some row \<Rightarrow> if he_navigable (rw_entry row) then change_root_path (rw_path row) c else c)"

definition leave :: "browsing \<Rightarrow> browsing" where
  "leave c =
     (case path_parent (as_escaped (tr_root_path (bc_tree c))) of
        None \<Rightarrow> c
      | Some parent \<Rightarrow> change_root_path (from_escaped_fragment (if parent = [] then [DOT] else parent)) c)"

section \<open>Listings arriving\<close>

record context_event =
  ce_context_id :: nat
  ce_generation :: nat
  ce_target :: listing_target
  ce_result :: listing_result

definition apply_root_listing :: "listing_result \<Rightarrow> browsing \<Rightarrow> browsing" where
  "apply_root_listing result c =
     (case result of
        LR_Entries entries \<Rightarrow> map_tree (extend_root entries) c
      | LR_Finished \<Rightarrow> (map_tree (finish_root (Ok ())) c)\<lparr>bc_root_task := None\<rparr>
      | LR_Failed error \<Rightarrow> (map_tree (finish_root (Err error)) c)\<lparr>bc_root_task := None\<rparr>)"

definition forget_task :: "nat \<Rightarrow> browsing \<Rightarrow> browsing" where
  "forget_task request_id c = c\<lparr>bc_listing_tasks := AList.delete request_id (bc_listing_tasks c)\<rparr>"

definition apply_directory_listing :: "nat \<Rightarrow> listing_result \<Rightarrow> browsing \<Rightarrow> browsing" where
  "apply_directory_listing request_id result c =
     (if expanding_path request_id (bc_tree c) = None then c
      else (case result of
          LR_Entries entries \<Rightarrow> map_tree (extend_child request_id entries) c
        | LR_Finished \<Rightarrow> map_tree (finish_child request_id (Ok ())) (forget_task request_id c)
        | LR_Failed error \<Rightarrow> map_tree (finish_child request_id (Err error)) (forget_task request_id c)))"

definition apply_listing :: "listing_target \<Rightarrow> listing_result \<Rightarrow> browsing \<Rightarrow> browsing" where
  "apply_listing target result c =
     (case target of
        Target_Root \<Rightarrow> apply_root_listing result c
      | Target_Directory parent_path request_id \<Rightarrow> apply_directory_listing request_id result c)"

definition apply_event :: "context_event \<Rightarrow> browsing \<Rightarrow> browsing" where
  "apply_event event c =
     (if ce_context_id event \<noteq> bc_id c then c
      else if ce_generation event = bc_generation c then apply_listing (ce_target event) (ce_result event) c
      else c)"

text \<open>What a listing task sends: its entries a group at a time, up to the first error, and how it ended.\<close>

fun until_error :: "(bytes, host_entry) result list \<Rightarrow> host_entry list \<times> bytes option" where
  "until_error [] = ([], None)"
| "until_error (Inr entry # rest) = (let (entries, failure) = until_error rest in (entry # entries, failure))"
| "until_error (Inl error # rest) = ([], Some error)"

fun send_groups :: "(bytes, host_entry) result list list \<Rightarrow> listing_result list" where
  "send_groups [] = [LR_Finished]"
| "send_groups (chunk # groups) =
     (let (entries, failure) = until_error chunk;
          sent = (if entries = [] then [] else [LR_Entries entries])
      in case failure of Some error \<Rightarrow> sent @ [LR_Failed error] | None \<Rightarrow> sent @ send_groups groups)"

definition run_listing :: "(bytes, (bytes, host_entry) result list list) result \<Rightarrow> listing_result list" where
  "run_listing opened = (case opened of Inl error \<Rightarrow> [LR_Failed error] | Inr groups \<Rightarrow> send_groups groups)"

section \<open>Looking and moving\<close>

record viewport_view =
  vw_rows :: "row list"
  vw_selected :: "nat option"
  vw_matches :: "nat option"

definition context_visible :: "(bytes \<Rightarrow> bytes) \<Rightarrow> browsing \<Rightarrow> visible_rows" where
  "context_visible lower c =
     (case bc_filter c of
        Some prompt \<Rightarrow> window lower (pm_query prompt) (pm_scope prompt) (bc_tree c)
      | None \<Rightarrow> unfiltered (bc_tree c))"

definition selected_position :: "visible_rows \<Rightarrow> browsing \<Rightarrow> nat option" where
  "selected_position visible c = Option.bind (effective_selection (bc_tree c)) (position_of visible)"

definition viewport :: "(bytes \<Rightarrow> bytes) \<Rightarrow> nat \<Rightarrow> browsing \<Rightarrow> viewport_view \<times> browsing" where
  "viewport lower height c =
     (let c = c\<lparr>bc_viewport_height := height\<rparr>;
          visible = context_visible lower c;
          matches = vs_matches visible
      in case (if 0 < height then selected_position visible c else None) of
           None \<Rightarrow> (\<lparr>vw_rows = [], vw_selected = None, vw_matches = matches\<rparr>, c)
         | Some selected \<Rightarrow>
             (let padding = min SCROLL_PADDING ((height - 1) div 2);
                  max_offset = vs_len visible - height;
                  offset = min (min (bc_viewport_offset c) max_offset) (selected - padding);
                  bottom = min (selected + padding) (vs_len visible - 1);
                  offset = (if offset + height \<le> bottom then bottom + 1 - height else offset);
                  stop = min (offset + height) (vs_len visible)
              in (\<lparr>vw_rows = List.map_filter (\<lambda>position. Option.bind (vs_row visible position)
                                               (\<lambda>row. nth_row row (bc_tree c))) [offset..<stop],
                   vw_selected = Some (selected - offset), vw_matches = matches\<rparr>,
                  c\<lparr>bc_viewport_offset := offset\<rparr>)))"

definition selected_candidate :: "(bytes \<Rightarrow> bytes) \<Rightarrow> browsing \<Rightarrow> bytes option" where
  "selected_candidate lower c =
     (case effective_selection (bc_tree c) of
        None \<Rightarrow> None
      | Some index \<Rightarrow>
          if vs_matched (context_visible lower c) index
          then map_option (\<lambda>row. hp_display (rw_name row)) (nth_row index (bc_tree c)) else None)"

definition fill_from_selection :: "(bytes \<Rightarrow> bytes) \<Rightarrow> browsing \<Rightarrow> browsing" where
  "fill_from_selection lower c =
     map_prompt (\<lambda>prompt. prompt\<lparr>pm_filled := selected_candidate lower c, pm_warning := None\<rparr>) c"

definition move_selection :: "(bytes \<Rightarrow> bytes) \<Rightarrow> bool \<Rightarrow> browsing \<Rightarrow> browsing" where
  "move_selection lower down c =
     (if tr_rows (bc_tree c) = [] then select None c
      else (let visible = context_visible lower c in
            case selected_position visible c of
              None \<Rightarrow> c
            | Some current \<Rightarrow>
                (let last = vs_len visible - 1;
                     position = (if down then min (current + 1) last else current - 1)
                 in fill_from_selection lower (select (vs_row visible position) c))))"

definition scroll_half_page :: "(bytes \<Rightarrow> bytes) \<Rightarrow> bool \<Rightarrow> browsing \<Rightarrow> browsing" where
  "scroll_half_page lower down c =
     (let visible = context_visible lower c in
      case selected_position visible c of
        None \<Rightarrow> c
      | Some current \<Rightarrow>
          if bc_viewport_height c = 0 then c
          else (let distance = max (bc_viewport_height c div 2) 1;
                    last = vs_len visible - 1;
                    max_offset = vs_len visible - bc_viewport_height c;
                    (position, offset) =
                      (if down then (min (current + distance) last, min (bc_viewport_offset c + distance) max_offset)
                       else (current - distance, bc_viewport_offset c - distance))
                in fill_from_selection lower (select (vs_row visible position) (c\<lparr>bc_viewport_offset := offset\<rparr>))))"

section \<open>The prompt\<close>

definition follow_filter :: "(bytes \<Rightarrow> bytes) \<Rightarrow> browsing \<Rightarrow> browsing" where
  "follow_filter lower c =
     (let visible = context_visible lower c in
      case match_position_of visible (case tr_selected_index (bc_tree c) of None \<Rightarrow> 0 | Some index \<Rightarrow> index) of
        None \<Rightarrow> c
      | Some position \<Rightarrow> select (vs_row visible position) c)"

definition begin_filter :: "browsing \<Rightarrow> browsing" where
  "begin_filter c =
     c\<lparr>bc_filter := Some \<lparr>pm_query = [], pm_filled = None, pm_warning = None, pm_descents = [],
                           pm_restore_path = map_option rw_path (tree_selected_row (bc_tree c))\<rparr>\<rparr>"

definition extend_filter :: "(bytes \<Rightarrow> bytes) \<Rightarrow> bytes \<Rightarrow> browsing \<Rightarrow> browsing" where
  "extend_filter lower character c =
     (case bc_filter c of
        None \<Rightarrow> c
      | Some prompt \<Rightarrow>
          follow_filter lower (map_prompt (\<lambda>prompt.
            (adopt_filled prompt)\<lparr>pm_query := pm_query (adopt_filled prompt) @ character\<rparr>) c))"

definition close_descent :: "descent \<Rightarrow> browsing \<Rightarrow> browsing" where
  "close_descent descent c =
     (case position_where (\<lambda>row. rw_path row = dc_path descent \<and> he_navigable (rw_entry row)) (tr_rows (bc_tree c)) of
        Some index \<Rightarrow> if dc_opened descent then collapse_directory index c else c
      | None \<Rightarrow> c)"

definition abandon_filter :: "browsing \<Rightarrow> browsing" where
  "abandon_filter c =
     (case bc_filter c of
        None \<Rightarrow> c
      | Some prompt \<Rightarrow>
          (let c = fold close_descent (rev (pm_descents prompt)) (c\<lparr>bc_filter := None\<rparr>);
               restored = Option.bind (pm_restore_path prompt)
                 (\<lambda>path. position_where (\<lambda>row. rw_path row = path) (tr_rows (bc_tree c)))
           in select restored c))"

definition ascend_filter :: "(bytes \<Rightarrow> bytes) \<Rightarrow> browsing \<Rightarrow> browsing" where
  "ascend_filter lower c =
     (case bc_filter c of
        None \<Rightarrow> c
      | Some prompt \<Rightarrow>
          if pm_descents prompt = [] then c
          else (let descent = last (pm_descents prompt);
                    c = map_prompt (\<lambda>prompt. prompt\<lparr>pm_descents := butlast (pm_descents prompt),
                                                       pm_query := dc_query descent\<rparr>) c
                in follow_filter lower (close_descent descent c)))"

definition shorten_filter :: "(bytes \<Rightarrow> bytes) \<Rightarrow> browsing \<Rightarrow> browsing" where
  "shorten_filter lower c =
     (case map_option adopt_filled (bc_filter c) of
        None \<Rightarrow> c
      | Some prompt \<Rightarrow>
          (case str_pop (pm_query prompt) of
             Some query \<Rightarrow> follow_filter lower (c\<lparr>bc_filter := Some (prompt\<lparr>pm_query := query\<rparr>)\<rparr>)
           | None \<Rightarrow>
               if pm_descents prompt = [] then abandon_filter (c\<lparr>bc_filter := Some prompt\<rparr>)
               else ascend_filter lower (c\<lparr>bc_filter := Some prompt\<rparr>)))"

fun agree :: "bytes list \<Rightarrow> bytes list \<Rightarrow> bytes list" where
  "agree (c # cs) (d # ds) = (if c = d then c # agree cs ds else [])"
| "agree _ _ = []"

definition common_prefix :: "bytes \<Rightarrow> bytes \<Rightarrow> bytes" where
  "common_prefix completion name = concat (agree (str_chars completion) (str_chars name))"

text \<open>The longest prefix all names agree on, or nothing once there is none.\<close>

fun completion_of :: "bytes \<Rightarrow> bytes list \<Rightarrow> bytes option" where
  "completion_of completion [] = Some completion"
| "completion_of completion (name # names) =
     (let completion = common_prefix completion name in
      if completion = [] then None else completion_of completion names)"

definition completed_names :: "(bytes \<Rightarrow> bytes) \<Rightarrow> filter_prompt \<Rightarrow> row list \<Rightarrow> bytes list" where
  "completed_names lower prompt rows =
     filter (\<lambda>name. matches_needle lower name (lower (pm_query prompt)))
       (map (\<lambda>row. hp_display (rw_name row))
         (filter (\<lambda>row. \<not> row_entered (pm_scope prompt) row
             \<and> in_scope (as_escaped (rw_path row)) (map_option as_escaped (pm_scope prompt))) rows))"

definition complete_filter :: "(bytes \<Rightarrow> bytes) \<Rightarrow> browsing \<Rightarrow> browsing" where
  "complete_filter lower c =
     (case map_option adopt_filled (bc_filter c) of
        None \<Rightarrow> c
      | Some prompt \<Rightarrow>
          (let c = c\<lparr>bc_filter := Some prompt\<rparr> in
           if pm_query prompt = [] then c
           else (case completed_names lower prompt (tr_rows (bc_tree c)) of
               [] \<Rightarrow> c
             | first # names \<Rightarrow>
                 (case completion_of first names of
                    None \<Rightarrow> c
                  | Some completion \<Rightarrow>
                      if length (str_chars completion) \<le> length (str_chars (pm_query prompt)) then c
                      else follow_filter lower (c\<lparr>bc_filter := Some (prompt\<lparr>pm_filled := None,
                             pm_warning := None, pm_query := completion\<rparr>)\<rparr>)))))"

definition warn_filter :: "bytes \<Rightarrow> browsing \<Rightarrow> browsing" where
  "warn_filter warning = map_prompt (\<lambda>prompt. prompt\<lparr>pm_warning := Some warning\<rparr>)"

definition is_closed :: "expansion \<Rightarrow> bool" where
  "is_closed expansion \<longleftrightarrow> (case expansion of Collapsed \<Rightarrow> True | Failed _ _ \<Rightarrow> True | _ \<Rightarrow> False)"

definition descend_filter :: "(bytes \<Rightarrow> bytes) \<Rightarrow> browsing \<Rightarrow> browsing" where
  "descend_filter lower c =
     (case bc_filter c of
        None \<Rightarrow> c
      | Some prompt \<Rightarrow>
          if selected_candidate lower c \<noteq> Some (displayed prompt) then warn_filter ''no exact match to open'' c
          else (case Option.bind (effective_selection (bc_tree c))
                       (\<lambda>index. map_option (Pair index) (nth_row index (bc_tree c))) of
              None \<Rightarrow> warn_filter ''not a directory'' c
            | Some (index, row) \<Rightarrow>
                if \<not> he_navigable (rw_entry row) then warn_filter ''not a directory'' c
                else (let closed = is_closed (rw_expansion row);
                          c = (if closed then start_directory_listing index c else c)
                      in follow_filter lower (map_prompt (\<lambda>prompt. (adopt_filled prompt)
                           \<lparr>pm_query := [],
                            pm_descents := pm_descents (adopt_filled prompt) @
                              [\<lparr>dc_path = rw_path row, dc_query = pm_query (adopt_filled prompt), dc_opened = closed\<rparr>]\<rparr>) c))))"

definition clear_filter_entry :: "(bytes \<Rightarrow> bytes) \<Rightarrow> browsing \<Rightarrow> browsing" where
  "clear_filter_entry lower c =
     (case bc_filter c of
        None \<Rightarrow> c
      | Some prompt \<Rightarrow>
          if displayed prompt \<noteq> []
          then follow_filter lower (map_prompt (\<lambda>prompt. prompt\<lparr>pm_filled := None, pm_warning := None, pm_query := []\<rparr>) c)
          else if pm_descents prompt = [] then abandon_filter c
          else follow_filter lower (map_prompt (\<lambda>prompt. prompt\<lparr>pm_filled := None, pm_query := []\<rparr>)
                 (ascend_filter lower c)))"

definition commit_filter :: "browsing \<Rightarrow> browsing" where
  "commit_filter c = c\<lparr>bc_filter := None\<rparr>"

definition submit_filter :: "(bytes \<Rightarrow> bytes) \<Rightarrow> browsing \<Rightarrow> browsing" where
  "submit_filter lower c =
     (case bc_filter c of
        None \<Rightarrow> c
      | Some prompt \<Rightarrow>
          (case selected_candidate lower c of
             Some name \<Rightarrow> if name \<noteq> displayed prompt then fill_from_selection lower c else commit_filter c
           | None \<Rightarrow> commit_filter c))"

end
