(* ===== verification/ContextViewport.thy ===== *)
theory ContextViewport
  imports BrowserContext
begin

text \<open>
  The terminal's view of a browsed root: the frame around the selection, what completing a query
  leaves on screen, and the one way the prompt can disturb a tree.
\<close>

section \<open>The frame\<close>

lemma window_loop_rows:
  assumes "\<forall>v \<in> set out. vr_row v < index" "\<forall>a \<in> set ancestors. fst a < index"
  shows "\<forall>v \<in> set (fst (window_loop hit entered rows index ancestors out matches)). vr_row v < index + length rows"
  using assms
proof (induction hit entered rows index ancestors out matches rule: window_loop.induct)
  case (2 hit entered row rest index ancestors out matches)
  have cut: "a < index" if "(a, e) \<in> set (take (rw_depth row) ancestors)" for a e
    using 2(4) in_set_takeD [OF that] by auto
  have grown: "index + 1 + length rest = index + length (row # rest)" by simp
  show ?case
  proof (cases "hit row \<or> entered row")
    case True
    show ?thesis
      unfolding window_loop.simps Let_def if_P [OF True] grown [symmetric]
      by (rule 2(1) [OF refl True]) (use 2(3) in \<open>auto intro: less_SucI dest: cut\<close>)
  next
    case False
    show ?thesis
      unfolding window_loop.simps Let_def if_not_P [OF False] grown [symmetric]
      by (rule 2(2) [OF refl False]) (use 2(3) in \<open>auto intro: less_SucI dest: cut\<close>)
  qed
qed simp

lemma visible_row:
  assumes "position < vs_len (context_visible lower c)"
  shows "\<exists>row. vs_row (context_visible lower c) position = Some row \<and> row < length (tr_rows (bc_tree c))"
proof (cases "context_visible lower c")
  case (All count)
  then have "count = length (tr_rows (bc_tree c))"
    by (auto simp: context_visible_def window_def unfiltered_def Let_def split: option.splits prod.splits if_splits)
  with All assms show ?thesis by simp
next
  case (Filtered rows matches)
  then obtain query scope where "window lower query scope (bc_tree c) = Filtered rows matches"
    by (auto simp: context_visible_def unfiltered_def split: option.splits)
  then obtain hit entered where "rows = fst (window_loop hit entered (tr_rows (bc_tree c)) 0 [] [] 0)"
    by (auto simp: window_def Let_def split: prod.splits if_splits) (metis fst_conv)+
  with window_loop_rows [of "[]" 0 "[]"] have "\<forall>v \<in> set rows. vr_row v < length (tr_rows (bc_tree c))" by simp
  with Filtered assms show ?thesis by simp
qed

lemma position_of_less: "position_of visible row = Some position \<Longrightarrow> position < vs_len visible"
  by (auto simp: position_of_def min_less_iff_disj split: if_splits visible_rows.splits)

lemma map_filter_all:
  assumes "\<And>x. x \<in> set xs \<Longrightarrow> f x = Some (g x)"
  shows "List.map_filter f xs = map g xs"
  using assms by (induction xs) (auto simp: List.map_filter_def)

text \<open>The arithmetic of the offset, on its own.\<close>

definition frame_offset :: "nat \<Rightarrow> nat \<Rightarrow> nat \<Rightarrow> nat \<Rightarrow> nat" where
  "frame_offset before height count selected =
     (let padding = min SCROLL_PADDING ((height - 1) div 2);
          offset = min (min before (count - height)) (selected - padding);
          bottom = min (selected + padding) (count - 1)
      in if offset + height \<le> bottom then bottom + 1 - height else offset)"

lemma frame_offset_bounds:
  assumes "0 < height" "selected < count"
  shows "frame_offset before height count selected \<le> selected"
    "selected < frame_offset before height count selected + height"
    "frame_offset before height count selected \<le> count - height"
    "3 \<le> height \<Longrightarrow> 0 < selected \<Longrightarrow> frame_offset before height count selected < selected"
    "3 \<le> height \<Longrightarrow> selected + 1 < count \<Longrightarrow> selected + 1 < frame_offset before height count selected + height"
proof -
  have "(height - 1) div 2 \<le> height - 1" "3 \<le> height \<Longrightarrow> 1 \<le> (height - 1) div 2" by auto
  then have pad: "min SCROLL_PADDING ((height - 1) div 2) = (if height < 3 then 0 else 1)"
    by (auto simp: SCROLL_PADDING_def min_def)
  show "frame_offset before height count selected \<le> selected"
    "selected < frame_offset before height count selected + height"
    "frame_offset before height count selected \<le> count - height"
    "3 \<le> height \<Longrightarrow> 0 < selected \<Longrightarrow> frame_offset before height count selected < selected"
    "3 \<le> height \<Longrightarrow> selected + 1 < count \<Longrightarrow> selected + 1 < frame_offset before height count selected + height"
    using assms unfolding frame_offset_def pad Let_def by (auto simp: min_def)
qed


definition sample_context :: browsing where
  "sample_context =
     apply_event \<lparr>ce_context_id = 7, ce_generation = 1, ce_target = Target_Root, ce_result = LR_Entries
       [sample_entry ''a'' True, sample_entry ''b'' False, sample_entry ''c'' False, sample_entry ''d'' False]\<rparr>
     (context_new 7 (HostPath ''/r''))"

lemmas context_eval = context_new_def start_root_listing_def abort_tree_listings_def abort_tasks_def
  map_tree_def spawn_listing_def wrapping_succ_def U64_LIMIT_def restart_def apply_event_def apply_listing_def
  apply_root_listing_def apply_directory_listing_def expanding_path_def forget_task_def
  start_directory_listing_def nth_row_def select_def set_selected_index_def effective_selection_def


section \<open>Completing a query\<close>

lemma concat_str_chars [simp]: "concat (str_chars s) = s"
  by (induction s rule: str_chars.induct) (subst str_chars.simps, simp)

lemma agree_prefix: "\<exists>t u. concat xs = concat (agree xs ys) @ t \<and> concat ys = concat (agree xs ys) @ u"
  by (induction xs ys rule: agree.induct) auto

lemma common_prefix_both: "\<exists>t u. a = common_prefix a b @ t \<and> b = common_prefix a b @ u"
  using agree_prefix [of "str_chars a" "str_chars b"] by (simp add: common_prefix_def)

lemma completion_of_prefix:
  "completion_of start names = Some k \<Longrightarrow> name \<in> set (start # names) \<Longrightarrow> \<exists>t. name = k @ t"
proof (induction start names arbitrary: name rule: completion_of.induct)
  case (2 start next_name names)
  let ?common = "common_prefix start next_name"
  have rest: "completion_of ?common names = Some k" "?common \<noteq> []"
    using 2(2) by (auto simp: Let_def split: if_splits)
  note IH = 2(1) [OF refl rest(2) rest(1)]
  obtain t where t: "?common = k @ t" using IH [of ?common] by auto
  with common_prefix_both [of start next_name] have "\<exists>t. start = k @ t" "\<exists>t. next_name = k @ t" by (metis append_assoc)+
  with 2(3) IH show ?case by auto
qed simp

lemma str_contains_prefix: "starts_with s p \<Longrightarrow> str_contains s p"
  by (cases s) (auto simp: starts_with_def)

lemma follow_filter_keeps:
  "bc_filter (follow_filter lower c) = bc_filter c" "tr_rows (bc_tree (follow_filter lower c)) = tr_rows (bc_tree c)"
  by (auto simp: follow_filter_def select_def map_tree_def set_selected_index_def Let_def split: option.splits)

definition needle_of :: "(bytes \<Rightarrow> bytes) \<Rightarrow> bytes \<Rightarrow> bytes option" where
  "needle_of lower query = (if query = [] then None else Some (lower query))"

text \<open>
  Completing a query never takes a match off the screen: whatever the query matched before,
  with a candidate that was spelled out adopted, the query completed to matches too - provided
  lower case is taken letter by letter, as it is but for one letter whose lower case depends on
  what follows it.
\<close>

theorem completing_never_narrows:
  assumes lower: "\<And>a b. lower (a @ b) = lower a @ lower b"
    and prompt: "bc_filter c = Some prompt"
    and hit: "row \<in> set (tr_rows (bc_tree c))"
      "row_hit lower (needle_of lower (pm_query (adopt_filled prompt))) (pm_scope prompt) row"
  shows "\<exists>prompt'. bc_filter (complete_filter lower c) = Some prompt' \<and> pm_scope prompt' = pm_scope prompt
    \<and> row_hit lower (needle_of lower (pm_query prompt')) (pm_scope prompt) row"
proof -
  let ?p = "adopt_filled prompt"
  have scope: "pm_scope ?p = pm_scope prompt" by (simp add: adopt_filled_def pm_scope_def split: option.split)
  show ?thesis
  proof (cases "\<exists>k. bc_filter (complete_filter lower c) = Some (?p\<lparr>pm_filled := None, pm_warning := None, pm_query := k\<rparr>)
      \<and> pm_query ?p \<noteq> [] \<and> (\<exists>first names. completed_names lower ?p (tr_rows (bc_tree c)) = first # names
        \<and> completion_of first names = Some k)")
    case False
    then have "bc_filter (complete_filter lower c) = Some ?p"
      unfolding complete_filter_def prompt Let_def
      by (auto simp: follow_filter_keeps split: list.splits option.splits)
    with hit scope show ?thesis by simp
  next
    case True
    then obtain k first names where changed: "bc_filter (complete_filter lower c) =
        Some (?p\<lparr>pm_filled := None, pm_warning := None, pm_query := k\<rparr>)"
      and some: "pm_query ?p \<noteq> []" "completed_names lower ?p (tr_rows (bc_tree c)) = first # names"
        "completion_of first names = Some k" by auto
    have "hp_display (rw_name row) \<in> set (completed_names lower ?p (tr_rows (bc_tree c)))"
      using hit some(1) scope by (auto simp: completed_names_def row_hit_def needle_of_def)
    with completion_of_prefix [OF some(3)] some(2) obtain t where "hp_display (rw_name row) = k @ t" by auto
    then have "matches_needle lower (hp_display (rw_name row)) (lower k)"
      by (auto simp: matches_needle_def lower starts_with_def intro: str_contains_prefix)
    with hit(2) have "row_hit lower (needle_of lower k) (pm_scope prompt) row"
      by (auto simp: row_hit_def needle_of_def)
    moreover have "pm_scope (?p\<lparr>pm_filled := None, pm_warning := None, pm_query := k\<rparr>) = pm_scope prompt"
      unfolding scope [symmetric] by (simp add: pm_scope_def)
    ultimately show ?thesis using changed by simp
  qed
qed

theorem completing_never_narrows_witness:
  "let c = extend_filter (map to_ascii_lowercase) ''B'' (begin_filter sample_context) in
     \<exists>prompt. bc_filter (complete_filter (map to_ascii_lowercase) c) = Some prompt
       \<and> row_hit (map to_ascii_lowercase) (needle_of (map to_ascii_lowercase) (pm_query prompt)) None
           (row_new (HostPath ''/r/b'') 0 (sample_entry ''b'' False))"
proof -
  let ?lower = "map to_ascii_lowercase" and ?row = "row_new (HostPath ''/r/b'') 0 (sample_entry ''b'' False)"
  let ?c = "extend_filter ?lower ''B'' (begin_filter sample_context)"
  obtain prompt where prompt: "bc_filter ?c = Some prompt" "pm_query (adopt_filled prompt) = ''B''" "pm_scope prompt = None"
    by (simp add: extend_filter_def begin_filter_def follow_filter_keeps map_prompt_def adopt_filled_def pm_scope_def)
  have "tr_rows (bc_tree ?c) = tr_rows (bc_tree sample_context)"
    by (simp add: extend_filter_def begin_filter_def follow_filter_keeps map_prompt_def)
  then have "?row \<in> set (tr_rows (bc_tree ?c))"
    by (simp add: sample_context_def context_eval browsing_eval)
  moreover have "row_hit ?lower (needle_of ?lower (pm_query (adopt_filled prompt))) (pm_scope prompt) ?row"
    unfolding prompt by code_simp
  ultimately show ?thesis
    using completing_never_narrows [of ?lower ?c prompt ?row] prompt(1,3) by (auto simp: Let_def)
qed

section \<open>Stepping into a directory that failed\<close>

text \<open>
  A directory whose listing failed half way keeps the rows it got. The desktop collapses it before
  it lists it again; the prompt's step into it lists it again where it is.
\<close>

definition failed_halfway :: browsing where
  "failed_halfway =
     fold apply_event
       [\<lparr>ce_context_id = 7, ce_generation = 1, ce_target = Target_Root, ce_result = LR_Entries [sample_entry ''d'' True]\<rparr>]
       (context_new 7 (HostPath ''/r''))"

definition after_failure :: browsing where
  "after_failure =
     fold apply_event
       [\<lparr>ce_context_id = 7, ce_generation = 1, ce_target = Target_Directory (HostPath ''/r/d'') 1,
         ce_result = LR_Entries [sample_entry ''half'' False]\<rparr>,
        \<lparr>ce_context_id = 7, ce_generation = 1, ce_target = Target_Directory (HostPath ''/r/d'') 1,
         ce_result = LR_Failed ''gone''\<rparr>]
       (activate_selected failed_halfway)"

definition listed_again :: browsing where
  "listed_again =
     apply_event \<lparr>ce_context_id = 7, ce_generation = 1, ce_target = Target_Directory (HostPath ''/r/d'') 2,
         ce_result = LR_Entries [sample_entry ''half'' False]\<rparr>
       (descend_filter (map to_ascii_lowercase) (extend_filter (map to_ascii_lowercase) ''d'' (begin_filter after_failure)))"

lemma after_failure_state:
  "tr_rows (bc_tree after_failure) =
     [(row_new (HostPath ''/r/d'') 0 (sample_entry ''d'' True))\<lparr>rw_expansion := Failed 1 ''gone''\<rparr>,
      row_new (HostPath ''/r/d/half'') 1 (sample_entry ''half'' False)]"
  "tr_placements (bc_tree after_failure) = []" "tr_selected_index (bc_tree after_failure) = Some 0"
  "tr_root_path (bc_tree after_failure) = HostPath ''/r''"
  "bc_generation after_failure = 1" "bc_id after_failure = 7" "bc_next_request_id after_failure = 1"
  by (simp_all add: after_failure_def failed_halfway_def activate_selected_def toggle_directory_def context_eval
      browsing_eval clamp_selection_def)

definition asked :: browsing where
  "asked = extend_filter (map to_ascii_lowercase) ''d'' (begin_filter after_failure)"

lemma asked_matches:
  "window (map to_ascii_lowercase) ''d'' None (bc_tree after_failure) = Filtered [\<lparr>vr_row = 0, vr_matched = True\<rparr>] 1"
proof -
  have d: "to_ascii_lowercase CHR ''d'' = CHR ''d''" by code_simp
  have half: "map to_ascii_lowercase ''half'' = ''half''" by code_simp
  show ?thesis
    using d half by (simp add: window_def after_failure_state row_hit_def row_entered_def in_scope_def matches_needle_def
        hp_display_def rw_name_def row_new_def sample_entry_def starts_with_def)
qed

lemma asked_state:
  "bc_filter asked = Some \<lparr>pm_query = ''d'', pm_filled = None, pm_warning = None, pm_descents = [],
      pm_restore_path = Some (HostPath ''/r/d'')\<rparr>"
  "bc_tree asked = bc_tree after_failure" "bc_generation asked = 1" "bc_id asked = 7" "bc_next_request_id asked = 1"
proof -
  let ?pm = "\<lparr>pm_query = ''d'', pm_filled = None, pm_warning = None, pm_descents = [],
      pm_restore_path = Some (HostPath ''/r/d'')\<rparr>"
  have "asked = follow_filter (map to_ascii_lowercase) (after_failure\<lparr>bc_filter := Some ?pm\<rparr>)"
    by (simp add: asked_def extend_filter_def begin_filter_def map_prompt_def adopt_filled_def tree_selected_row_def
        effective_selection_def nth_row_def after_failure_state row_new_def)
  also have "\<dots> = select (Some 0) (after_failure\<lparr>bc_filter := Some ?pm\<rparr>)"
    by (simp add: follow_filter_def context_visible_def pm_scope_def asked_matches after_failure_state
        start_of_def position_where_def)
  finally have moved: "asked = select (Some 0) (after_failure\<lparr>bc_filter := Some ?pm\<rparr>)" .
  have same: "set_selected_index (Some 0) (bc_tree after_failure) = bc_tree after_failure"
    using after_failure_state(3) by (simp add: set_selected_index_def)
  show "bc_filter asked = Some ?pm" "bc_tree asked = bc_tree after_failure" "bc_generation asked = 1"
    "bc_id asked = 7" "bc_next_request_id asked = 1"
    unfolding moved by (simp_all add: select_def map_tree_def same after_failure_state)
qed

text \<open>
  C39. Stepping with the prompt into a directory whose listing failed half way shows twice every
  entry the failed listing had placed.
\<close>

theorem stepping_into_a_failed_directory_doubles_its_rows:
  "map rw_path (tr_rows (bc_tree after_failure)) = map HostPath [''/r/d'', ''/r/d/half'']
   \<and> map rw_path (tr_rows (bc_tree listed_again)) = map HostPath [''/r/d'', ''/r/d/half'', ''/r/d/half'']"
proof
  show "map rw_path (tr_rows (bc_tree after_failure)) = map HostPath [''/r/d'', ''/r/d/half'']"
    by (simp add: after_failure_state row_new_def)
  let ?lower = "map to_ascii_lowercase"
  have visible: "context_visible ?lower asked = Filtered [\<lparr>vr_row = 0, vr_matched = True\<rparr>] 1"
    by (simp add: context_visible_def asked_state asked_matches pm_scope_def)
  have "selected_candidate ?lower asked = Some ''d''"
    by (simp add: selected_candidate_def visible effective_selection_def asked_state after_failure_state start_of_def
        nth_row_def row_new_def rw_name_def sample_entry_def hp_display_def)
  then obtain pm where step: "descend_filter ?lower asked =
      follow_filter ?lower (map_prompt pm (start_directory_listing 0 asked))"
    by (simp add: descend_filter_def asked_state displayed_def effective_selection_def after_failure_state nth_row_def
        row_new_def sample_entry_def is_closed_def Let_def)
  have tree: "tr_rows (bc_tree (follow_filter ?lower c)) = tr_rows (bc_tree c)"
    "tr_placements (bc_tree (follow_filter ?lower c)) = tr_placements (bc_tree c)"
    "bc_id (follow_filter ?lower c) = bc_id c" "bc_generation (follow_filter ?lower c) = bc_generation c" for c
    by (auto simp: follow_filter_def select_def map_tree_def set_selected_index_def Let_def split: option.splits)
  have "tr_rows (bc_tree (descend_filter ?lower asked)) =
      [(row_new (HostPath ''/r/d'') 0 (sample_entry ''d'' True))\<lparr>rw_expansion := Loading 2\<rparr>,
       row_new (HostPath ''/r/d/half'') 1 (sample_entry ''half'' False)]"
    "tr_placements (bc_tree (descend_filter ?lower asked)) = [(2, \<lparr>pl_parent = 0, pl_depth = 1, pl_insertion = 1\<rparr>)]"
    "bc_id (descend_filter ?lower asked) = 7" "bc_generation (descend_filter ?lower asked) = 1"
    unfolding step tree
    by (simp_all add: map_prompt_def start_directory_listing_def spawn_listing_def asked_state wrapping_succ_def
        U64_LIMIT_def begin_expansion_def after_failure_state set_expansion_def row_new_def DEPTH_MAX_def Let_def)
  then show "map rw_path (tr_rows (bc_tree listed_again)) = map HostPath [''/r/d'', ''/r/d/half'', ''/r/d/half'']"
    unfolding listed_again_def asked_def [symmetric]
    by (simp add: apply_event_def apply_listing_def apply_directory_listing_def expanding_path_def nth_row_def
        map_tree_def extend_child_def placements_after_insertion_def splice_def placed_rows_def row_new_def
        sample_entry_def child_path_def hp_join_def ends_with_char_def Let_def)
qed

end
