(* ===== verification/ContextTasks.thy ===== *)
theory ContextTasks
  imports ContextViewport
begin

text \<open>
  The listing tasks of a terminal context: which it holds, what feeds what, and that none is let
  go without being stopped or having ended.
\<close>

section \<open>Everything that can happen to a context\<close>

datatype context_op =
    Co_Refresh | Co_Enter | Co_Leave | Co_Activate | Co_Cancel | Co_Event context_event
  | Co_View nat | Co_Move bool | Co_Scroll bool
  | Co_BeginFilter | Co_Type bytes | Co_Shorten | Co_Complete | Co_Descend | Co_Clear | Co_Submit
  | Co_Commit | Co_Abandon

fun context_do :: "(bytes \<Rightarrow> bytes) \<Rightarrow> context_op \<Rightarrow> browsing \<Rightarrow> browsing" where
  "context_do lower Co_Refresh c = refresh c"
| "context_do lower Co_Enter c = enter_selected c"
| "context_do lower Co_Leave c = leave c"
| "context_do lower Co_Activate c = activate_selected c"
| "context_do lower Co_Cancel c = cancel_context c"
| "context_do lower (Co_Event event) c = apply_event event c"
| "context_do lower (Co_View height) c = snd (viewport lower height c)"
| "context_do lower (Co_Move down) c = move_selection lower down c"
| "context_do lower (Co_Scroll down) c = scroll_half_page lower down c"
| "context_do lower Co_BeginFilter c = begin_filter c"
| "context_do lower (Co_Type character) c = extend_filter lower character c"
| "context_do lower Co_Shorten c = shorten_filter lower c"
| "context_do lower Co_Complete c = complete_filter lower c"
| "context_do lower Co_Descend c = descend_filter lower c"
| "context_do lower Co_Clear c = clear_filter_entry lower c"
| "context_do lower Co_Submit c = submit_filter lower c"
| "context_do lower Co_Commit c = commit_filter c"
| "context_do lower Co_Abandon c = abandon_filter c"

text \<open>Request numbers are not used up: fewer than \<open>2 ^ 64\<close> directories have been opened.\<close>

definition roomy :: "context_op \<Rightarrow> browsing \<Rightarrow> bool" where
  "roomy op c \<longleftrightarrow> bc_next_request_id c + 1 < U64_LIMIT"

section \<open>Tasks held\<close>

definition held :: "browsing \<Rightarrow> nat set" where
  "held c = set_option (bc_root_task c) \<union> snd ` set (bc_listing_tasks c)"

definition stopped :: "browsing \<Rightarrow> nat set" where
  "stopped c = {handle. Aborted handle \<in> set (bc_effects c)}"

definition tasks_ok :: "browsing \<Rightarrow> bool" where
  "tasks_ok c \<longleftrightarrow> distinct (map fst (bc_listing_tasks c))
     \<and> (\<forall>(r, handle) \<in> set (bc_listing_tasks c). r \<in> fst ` set (tr_placements (bc_tree c)) \<and> r \<le> bc_next_request_id c
          \<and> (\<exists>path. Spawned handle path (bc_generation c) (Target_Directory path r) \<in> set (bc_effects c)))
     \<and> (\<forall>handle. bc_root_task c = Some handle \<longrightarrow>
          (\<exists>path. Spawned handle path (bc_generation c) Target_Root \<in> set (bc_effects c)))"

definition keeps :: "browsing \<Rightarrow> browsing \<Rightarrow> bool" where
  "keeps c c' \<longleftrightarrow> (tasks_ok c \<longrightarrow> tasks_ok c' \<and> held c \<subseteq> held c' \<union> stopped c') \<and> stopped c \<subseteq> stopped c'"

lemma keeps_refl [simp]: "keeps c c"
  by (auto simp: keeps_def)

lemma keeps_trans: "keeps a b \<Longrightarrow> keeps b c \<Longrightarrow> keeps a c"
  unfolding keeps_def by blast

definition same_tasks :: "browsing \<Rightarrow> browsing \<Rightarrow> bool" where
  "same_tasks c c' \<longleftrightarrow> bc_root_task c' = bc_root_task c \<and> bc_listing_tasks c' = bc_listing_tasks c
     \<and> bc_generation c' = bc_generation c \<and> bc_next_request_id c' = bc_next_request_id c
     \<and> bc_effects c' = bc_effects c
     \<and> map fst (tr_placements (bc_tree c')) = map fst (tr_placements (bc_tree c))"

lemma same_tasks_keeps: "same_tasks c c' \<Longrightarrow> keeps c c'"
proof -
  assume same: "same_tasks c c'"
  then have "fst ` set (tr_placements (bc_tree c')) = fst ` set (tr_placements (bc_tree c))"
    by (metis same_tasks_def set_map)
  with same show ?thesis by (simp add: keeps_def tasks_ok_def held_def stopped_def same_tasks_def)
qed

lemma same_tasks_trans: "same_tasks a b \<Longrightarrow> same_tasks b c \<Longrightarrow> same_tasks a c"
  by (simp add: same_tasks_def)

named_theorems same_simps "operations that leave the tasks alone"

lemma same_updates [same_simps]:
  "same_tasks c c"
  "same_tasks c (c\<lparr>bc_filter := p\<rparr>)" "same_tasks c (map_prompt f c)" "same_tasks c (select index c)"
  "same_tasks c (c\<lparr>bc_viewport_offset := n\<rparr>)" "same_tasks c (c\<lparr>bc_viewport_height := n\<rparr>)"
  by (simp_all add: same_tasks_def map_prompt_def select_def map_tree_def set_selected_index_def)

lemma same_follow [same_simps]: "same_tasks c (follow_filter lower c)"
  by (auto simp: follow_filter_def Let_def same_simps split: option.split)

lemma same_fill [same_simps]: "same_tasks c (fill_from_selection lower c)"
  by (simp add: fill_from_selection_def same_simps)

lemmas same_two = same_tasks_trans [OF _ same_follow] same_tasks_trans [OF _ same_fill]

lemma same_framed:
  "same_tasks c (snd (case x of None \<Rightarrow> (a, c\<lparr>bc_viewport_height := h\<rparr>)
     | Some s \<Rightarrow> (f s, c\<lparr>bc_viewport_height := h, bc_viewport_offset := g s\<rparr>)))"
  by (cases x) (simp_all add: same_tasks_def)

lemma same_view [same_simps]: "same_tasks c (snd (viewport lower height c))"
  unfolding viewport_def Let_def by (rule same_framed)

lemma same_fill_select: "same_tasks c (fill_from_selection lower (select index c))"
  "same_tasks c (fill_from_selection lower (select index (c\<lparr>bc_viewport_offset := n\<rparr>)))"
  by (simp_all add: same_tasks_def fill_from_selection_def map_prompt_def select_def map_tree_def set_selected_index_def)

lemma same_moving [same_simps]:
  "same_tasks c (move_selection lower down c)" "same_tasks c (scroll_half_page lower down c)"
  unfolding move_selection_def scroll_half_page_def Let_def
  by (simp_all only: same_simps same_fill_select split: if_split option.split prod.split) simp_all

lemma same_typing [same_simps]:
  "same_tasks c (begin_filter c)" "same_tasks c (extend_filter lower character c)"
  "same_tasks c (complete_filter lower c)" "same_tasks c (commit_filter c)" "same_tasks c (submit_filter lower c)"
  "same_tasks c (warn_filter w c)"
  by (auto simp: begin_filter_def extend_filter_def complete_filter_def commit_filter_def submit_filter_def
      warn_filter_def Let_def same_simps intro!: same_two split: option.split list.split)

lemma same_tree [same_simps]:
  "same_tasks c (map_tree (extend_root entries) c)" "same_tasks c (map_tree (extend_child r entries) c)"
  "same_tasks c (map_tree (finish_root result) c)"
  by (auto simp: same_tasks_def map_tree_def extend_root_def extend_child_def finish_root_def
      placements_after_insertion_def Let_def split: option.split)

section \<open>Tasks started and stopped\<close>

lemma keeps_cancel: "keeps c (cancel_context c)"
  by (auto simp: keeps_def tasks_ok_def held_def stopped_def cancel_context_def abort_tree_listings_def
      abort_tasks_def split: option.splits)

lemma root_listing_replaces:
  "tasks_ok (start_root_listing c)" "held c \<subseteq> stopped (start_root_listing c)"
  "stopped c \<subseteq> stopped (start_root_listing c)"
  by (auto simp: tasks_ok_def held_def stopped_def start_root_listing_def abort_tree_listings_def
      abort_tasks_def map_tree_def spawn_listing_def Let_def)

lemma keeps_start_root: "keeps c (start_root_listing c)"
  using root_listing_replaces [of c] by (auto simp: keeps_def)

lemma keeps_change_root: "keeps c (change_root_path path c)"
  using root_listing_replaces [of "(map_tree (reroot path) c)\<lparr>bc_viewport_offset := 0\<rparr>"]
  by (auto simp: keeps_def change_root_path_def held_def stopped_def map_tree_def)

lemma update_nonmem: "k \<notin> fst ` set m \<Longrightarrow> AList.update k v m = m @ [(k, v)]"
  by (induction m) auto

lemma keys_update: "fst ` set (AList.update k v m) = insert k (fst ` set m)"
  using dom_map_of_conv_image_fst [of "AList.update k v m"] dom_map_of_conv_image_fst [of m] by auto

lemma keys_delete: "fst ` set (AList.delete k m) = fst ` set m - {k}"
  using dom_map_of_conv_image_fst [of "AList.delete k m"] dom_map_of_conv_image_fst [of m] by auto

lemma keeps_start_directory:
  assumes room: "bc_next_request_id c + 1 < U64_LIMIT"
  shows "keeps c (start_directory_listing index c)"
proof (cases "tasks_ok c")
  case True
  note assms = room True
  let ?r = "Suc (bc_next_request_id c)"
  have fresh: "?r \<notin> fst ` set (bc_listing_tasks c)" using assms(2) by (auto simp: tasks_ok_def)
  have succ: "wrapping_succ (bc_next_request_id c) = ?r" using assms(1) by (simp add: wrapping_succ_def)
  obtain path t where opened: "begin_expansion index ?r (bc_tree c) = (path, t)" by fastforce
  then have "\<exists>pl. tr_placements t = AList.update ?r pl (tr_placements (bc_tree c))"
    by (auto simp: begin_expansion_def Let_def)
  then have keys: "fst ` set (tr_placements t) = insert ?r (fst ` set (tr_placements (bc_tree c)))"
    using keys_update by metis
  have c': "start_directory_listing index c = c\<lparr>bc_next_request_id := ?r, bc_tree := t, bc_spawned := bc_spawned c + 1,
      bc_effects := bc_effects c @ [Spawned (bc_spawned c) path (bc_generation c) (Target_Directory path ?r)],
      bc_listing_tasks := bc_listing_tasks c @ [(?r, bc_spawned c)]\<rparr>"
    using fresh by (simp add: start_directory_listing_def spawn_listing_def succ opened Let_def update_nonmem)
  show ?thesis unfolding keeps_def
  proof (intro conjI impI)
    show "tasks_ok (start_directory_listing index c)"
      using assms(2) fresh keys unfolding c' by (fastforce simp: tasks_ok_def)
  qed (auto simp: c' held_def stopped_def)
next
  case False
  then show ?thesis
    by (auto simp: keeps_def stopped_def start_directory_listing_def spawn_listing_def Let_def split: prod.split)
qed

lemma remove_placements_dropped_keys: "set (fst (remove_placements ids m)) = set ids \<inter> fst ` set m"
proof (induction ids m rule: remove_placements.induct)
  case (2 r ids m)
  then show ?case by (cases "r \<in> fst ` set m") (auto simp: split_def Let_def keys_delete map_of_eq_None_iff)
qed simp

lemma remove_placements_kept_keys: "fst ` set (snd (remove_placements ids m)) = fst ` set m - set ids"
proof (induction ids m rule: remove_placements.induct)
  case (2 r ids m)
  then show ?case by (auto simp: split_def Let_def keys_delete)
qed simp

lemma abort_requests:
  "bc_listing_tasks (fold abort_request ids c) = fold AList.delete ids (bc_listing_tasks c)
   \<and> bc_root_task (fold abort_request ids c) = bc_root_task c
   \<and> bc_generation (fold abort_request ids c) = bc_generation c
   \<and> bc_next_request_id (fold abort_request ids c) = bc_next_request_id c
   \<and> bc_tree (fold abort_request ids c) = bc_tree c
   \<and> set (bc_effects c) \<subseteq> set (bc_effects (fold abort_request ids c))
   \<and> (distinct (map fst (bc_listing_tasks c)) \<longrightarrow>
        (\<forall>(r, handle) \<in> set (bc_listing_tasks c). r \<in> set ids \<longrightarrow> Aborted handle \<in> set (bc_effects (fold abort_request ids c))))"
proof (induction ids arbitrary: c)
  case (Cons r ids)
  have one: "bc_listing_tasks (abort_request r c) = AList.delete r (bc_listing_tasks c)"
    "bc_root_task (abort_request r c) = bc_root_task c" "bc_generation (abort_request r c) = bc_generation c"
    "bc_next_request_id (abort_request r c) = bc_next_request_id c" "bc_tree (abort_request r c) = bc_tree c"
    "set (bc_effects c) \<subseteq> set (bc_effects (abort_request r c))"
    by (auto simp: abort_request_def abort_tasks_def delete_id map_of_eq_None_iff split: option.split)
  have gone: "Aborted handle \<in> set (bc_effects (abort_request r c))"
    if "distinct (map fst (bc_listing_tasks c))" "(r, handle) \<in> set (bc_listing_tasks c)" for handle
    using that by (simp add: abort_request_def abort_tasks_def)
  have rest: "(s, handle) \<in> set (bc_listing_tasks (abort_request r c))"
    if "s \<noteq> r" "(s, handle) \<in> set (bc_listing_tasks c)" for s handle
    using that by (simp add: one AList.delete_eq)
  note IH = Cons.IH [of "abort_request r c"]
  have "Aborted handle \<in> set (bc_effects (fold abort_request ids (abort_request r c)))"
    if d: "distinct (map fst (bc_listing_tasks c))" and s: "(s, handle) \<in> set (bc_listing_tasks c)" "s \<in> set (r # ids)" for s handle
  proof (cases "s = r")
    case True
    with gone [OF d] s(1) IH show ?thesis by blast
  next
    case False
    have "distinct (map fst (bc_listing_tasks (abort_request r c)))" unfolding one by (rule distinct_delete [OF d])
    with IH rest [OF False s(1)] s(2) False show ?thesis by auto
  qed
  then show ?case using IH one by auto
qed simp

lemma fold_delete: "set (fold AList.delete ids m) = {(r, v) \<in> set m. r \<notin> set ids}"
  by (induction ids arbitrary: m) (auto simp: AList.delete_eq)

lemma fold_delete_distinct: "distinct (map fst m) \<Longrightarrow> distinct (map fst (fold AList.delete ids m))"
  by (induction ids arbitrary: m) (auto simp: distinct_delete)

lemma collapse_keys:
  obtains ids where "set (fst (collapse index t)) = set ids \<inter> fst ` set (tr_placements t)"
    "fst ` set (tr_placements (snd (collapse index t))) = fst ` set (tr_placements t) - set ids"
proof -
  let ?ids = "request_ids (take (subtree_end (tr_rows t) index - index) (drop index (tr_rows t)))"
  have "fst (collapse index t) = fst (remove_placements ?ids (tr_placements t))"
    "fst ` set (tr_placements (snd (collapse index t))) = fst ` set (snd (remove_placements ?ids (tr_placements t)))"
    by (force simp: collapse_def placements_after_removal_def Let_def split_def)+
  then show ?thesis using that remove_placements_dropped_keys remove_placements_kept_keys by metis
qed

lemma keeps_collapse: "keeps c (collapse_directory index c)"
proof -
  let ?ids = "fst (collapse index (bc_tree c))" and ?t = "snd (collapse index (bc_tree c))"
  let ?c = "collapse_directory index c"
  have c: "?c = fold abort_request ?ids (c\<lparr>bc_tree := ?t\<rparr>)" by (simp add: collapse_directory_def split_def Let_def)
  note facts = abort_requests [of ?ids "c\<lparr>bc_tree := ?t\<rparr>", folded c, simplified]
  obtain gone where gone: "set ?ids = set gone \<inter> fst ` set (tr_placements (bc_tree c))"
    "fst ` set (tr_placements ?t) = fst ` set (tr_placements (bc_tree c)) - set gone" by (rule collapse_keys)
  have tasks: "set (bc_listing_tasks ?c) = {(r, handle) \<in> set (bc_listing_tasks c). r \<notin> set ?ids}"
    using facts by (simp add: fold_delete)
  have "tasks_ok ?c" if ok: "tasks_ok c"
  proof -
    have "distinct (map fst (bc_listing_tasks ?c))"
      unfolding facts [THEN conjunct1] using ok by (intro fold_delete_distinct) (simp add: tasks_ok_def)
    moreover have "r \<in> fst ` set (tr_placements ?t)" if "(r, handle) \<in> set (bc_listing_tasks ?c)" for r handle
      using that ok gone unfolding tasks tasks_ok_def by blast
    ultimately show ?thesis
      using ok facts tasks unfolding tasks_ok_def by (auto simp: subset_iff) blast+
  qed
  moreover have "held c \<subseteq> held ?c \<union> stopped ?c" if "tasks_ok c"
    using facts tasks that by (auto simp: held_def stopped_def tasks_ok_def)
  moreover have "stopped c \<subseteq> stopped ?c" using facts by (auto simp: stopped_def)
  ultimately show ?thesis by (simp add: keeps_def)
qed

lemma keeps_same_after: "keeps a b \<Longrightarrow> same_tasks b c \<Longrightarrow> keeps a c"
  using keeps_trans same_tasks_keeps by blast

lemma keeps_same_before: "same_tasks a b \<Longrightarrow> keeps b c \<Longrightarrow> keeps a c"
  using keeps_trans same_tasks_keeps by blast

lemma keeps_toggling:
  assumes "bc_next_request_id c + 1 < U64_LIMIT"
  shows "keeps c (toggle_directory index c)" "keeps c (activate_selected c)"
  using keeps_start_directory [OF assms] keeps_collapse
  by (auto simp: toggle_directory_def activate_selected_def split: option.split)

lemma keeps_rooting:
  "keeps c (refresh c)" "keeps c (enter_selected c)" "keeps c (leave c)"
  using keeps_start_root keeps_change_root
  by (auto simp: refresh_def enter_selected_def leave_def split: option.split)

lemma keeps_close_descent: "keeps c (close_descent descent c)"
  using keeps_collapse by (auto simp: close_descent_def split: option.split)

lemma keeps_abandon: "keeps c (abandon_filter c)"
proof (cases "bc_filter c")
  case (Some prompt)
  have "keeps a (fold close_descent descents a)" for descents a
    by (induction descents arbitrary: a) (auto intro: keeps_trans keeps_close_descent)
  then have "keeps c (fold close_descent (rev (pm_descents prompt)) (c\<lparr>bc_filter := None\<rparr>))"
    by (rule keeps_same_before [OF same_updates(2)])
  with Some show ?thesis by (auto simp: abandon_filter_def Let_def intro: keeps_same_after same_updates)
qed (simp add: abandon_filter_def)

lemma keeps_ascend: "keeps c (ascend_filter lower c)"
proof (cases "bc_filter c")
  case (Some prompt)
  have "keeps c (follow_filter lower (close_descent descent (map_prompt f c)))" for descent f
    by (rule keeps_same_after [OF keeps_same_before [OF same_updates(3) keeps_close_descent] same_follow])
  with Some show ?thesis by (simp add: ascend_filter_def Let_def)
qed (simp add: ascend_filter_def)

lemma keeps_shorten: "keeps c (shorten_filter lower c)"
proof (cases "bc_filter c")
  case (Some prompt)
  have "keeps c (follow_filter lower (c\<lparr>bc_filter := p\<rparr>))" for p
    by (rule same_tasks_keeps [OF same_two(1)], rule same_updates)
  moreover have "keeps c (abandon_filter (c\<lparr>bc_filter := p\<rparr>))" "keeps c (ascend_filter lower (c\<lparr>bc_filter := p\<rparr>))" for p
    by (rule keeps_same_before [OF same_updates(2) keeps_abandon], rule keeps_same_before [OF same_updates(2) keeps_ascend])
  ultimately show ?thesis unfolding shorten_filter_def Some option.map option.case
    by (cases "str_pop (pm_query (adopt_filled prompt))") (simp_all only: option.case split: if_split, simp_all)
qed (simp add: shorten_filter_def)

lemma keeps_clear: "keeps c (clear_filter_entry lower c)"
proof (cases "bc_filter c")
  case (Some prompt)
  have "keeps c (follow_filter lower (map_prompt f c))" for f
    by (rule same_tasks_keeps [OF same_two(1)], rule same_updates)
  moreover have "keeps c (follow_filter lower (map_prompt f (ascend_filter lower c)))" for f
    by (rule keeps_same_after [OF keeps_same_after [OF keeps_ascend same_updates(3)] same_follow])
  ultimately show ?thesis using keeps_abandon [of c] unfolding clear_filter_entry_def Some option.case
    by (simp only: split: if_split) simp
qed (simp add: clear_filter_entry_def)

lemma keeps_descend:
  assumes "bc_next_request_id c + 1 < U64_LIMIT"
  shows "keeps c (descend_filter lower c)"
proof (cases "bc_filter c")
  case (Some prompt)
  have "keeps c (follow_filter lower (map_prompt f (start_directory_listing index c)))" for f index
    by (rule keeps_same_after [OF keeps_same_after [OF keeps_start_directory [OF assms] same_updates(3)] same_follow])
  moreover have "keeps c (follow_filter lower (map_prompt f c))" for f
    by (rule same_tasks_keeps [OF same_two(1)], rule same_updates)
  moreover have "keeps c (warn_filter w c)" for w by (intro same_tasks_keeps same_typing)
  ultimately show ?thesis using Some by (auto simp: descend_filter_def Let_def split: option.split)
qed (simp add: descend_filter_def)

section \<open>No listing is let go\<close>

text \<open>The task whose end an event reports.\<close>

fun ended_by :: "context_op \<Rightarrow> browsing \<Rightarrow> nat \<Rightarrow> bool" where
  "ended_by (Co_Event event) c handle \<longleftrightarrow>
     ce_context_id event = bc_id c \<and> ce_generation event = bc_generation c
     \<and> (ce_result event = LR_Finished \<or> (\<exists>error. ce_result event = LR_Failed error))
     \<and> (case ce_target event of
          Target_Root \<Rightarrow> bc_root_task c = Some handle
        | Target_Directory _ request \<Rightarrow> map_of (bc_listing_tasks c) request = Some handle)"
| "ended_by _ c handle \<longleftrightarrow> False"

lemma finish_child_keys:
  "r \<in> fst ` set (tr_placements t) \<Longrightarrow>
     fst ` set (tr_placements (finish_child r result t)) = fst ` set (tr_placements t) - {r}"
proof -
  assume "r \<in> fst ` set (tr_placements t)"
  then obtain pl where "map_of (tr_placements t) r = Some pl" by (metis domD dom_map_of_conv_image_fst)
  then show ?thesis by (simp add: finish_child_def keys_delete)
qed

lemma event_keeps:
  fixes event :: context_event and c :: browsing
  assumes "tasks_ok c"
  defines "c' \<equiv> apply_event event c"
  shows "tasks_ok c' \<and> held c \<subseteq> held c' \<union> stopped c' \<union> {handle. ended_by (Co_Event event) c handle}"
proof (cases "ce_context_id event = bc_id c \<and> ce_generation event = bc_generation c")
  case False
  then have "c' = c" by (auto simp: c'_def apply_event_def)
  with assms(1) show ?thesis by auto
next
  case True
  then have c': "c' = apply_listing (ce_target event) (ce_result event) c" by (simp add: c'_def apply_event_def)
  show ?thesis
  proof (cases "ce_target event")
    case Target_Root
    show ?thesis
    proof (cases "ce_result event")
      case (LR_Entries entries)
      with Target_Root c' same_tree(1) [of c entries] same_tasks_keeps have "keeps c c'"
        by (auto simp: apply_listing_def apply_root_listing_def)
      with assms(1) show ?thesis by (auto simp: keeps_def)
    qed (use Target_Root True assms(1) c' in \<open>auto simp: apply_listing_def apply_root_listing_def tasks_ok_def held_def
        map_tree_def finish_root_def\<close>)
  next
    case (Target_Directory path r)
    have same_entries: "keeps c (map_tree (extend_child r entries) c)" for entries
      using same_tree(2) same_tasks_keeps by blast
    have ended: "tasks_ok (map_tree (finish_child r result) (forget_task r c))
        \<and> held c \<subseteq> held (map_tree (finish_child r result) (forget_task r c)) \<union> {handle. map_of (bc_listing_tasks c) r = Some handle}"
      if there: "expanding_path r (bc_tree c) \<noteq> None" for result
    proof -
      let ?c = "map_tree (finish_child r result) (forget_task r c)"
      have "r \<in> fst ` set (tr_placements (bc_tree c))"
        using there by (auto simp: expanding_path_def bind_eq_None_conv) (metis domI dom_map_of_conv_image_fst)
      then have keys: "fst ` set (tr_placements (bc_tree ?c)) = fst ` set (tr_placements (bc_tree c)) - {r}"
        by (simp add: map_tree_def forget_task_def finish_child_keys)
      have tasks: "set (bc_listing_tasks ?c) = {(s, handle) \<in> set (bc_listing_tasks c). s \<noteq> r}"
        by (auto simp: map_tree_def forget_task_def AList.delete_eq)
      have "distinct (map fst (bc_listing_tasks c))" using assms(1) by (simp add: tasks_ok_def)
      then have "distinct (map fst (bc_listing_tasks ?c))"
        by (simp add: map_tree_def forget_task_def distinct_delete)
      moreover have "bc_generation ?c = bc_generation c" "bc_effects ?c = bc_effects c" "bc_root_task ?c = bc_root_task c"
        "bc_next_request_id ?c = bc_next_request_id c" by (simp_all add: map_tree_def forget_task_def)
      ultimately have "tasks_ok ?c" using assms(1) unfolding tasks_ok_def tasks keys by auto
      moreover have "held c \<subseteq> held ?c \<union> {handle. map_of (bc_listing_tasks c) r = Some handle}"
        using assms(1) \<open>bc_root_task ?c = bc_root_task c\<close> unfolding held_def tasks tasks_ok_def by force
      ultimately show ?thesis ..
    qed
    show ?thesis
    proof (cases "expanding_path r (bc_tree c) = None")
      case none: True
      with Target_Directory c' assms(1) show ?thesis by (auto simp: apply_listing_def apply_directory_listing_def)
    next
      case there: False
      show ?thesis
      proof (cases "ce_result event")
        case (LR_Entries entries)
        with Target_Directory c' there same_entries [of entries] assms(1) show ?thesis
          by (auto simp: apply_listing_def apply_directory_listing_def keeps_def)
      next
        case LR_Finished
        with Target_Directory c' there ended [OF there, of "Ok ()"] True show ?thesis
          by (auto simp: apply_listing_def apply_directory_listing_def)
      next
        case (LR_Failed error)
        with Target_Directory c' there ended [OF there, of "Err error"] True show ?thesis
          by (auto simp: apply_listing_def apply_directory_listing_def)
      qed
    qed
  qed
qed

lemma context_step:
  assumes "tasks_ok c" "roomy op c"
  shows "tasks_ok (context_do lower op c)
    \<and> held c \<subseteq> held (context_do lower op c) \<union> stopped (context_do lower op c) \<union> {handle. ended_by op c handle}"
proof (cases "\<exists>event. op = Co_Event event")
  case True
  then obtain event where "op = Co_Event event" ..
  then show ?thesis using event_keeps [OF assms(1), of event] by simp
next
  case False
  have room: "bc_next_request_id c + 1 < U64_LIMIT" using assms(2) by (simp add: roomy_def)
  have "keeps c (context_do lower op c)"
    using False keeps_rooting keeps_toggling [OF room] keeps_cancel same_tasks_keeps same_simps keeps_shorten
      keeps_clear keeps_descend [OF room] keeps_abandon
    by (cases op) simp_all
  with assms(1) show ?thesis by (auto simp: keeps_def)
qed

interpretation listing: simulation "context_do lower" "\<lambda>_ u. u" roomy "\<lambda>c (u :: unit). tasks_ok c"
  for lower
  by unfold_locales (simp add: context_step)

lemma context_new_ok: "tasks_ok (context_new context_id root)"
  unfolding context_new_def by (rule root_listing_replaces)



text \<open>
  Once a context has moved to another root, been refreshed or been closed, nothing a listing
  of before still sends changes it.
\<close>

theorem old_listings_are_ignored:
  assumes "ce_generation event = bc_generation c" "bc_generation c < U64_LIMIT"
  shows "apply_event event (refresh c) = refresh c
    \<and> apply_event event (change_root_path path c) = change_root_path path c
    \<and> apply_event event (cancel_context c) = cancel_context c"
proof -
  have "wrapping_succ (bc_generation c) \<noteq> bc_generation c"
    using assms(2) by (cases "bc_generation c + 1 = U64_LIMIT") (auto simp: wrapping_succ_def U64_LIMIT_def)
  moreover have "bc_generation (refresh c) = wrapping_succ (bc_generation c)"
    "bc_generation (change_root_path path c) = wrapping_succ (bc_generation c)"
    "bc_generation (cancel_context c) = wrapping_succ (bc_generation c)"
    by (simp_all add: refresh_def change_root_path_def cancel_context_def start_root_listing_def abort_tree_listings_def
        abort_tasks_def map_tree_def spawn_listing_def Let_def)
  ultimately show ?thesis using assms(1) by (simp add: apply_event_def)
qed

theorem old_listings_are_ignored_witness:
  "tr_rows (bc_tree (apply_event \<lparr>ce_context_id = 7, ce_generation = 1, ce_target = Target_Root,
       ce_result = LR_Entries [sample_entry ''of_old'' False]\<rparr>
     (change_root_path (HostPath ''/new'') (context_new 7 (HostPath ''/old''))))) = []"
proof -
  let ?c = "context_new 7 (HostPath ''/old'')"
  have "bc_generation ?c = 1" "bc_generation ?c < U64_LIMIT" by (simp_all add: context_eval tree_new_def Let_def)
  with old_listings_are_ignored [of "\<lparr>ce_context_id = 7, ce_generation = 1, ce_target = Target_Root,
       ce_result = LR_Entries [sample_entry ''of_old'' False]\<rparr>" ?c "HostPath ''/new''"]
  show ?thesis by (simp add: change_root_path_def context_eval Let_def)
qed

end
