(* ===== verification/GuiApp.thy ===== *)
theory GuiApp
  imports BrowserWindow
begin

text \<open>
  The listings of the desktop front end: \<open>old/src/gui/app.rs\<close> and the tab of
  \<open>old/src/gui/dock.rs\<close>. Listing tasks send groups over a channel, which every frame drains
  before it applies what was clicked. A task, once spawned, runs to its end; what it sends is an
  event of the model. Drawing is not here.
\<close>

section \<open>The application\<close>

datatype request = Req_Root | Req_Child nat

datatype gui_event =
    Ev_Entries nat request "host_entry list"
  | Ev_Finished nat request "(bytes, unit) result"

datatype gui_action = Act_Toggle nat nat | Act_Enter nat host_path

record browser_tab =
  gt_tree :: tree
  gt_id :: nat
  gt_filter :: bytes

record gui =
  gu_tabs :: "browser_tab list"
  gu_next_id :: nat
  gu_spawned :: "(nat \<times> request \<times> host_path) list"

definition gt_window :: "(bytes \<Rightarrow> bytes) \<Rightarrow> browser_tab \<Rightarrow> visible_rows" where
  "gt_window lower self = window lower (gt_filter self) None (gt_tree self)"

definition find_browser :: "nat \<Rightarrow> gui \<Rightarrow> browser_tab option" where
  "find_browser browser g = find (\<lambda>tab. gt_id tab = browser) (gu_tabs g)"

fun change_first :: "('a \<Rightarrow> bool) \<Rightarrow> ('a \<Rightarrow> 'a) \<Rightarrow> 'a list \<Rightarrow> 'a list" where
  "change_first P f [] = []"
| "change_first P f (x # xs) = (if P x then f x # xs else x # change_first P f xs)"

definition change_tree :: "nat \<Rightarrow> (tree \<Rightarrow> tree) \<Rightarrow> gui \<Rightarrow> gui" where
  "change_tree browser f g =
     g\<lparr>gu_tabs := change_first (\<lambda>tab. gt_id tab = browser) (\<lambda>tab. tab\<lparr>gt_tree := f (gt_tree tab)\<rparr>) (gu_tabs g)\<rparr>"

definition gui_spawn :: "nat \<Rightarrow> request \<Rightarrow> host_path \<Rightarrow> gui \<Rightarrow> gui" where
  "gui_spawn browser request path g = g\<lparr>gu_spawned := gu_spawned g @ [(browser, request, path)]\<rparr>"

definition start_root :: "nat \<Rightarrow> gui \<Rightarrow> gui" where
  "start_root browser g =
     (case find_browser browser g of
        None \<Rightarrow> g
      | Some tab \<Rightarrow> gui_spawn browser Req_Root (tr_root_path (gt_tree tab)) g)"

definition gui_new :: "host_path \<Rightarrow> gui" where
  "gui_new root =
     start_root 1 \<lparr>gu_tabs = [\<lparr>gt_tree = tree_new root, gt_id = 1, gt_filter = []\<rparr>],
                    gu_next_id = 2, gu_spawned = []\<rparr>"

text \<open>What a listing task sends: groups up to the first error, then how it ended.\<close>

fun take_entries :: "(bytes, host_entry) result list \<Rightarrow> host_entry list \<times> bytes option" where
  "take_entries [] = ([], None)"
| "take_entries (Inr entry # rest) = (let (entries, failure) = take_entries rest in (entry # entries, failure))"
| "take_entries (Inl error # rest) = ([], Some error)"

fun listing_events ::
  "nat \<Rightarrow> request \<Rightarrow> (bytes, host_entry) result list list \<Rightarrow> gui_event list" where
  "listing_events browser request [] = [Ev_Finished browser request (Ok ())]"
| "listing_events browser request (chunk # chunks) =
     (let (entries, failure) = take_entries chunk;
          sent = (if entries = [] then [] else [Ev_Entries browser request entries])
      in case failure of
           Some error \<Rightarrow> sent @ [Ev_Finished browser request (Err error)]
         | None \<Rightarrow> sent @ listing_events browser request chunks)"

definition gui_listing ::
  "nat \<Rightarrow> request \<Rightarrow> (bytes, (bytes, host_entry) result list list) result \<Rightarrow> gui_event list" where
  "gui_listing browser request opened =
     (case opened of
        Inl error \<Rightarrow> [Ev_Finished browser request (Err error)]
      | Inr groups \<Rightarrow> listing_events browser request groups)"

section \<open>A frame\<close>

fun drain_event :: "gui_event \<Rightarrow> gui \<Rightarrow> gui" where
  "drain_event (Ev_Entries browser Req_Root entries) g = change_tree browser (extend_root entries) g"
| "drain_event (Ev_Entries browser (Req_Child request) entries) g = change_tree browser (extend_child request entries) g"
| "drain_event (Ev_Finished browser Req_Root result) g = change_tree browser (finish_root result) g"
| "drain_event (Ev_Finished browser (Req_Child request) result) g = change_tree browser (finish_child request result) g"

definition toggle :: "nat \<Rightarrow> nat \<Rightarrow> tree \<Rightarrow> host_path option \<times> tree" where
  "toggle index request t =
     (case nth_row index t of
        None \<Rightarrow> (None, t)
      | Some row \<Rightarrow>
          if \<not> he_navigable (rw_entry row) then (None, t)
          else (case rw_expansion row of
              Collapsed \<Rightarrow> (let (path, t) = begin_expansion index request t in (Some path, t))
            | Failed _ _ \<Rightarrow> (let (path, t) = begin_expansion index request (snd (collapse index t)) in (Some path, t))
            | _ \<Rightarrow> (None, snd (collapse index t))))"

fun apply_action :: "gui_action \<Rightarrow> gui \<Rightarrow> gui" where
  "apply_action (Act_Toggle browser row) g =
     (let g = g\<lparr>gu_next_id := gu_next_id g + 1\<rparr>; request = gu_next_id g in
      case find_browser browser g of
        None \<Rightarrow> g
      | Some tab \<Rightarrow>
          (let (path, t) = toggle row request (gt_tree tab); g = change_tree browser (\<lambda>_. t) g in
           case path of None \<Rightarrow> g | Some path \<Rightarrow> gui_spawn browser (Req_Child request) path g))"
| "apply_action (Act_Enter browser path) g = start_root browser (change_tree browser (reroot path) g)"

datatype gui_op = Gui_Event gui_event | Gui_Action gui_action | Gui_Filter nat bytes | Gui_Close nat

fun gui_do :: "gui_op \<Rightarrow> gui \<Rightarrow> gui" where
  "gui_do (Gui_Event event) g = drain_event event g"
| "gui_do (Gui_Action action) g = apply_action action g"
| "gui_do (Gui_Filter browser query) g =
     g\<lparr>gu_tabs := change_first (\<lambda>tab. gt_id tab = browser) (\<lambda>tab. tab\<lparr>gt_filter := query\<rparr>) (gu_tabs g)\<rparr>"
| "gui_do (Gui_Close browser) g = g\<lparr>gu_tabs := filter (\<lambda>tab. gt_id tab \<noteq> browser) (gu_tabs g)\<rparr>"

section \<open>Every tab stands for a forest\<close>

text \<open>Rows as deep as a depth can say are not opened: no path is that long.\<close>

definition shallow :: "gui_op \<Rightarrow> gui \<Rightarrow> bool" where
  "shallow op g \<longleftrightarrow> (\<forall>tab \<in> set (gu_tabs g). \<forall>row \<in> set (tr_rows (gt_tree tab)). rw_depth row < DEPTH_MAX)"

definition tab_ok :: "nat \<Rightarrow> tree \<Rightarrow> bool" where
  "tab_ok limit t \<longleftrightarrow> (\<exists>forest. represents t forest) \<and> (\<forall>r \<in> set (request_ids (tr_rows t)). r \<le> limit)"

definition gui_ok :: "gui \<Rightarrow> bool" where
  "gui_ok g \<longleftrightarrow> (\<forall>tab \<in> set (gu_tabs g). tab_ok (gu_next_id g) (gt_tree tab))"

lemma request_ids_subset: "set xs \<subseteq> set ys \<Longrightarrow> set (request_ids xs) \<subseteq> set (request_ids ys)"
  by (auto simp: request_ids_def List.map_filter_def)

lemma set_change_first: "set (change_first P f xs) \<subseteq> set xs \<union> f ` set xs"
  by (induction xs) auto

lemma gui_ok_change:
  assumes "gui_ok g" "\<And>t. tab_ok (gu_next_id g) t \<Longrightarrow> tab_ok (gu_next_id g) (f t)"
  shows "gui_ok (change_tree browser f g)"
  using assms set_change_first unfolding gui_ok_def change_tree_def by fastforce

lemma tab_ok_op:
  assumes "tab_ok limit t" "legal op t"
    "\<And>r. r \<in> set (request_ids (tr_rows (tree_do op t))) \<Longrightarrow> r \<in> set (request_ids (tr_rows t)) \<or> r \<le> limit"
  shows "tab_ok limit (tree_do op t)"
  using assms tree_do_represents unfolding tab_ok_def by blast

lemma extend_ids:
  assumes "represents t forest"
  shows "request_ids (tr_rows (extend_root entries t)) = request_ids (tr_rows t)"
    "request_ids (tr_rows (extend_child r entries t)) = request_ids (tr_rows t)"
    "request_ids (tr_rows (finish_child r result t)) = request_ids (tr_rows t)"
    "request_ids (tr_rows (finish_root result t)) = request_ids (tr_rows t)"
proof -
  obtain root nodes where t: "represents t (root, nodes)" using assms by (cases forest) auto
  show "request_ids (tr_rows (extend_root entries t)) = request_ids (tr_rows t)"
    by (simp add: extend_root_def placements_after_insertion_def Let_def)
  show "request_ids (tr_rows (extend_child r entries t)) = request_ids (tr_rows t)"
    by (simp add: extend_child_def placements_after_insertion_def Let_def request_ids_splice split: option.split)
  show "request_ids (tr_rows (finish_child r result t)) = request_ids (tr_rows t)"
  proof (cases "map_of (tr_placements t) r")
    case (Some pl)
    from placement_of(2) [OF t Some] obtain i where "i < length (tr_rows t)" "rw_expansion (tr_rows t ! i) = Loading r"
      "pl_parent pl = i" by fastforce
    with represents_turn(2) [OF t, of i] Some show ?thesis
      by (cases result) (simp_all add: finish_child_def)
  qed (simp add: finish_child_def)
  show "request_ids (tr_rows (finish_root result t)) = request_ids (tr_rows t)" by (simp add: finish_root_def)
qed

lemma collapse_rows:
  assumes "index < length (tr_rows t)"
  shows "set (request_ids (tr_rows (snd (collapse index t)))) \<subseteq> set (request_ids (tr_rows t))"
    "index < length (tr_rows (snd (collapse index t)))"
    "rw_expansion (tr_rows (snd (collapse index t)) ! index) = Collapsed"
    "rw_depth (tr_rows (snd (collapse index t)) ! index) = rw_depth (tr_rows t ! index)"
proof -
  let ?e = "subtree_end (tr_rows t) index"
  let ?cut = "take (index + 1) (tr_rows t) @ drop ?e (tr_rows t)"
  have rows: "tr_rows (snd (collapse index t)) = ?cut[index := (tr_rows t ! index)\<lparr>rw_expansion := Collapsed\<rparr>]"
    using assms by (simp add: collapse_def Let_def split_def placements_after_removal_def set_expansion_def nth_append)
  have "set ?cut \<subseteq> set (tr_rows t)" by (auto dest: in_set_takeD in_set_dropD)
  then have "set (request_ids ?cut) \<subseteq> set (request_ids (tr_rows t))" by (rule request_ids_subset)
  moreover have "set (request_ids (?cut[index := (tr_rows t ! index)\<lparr>rw_expansion := Collapsed\<rparr>])) \<subseteq> set (request_ids ?cut)"
  proof -
    let ?row = "(tr_rows t ! index)\<lparr>rw_expansion := Collapsed\<rparr>"
    have "set (?cut[index := ?row]) \<subseteq> insert ?row (set ?cut)" by (rule set_update_subset_insert)
    then have "set (request_ids (?cut[index := ?row])) \<subseteq> set (request_ids (?row # ?cut))"
      using request_ids_subset [of "?cut[index := ?row]" "?row # ?cut"] by simp
    then show ?thesis by (simp add: request_ids_Cons)
  qed
  ultimately show "set (request_ids (tr_rows (snd (collapse index t)))) \<subseteq> set (request_ids (tr_rows t))"
    unfolding rows by (rule subset_trans [rotated])
  show "index < length (tr_rows (snd (collapse index t)))"
    "rw_expansion (tr_rows (snd (collapse index t)) ! index) = Collapsed"
    "rw_depth (tr_rows (snd (collapse index t)) ! index) = rw_depth (tr_rows t ! index)"
    unfolding rows using assms by (simp_all add: nth_append)
qed

lemma begin_ids:
  "index < length (tr_rows t) \<Longrightarrow>
     set (request_ids (tr_rows (snd (begin_expansion index r t)))) \<subseteq> insert r (set (request_ids (tr_rows t)))"
proof -
  assume "index < length (tr_rows t)"
  let ?row = "(tr_rows t ! index)\<lparr>rw_expansion := Loading r\<rparr>"
  have "set ((tr_rows t)[index := ?row]) \<subseteq> set (?row # tr_rows t)" 
    using set_update_subset_insert [of "tr_rows t" index ?row] by simp
  from request_ids_subset [OF this] show ?thesis
    by (simp add: begin_expansion_def set_expansion_def Let_def request_ids_Cons)
qed

lemma toggle_ok:
  assumes "tab_ok limit t" "\<forall>row \<in> set (tr_rows t). rw_depth row < DEPTH_MAX"
  shows "tab_ok (Suc limit) (snd (toggle index (Suc limit) t))"
proof (cases "nth_row index t")
  case None
  with assms show ?thesis by (auto simp: toggle_def tab_ok_def)
next
  case (Some row)
  then have i: "index < length (tr_rows t)" "tr_rows t ! index = row" by (auto simp: nth_row_def split: if_splits)
  have t: "tab_ok (Suc limit) t" "Suc limit \<notin> set (request_ids (tr_rows t))" using assms(1) by (auto simp: tab_ok_def)
  have shut: "tab_ok (Suc limit) (snd (collapse index t))"
    using tab_ok_op [OF t(1), of "Op_Collapse index"] i(1) collapse_rows(1) [OF i(1)] by auto
  have depth: "rw_depth row < DEPTH_MAX" using assms(2) i by auto
  have begin1: "tab_ok (Suc limit) (snd (begin_expansion index (Suc limit) t))" if "rw_expansion row = Collapsed"
    using tab_ok_op [OF t(1), of "Op_Begin index (Suc limit)"] i t(2) depth that begin_ids [OF i(1), of "Suc limit"] by auto
  have begin2: "tab_ok (Suc limit) (snd (begin_expansion index (Suc limit) (snd (collapse index t))))"
    using tab_ok_op [OF shut, of "Op_Begin index (Suc limit)"] collapse_rows [OF i(1)] t(2) depth i(2)
      begin_ids [OF collapse_rows(2) [OF i(1)], of "Suc limit"] by auto
  show ?thesis using Some t(1) shut begin1 begin2
    by (auto simp: toggle_def split_def Let_def split: expansion.split)
qed

lemma tab_ok_mono: "tab_ok limit t \<Longrightarrow> limit \<le> limit' \<Longrightarrow> tab_ok limit' t"
  by (auto simp: tab_ok_def)

lemma gui_step_ok:
  assumes "gui_ok g" "shallow op g"
  shows "gui_ok (gui_do op g)"
proof (cases op)
  case (Gui_Event event)
  have fed: "tab_ok (gu_next_id g) (tree_do op' t)"
    if "tab_ok (gu_next_id g) t" "op' \<in> {Op_ExtendRoot es, Op_ExtendChild r es, Op_FinishRoot res, Op_FinishChild r res}"
    for t op' es r res
    using that tab_ok_op [OF that(1), of op'] extend_ids unfolding tab_ok_def by auto
  have "gui_ok (drain_event event g)"
  proof (cases event)
    case (Ev_Entries browser request entries)
    with assms(1) fed [where es = entries] show ?thesis
      by (cases request) (auto intro!: gui_ok_change simp flip: tree_do.simps)
  next
    case (Ev_Finished browser request result)
    with assms(1) fed [where res = result] show ?thesis
      by (cases request) (auto intro!: gui_ok_change simp flip: tree_do.simps)
  qed
  with Gui_Event show ?thesis by simp
next
  case (Gui_Action action)
  have "gui_ok (apply_action action g)"
  proof (cases action)
    case (Act_Toggle browser row)
    let ?g = "g\<lparr>gu_next_id := gu_next_id g + 1\<rparr>"
    have grown: "gui_ok ?g" using assms(1) tab_ok_mono by (fastforce simp: gui_ok_def)
    show ?thesis
    proof (cases "find_browser browser ?g")
      case None
      with Act_Toggle grown show ?thesis by (simp add: Let_def)
    next
      case (Some tab)
      then have tab: "tab \<in> set (gu_tabs g)" by (auto simp: find_browser_def find_Some_iff)
      have "tab_ok (Suc (gu_next_id g)) (snd (toggle row (Suc (gu_next_id g)) (gt_tree tab)))"
        using assms tab by (intro toggle_ok) (auto simp: gui_ok_def shallow_def)
      then have "gui_ok (change_tree browser (\<lambda>_. snd (toggle row (Suc (gu_next_id g)) (gt_tree tab))) ?g)"
        by (intro gui_ok_change [OF grown]) simp
      with Act_Toggle Some show ?thesis
        by (auto simp: Let_def split_def gui_spawn_def gui_ok_def split: option.split)
    qed
  next
    case (Act_Enter browser path)
    have "gui_ok (change_tree browser (reroot path) g)"
    proof (rule gui_ok_change [OF assms(1)])
      fix t assume "tab_ok (gu_next_id g) t"
      from tab_ok_op [OF this, of "Op_Reroot path"] show "tab_ok (gu_next_id g) (reroot path t)"
        by (simp add: reroot_def restart_def)
    qed
    with Act_Enter show ?thesis by (auto simp: start_root_def gui_spawn_def gui_ok_def split: option.split)
  qed
  with Gui_Action show ?thesis by simp
next
  case (Gui_Filter browser query)
  with assms(1) set_change_first [of "\<lambda>tab. gt_id tab = browser" "\<lambda>tab. tab\<lparr>gt_filter := query\<rparr>" "gu_tabs g"]
  show ?thesis by (fastforce simp: gui_ok_def)
next
  case (Gui_Close browser)
  with assms(1) show ?thesis by (simp add: gui_ok_def)
qed

interpretation desktop: simulation gui_do "\<lambda>_ u. u" shallow "\<lambda>g (u :: unit). gui_ok g"
  by unfold_locales (rule gui_step_ok)

lemma gui_new_ok: "gui_ok (gui_new root)"
  using represents_new
  by (auto simp: gui_new_def start_root_def find_browser_def gui_spawn_def gui_ok_def tab_ok_def tree_new_def)

text \<open>
  C37. However listings, clicks and closed tabs interleave, every tab's rows stand for a forest
  with all its placements right: a listing that was collapsed away, or failed and is tried again,
  never leaves a row out of its place.
\<close>

theorem desktop_rows_stay_in_place:
  assumes "legal_run gui_do shallow ops (gui_new root)"
    and "tab \<in> set (gu_tabs (fold gui_do ops (gui_new root)))"
  shows "\<exists>nodes. represents (gt_tree tab) (tr_root_path (gt_tree tab), nodes)"
proof -
  have "gui_ok (fold gui_do ops (gui_new root))"
    using desktop.sim_run [OF gui_new_ok assms(1)] by simp
  with assms(2) obtain forest where "represents (gt_tree tab) forest" by (auto simp: gui_ok_def tab_ok_def)
  then show ?thesis by (cases forest) (auto dest: represents_facts(1))
qed

definition sample_clicks :: "gui_op list" where
  "sample_clicks =
     [Gui_Event (Ev_Entries 1 Req_Root [sample_entry ''d'' True]), Gui_Action (Act_Toggle 1 0),
      Gui_Event (Ev_Entries 1 (Req_Child 3) [sample_entry ''half'' False]),
      Gui_Event (Ev_Finished 1 (Req_Child 3) (Err ''gone'')), Gui_Action (Act_Toggle 1 0),
      Gui_Event (Ev_Entries 1 (Req_Child 4) [sample_entry ''whole'' False])]"

lemmas gui_eval = gui_new_def start_root_def find_browser_def gui_spawn_def change_tree_def toggle_def
  nth_row_def shallow_def clamp_selection_def reroot_def restart_def finish_root_def

theorem desktop_rows_stay_in_place_witness:
  "\<exists>tab nodes. gu_tabs (fold gui_do sample_clicks (gui_new (HostPath ''/r''))) = [tab]
     \<and> represents (gt_tree tab) (HostPath ''/r'', nodes)
     \<and> map rw_path (tr_rows (gt_tree tab)) = map HostPath [''/r/d'', ''/r/d/whole'']"
proof -
  have legal: "legal_run gui_do shallow sample_clicks (gui_new (HostPath ''/r''))"
    by (simp add: sample_clicks_def gui_eval browsing_eval)
  obtain tab where tab: "gu_tabs (fold gui_do sample_clicks (gui_new (HostPath ''/r''))) = [tab]"
    "map rw_path (tr_rows (gt_tree tab)) = map HostPath [''/r/d'', ''/r/d/whole'']"
    "tr_root_path (gt_tree tab) = HostPath ''/r''"
    by (simp add: sample_clicks_def gui_eval browsing_eval)
  with desktop_rows_stay_in_place [OF legal, of tab] show ?thesis by auto
qed

section \<open>A listing of the root before\<close>


end
