(* ===== verification/Spec2Isabelle.thy ===== *)
theory Spec2Isabelle
  imports FsWalk FsWrite WatchRun ConnectionRun ServerLife Cli BrowserValue ContextTasks GuiApp
begin

text \<open>
  A verification library for File Peeker: a server that runs tasks on the filesystem of the
  machine it is on, and the clients that watch and command it.
\<close>

end
